theory Spec2Isabelle
  imports Complex_Main "HOL-Library.Word"
begin

unbundle bit_operations_syntax

section \<open>Common conventions\<close>

text \<open>
  The development embeds the core of the EBM trainer: bootstrap sampling sets
  (SamplingWithReplacement.cpp), the bit-packed input store
  (DataSetByAttributeCombination.cpp) and segmented tensors (SegmentedRegion.h).

  \<^item> \<open>size_t\<close> is the 64-bit unsigned type of the target; where a value is kept as a
    \<open>nat\<close> the wrap-around \<open>mod 2 ^ 64\<close> is written out.
  \<^item> A C array is a list; a read or a write outside the array is the fault
    \<open>OutOfBounds\<close>, an allocation that fails is a value of the result
    (\<open>None\<close> for a null pointer, \<open>True\<close> for the error flag the C++ returns).
  \<^item> A failing \<open>assert\<close> of a debug build is the fault \<open>AssertFailed\<close>.
  \<^item> A division by zero or a shift by the width of the type or more is the fault
    \<open>Undefined\<close>.
\<close>

datatype fault = OutOfBounds | AssertFailed | Undefined

definition size_max :: nat where
  "size_max = 2 ^ 64"

text \<open>
  The value that a sum or a product of sizes has in a \<open>size_t\<close>. A product that the
  source builds factor by factor is the product of the factors read this way, since
  reducing modulo \<open>2 ^ 64\<close> at every step or once at the end gives the same value.
\<close>

definition size_t_of :: "nat \<Rightarrow> nat" where
  "size_t_of n = nat (int n mod 2 ^ 64)"

section \<open>Sampling sets (SamplingWithReplacement.cpp)\<close>

text \<open>
  Of the origin data set only its case count is read here
  (\<open>DataSetAttributeCombination::GetCountCases\<close>).
\<close>

record DataSetAttributeCombination =
  m_cCases :: nat

definition GetCountCases :: "DataSetAttributeCombination \<Rightarrow> nat" where
  "GetCountCases ds = m_cCases ds"

record SamplingWithReplacement =
  m_pOriginDataSet :: DataSetAttributeCombination
  m_aCountOccurrences :: "nat list"

text \<open>
  \<open>RandomStream\<close> is declared outside the files at hand. Its state is the type
  variable \<open>'r\<close> and its method \<open>Next(min, max)\<close> is the parameter \<open>Next\<close>: it returns
  the new state and the drawn number, or \<open>None\<close> when it throws.
\<close>

type_synonym 'r next_fn = "'r \<Rightarrow> nat \<Rightarrow> nat \<Rightarrow> ('r \<times> nat) option"

text \<open>The contract of \<open>Next\<close>: the number drawn lies between the two bounds.\<close>

definition next_in_range :: "'r next_fn \<Rightarrow> bool" where
  "next_in_range Next =
     (\<forall>r lo hi r' v. Next r lo hi = Some (r', v) \<longrightarrow> lo \<le> v \<and> v \<le> hi)"

text \<open>
  The loop \<open>for(iCase = 0; iCase < cCases; ++iCase)\<close> of GenerateSingleSamplingSet,
  by the number of iterations left. \<open>Inr None\<close> is the \<open>catch(...)\<close> branch.
\<close>

fun draw_loop ::
  "'r next_fn \<Rightarrow> nat \<Rightarrow> nat \<Rightarrow> 'r \<Rightarrow> nat list \<Rightarrow> fault + (nat list) option" where
  "draw_loop Next cCases 0 r a = Inr (Some a)"
| "draw_loop Next cCases (Suc k) r a =
     (case Next r 0 (cCases - 1) of
        None \<Rightarrow> Inr None
      | Some (r', iCountOccurrences) \<Rightarrow>
          if iCountOccurrences < length a
          then draw_loop Next cCases k r'
                 (a[iCountOccurrences := (a ! iCountOccurrences + 1) mod 2 ^ 64])
          else Inl OutOfBounds)"

text \<open>
  \<open>malloc_ok\<close> and \<open>new_ok\<close> say whether the two allocations succeed.
\<close>

definition GenerateSingleSamplingSet ::
  "bool \<Rightarrow> bool \<Rightarrow> 'r next_fn \<Rightarrow> 'r \<Rightarrow> DataSetAttributeCombination
     \<Rightarrow> fault + SamplingWithReplacement option" where
  "GenerateSingleSamplingSet malloc_ok new_ok Next pRandomStream pOriginDataSet =
     (let cCases = GetCountCases pOriginDataSet in
      if \<not> 0 < cCases then Inl AssertFailed
      else if \<not> malloc_ok then Inr None
      else
        (case draw_loop Next cCases cCases pRandomStream (replicate cCases 0) of
           Inl e \<Rightarrow> Inl e
         | Inr None \<Rightarrow> Inr None
         | Inr (Some aCountOccurrences) \<Rightarrow>
             if new_ok
             then Inr (Some \<lparr>m_pOriginDataSet = pOriginDataSet,
                              m_aCountOccurrences = aCountOccurrences\<rparr>)
             else Inr None))"

function flat_loop :: "nat \<Rightarrow> nat \<Rightarrow> nat list \<Rightarrow> fault + nat list" where
  "flat_loop cCases iCase a =
     (if iCase < cCases
      then (if iCase < length a then flat_loop cCases (Suc iCase) (a[iCase := 1])
            else Inl OutOfBounds)
      else Inr a)"
  by pat_completeness auto
termination
  by (relation "measure (\<lambda>(cCases, iCase, a). cCases - iCase)") auto

declare flat_loop.simps [simp del]

text \<open>
  The array of GenerateFlatSamplingSet is not cleared after \<open>malloc\<close>: its first
  content is the parameter \<open>junk\<close>.
\<close>

definition GenerateFlatSamplingSet ::
  "bool \<Rightarrow> bool \<Rightarrow> nat list \<Rightarrow> DataSetAttributeCombination
     \<Rightarrow> fault + SamplingWithReplacement option" where
  "GenerateFlatSamplingSet malloc_ok new_ok junk pOriginDataSet =
     (let cCases = GetCountCases pOriginDataSet in
      if \<not> 0 < cCases then Inl AssertFailed
      else if \<not> malloc_ok \<or> length junk \<noteq> cCases then Inr None
      else
        (case flat_loop cCases 0 junk of
           Inl e \<Rightarrow> Inl e
         | Inr aCountOccurrences \<Rightarrow>
             if new_ok
             then Inr (Some \<lparr>m_pOriginDataSet = pOriginDataSet,
                              m_aCountOccurrences = aCountOccurrences\<rparr>)
             else Inr None))"

text \<open>
  The debug loop of GetTotalCountCaseOccurrences adds the counts in \<open>size_t\<close>.
\<close>

function total_loop :: "nat \<Rightarrow> nat \<Rightarrow> nat list \<Rightarrow> nat \<Rightarrow> fault + nat" where
  "total_loop cCases i a acc =
     (if i < cCases
      then (if i < length a then total_loop cCases (Suc i) a ((acc + a ! i) mod 2 ^ 64)
            else Inl OutOfBounds)
      else Inr acc)"
  by pat_completeness auto
termination
  by (relation "measure (\<lambda>(cCases, i, a, acc). cCases - i)") auto

declare total_loop.simps [simp del]

definition GetTotalCountCaseOccurrences :: "SamplingWithReplacement \<Rightarrow> fault + nat" where
  "GetTotalCountCaseOccurrences s =
     (let cTotalCountCaseOccurrences = GetCountCases (m_pOriginDataSet s) in
      case total_loop (GetCountCases (m_pOriginDataSet s)) 0 (m_aCountOccurrences s) 0 of
        Inl e \<Rightarrow> Inl e
      | Inr cTotalCountCaseOccurrencesDebug \<Rightarrow>
          if cTotalCountCaseOccurrencesDebug = cTotalCountCaseOccurrences
          then Inr cTotalCountCaseOccurrences
          else Inl AssertFailed)"

text \<open>The invariant of a sampling set.\<close>

definition sampling_invariant :: "SamplingWithReplacement \<Rightarrow> bool" where
  "sampling_invariant s =
     (length (m_aCountOccurrences s) = GetCountCases (m_pOriginDataSet s) \<and>
      sum_list (m_aCountOccurrences s) = GetCountCases (m_pOriginDataSet s))"

text \<open>A stream for the examples: it hands out the numbers of a list, reduced to the range asked for.\<close>

definition demo_next :: "nat list next_fn" where
  "demo_next r lo hi =
     (case r of [] \<Rightarrow> None | v # r' \<Rightarrow> Some (r', lo + v mod (hi - lo + 1)))"

section \<open>Segmented tensors (SegmentedRegion.h)\<close>

text \<open>
  \<open>SegmentedRegionCore<TDivisions, TValues>\<close> with \<open>TDivisions = ActiveDataType\<close>
  (\<open>ptrdiff_t\<close>, an \<open>int\<close> here) and any value type \<open>'v\<close>. The arrays are lists as long
  as their capacity, so \<open>m_cValueCapacity\<close> is \<open>length (m_aValues t)\<close> and
  \<open>cDivisionCapacity\<close> is \<open>length (aDivisions d)\<close>. Counts are natural numbers; the
  products and the byte counts that the source computes in \<open>size_t\<close> are reduced with
  \<open>size_t_of\<close>, and the conversions between \<open>size_t\<close> and \<open>ptrdiff_t\<close> that Expand
  relies on are written out.
\<close>

record DimensionInfo =
  cDivisions :: nat
  aDivisions :: "int list"

record 'v SegmentedRegionCore =
  m_cVectorLength :: nat
  m_cDimensions :: nat
  m_aValues :: "'v list"
  m_bExpanded :: bool
  m_aDimensions :: "DimensionInfo list"

text \<open>
  \<open>realloc\<close> to a block of \<open>n\<close> elements: the new block keeps the old content as far
  as it has room for it, and its new cells hold \<open>junk\<close>.
\<close>

definition realloc_list :: "'a \<Rightarrow> nat \<Rightarrow> 'a list \<Rightarrow> 'a list" where
  "realloc_list junk n xs = take n xs @ replicate (n - length xs) junk"

text \<open>
  The sizes in bytes of a cut and of a value: the trainer uses the class with
  \<open>ptrdiff_t\<close> cuts and \<open>double\<close> values. \<open>realloc\<close> is asked for a number of bytes
  that is computed in \<open>size_t\<close>, and the block it returns holds that many bytes; \<open>ok\<close>
  tells for which byte counts it succeeds.
\<close>

definition sizeof_TDivisions :: nat where
  "sizeof_TDivisions = 8"

definition sizeof_TValues :: nat where
  "sizeof_TValues = 8"

text \<open>The result of a method that returns \<open>bool\<close>: the error flag and the object after the call.\<close>

type_synonym 'v outcome = "fault + bool \<times> 'v SegmentedRegionCore"

definition SetCountDivisions ::
  "(nat \<Rightarrow> bool) \<Rightarrow> int \<Rightarrow> nat \<Rightarrow> nat \<Rightarrow> 'v SegmentedRegionCore \<Rightarrow> 'v outcome" where
  "SetCountDivisions ok junk iDimension cDivisions' t =
     (if \<not> (iDimension < m_cDimensions t \<and> iDimension < length (m_aDimensions t))
      then Inl AssertFailed
      else
        let pDimension = m_aDimensions t ! iDimension in
        if \<not> (\<not> m_bExpanded t \<or> cDivisions' \<le> cDivisions pDimension) then Inl AssertFailed
        else if length (aDivisions pDimension) < cDivisions'
        then
          (if m_bExpanded t then Inl AssertFailed
           else
             let cNewDivisionCapacity = size_t_of (cDivisions' + cDivisions' div 2);
                 cBytes = size_t_of (sizeof_TDivisions * cNewDivisionCapacity)
             in
               if \<not> ok cBytes then Inr (True, t)
               else Inr (False, t\<lparr>m_aDimensions := (m_aDimensions t)[iDimension :=
                      \<lparr>cDivisions = cDivisions',
                       aDivisions = realloc_list junk (cBytes div sizeof_TDivisions)
                                      (aDivisions pDimension)\<rparr>]\<rparr>))
        else Inr (False, t\<lparr>m_aDimensions := (m_aDimensions t)[iDimension :=
               pDimension\<lparr>cDivisions := cDivisions'\<rparr>]\<rparr>))"

definition EnsureValueCapacity ::
  "(nat \<Rightarrow> bool) \<Rightarrow> 'v \<Rightarrow> nat \<Rightarrow> 'v SegmentedRegionCore \<Rightarrow> 'v outcome" where
  "EnsureValueCapacity ok junk cValues t =
     (if length (m_aValues t) < cValues
      then
        (if m_bExpanded t then Inl AssertFailed
         else
           let cNewValueCapacity = size_t_of (cValues + cValues div 2);
               cBytes = size_t_of (sizeof_TValues * cNewValueCapacity)
           in
             if \<not> ok cBytes then Inr (True, t)
             else Inr (False, t\<lparr>m_aValues :=
                    realloc_list junk (cBytes div sizeof_TValues) (m_aValues t)\<rparr>))
      else Inr (False, t))"

subsection \<open>GetValue\<close>

text \<open>
  The binary search of the compact branch of GetValue: \<open>low\<close>, \<open>high\<close> and \<open>middle\<close>
  are \<open>ptrdiff_t\<close>. The result is the region number on the axis.
\<close>

function GetValue_search :: "int list \<Rightarrow> int \<Rightarrow> int \<Rightarrow> int \<Rightarrow> fault + int" where
  "GetValue_search aDiv d low high =
     (let middle = (low + high) div 2 in
      if \<not> (0 \<le> middle \<and> nat middle < length aDiv) then Inl OutOfBounds
      else
        let midVal = aDiv ! nat middle in
        if midVal = d then Inr middle
        else
          let high' = (if midVal < d then high else middle - 1);
              low' = (if midVal < d then middle + 1 else low)
          in if low' \<le> high' then GetValue_search aDiv d low' high'
             else Inr (if midVal < d then middle + 1 else middle))"
  by pat_completeness auto
termination
  by (relation "measure (\<lambda>(aDiv, d, low, high). nat (high - low + 1))") auto

declare GetValue_search.simps [simp del]

text \<open>
  The walk of GetValue over the dimensions, by the lists of the dimensions and of the
  coordinates left; the result is the index \<open>iValue\<close> into \<open>m_aValues\<close>. Both
  \<open>iValue\<close> and \<open>valueMultiple\<close> are \<open>size_t\<close>.
\<close>

fun GetValue_compact :: "DimensionInfo list \<Rightarrow> int list \<Rightarrow> int \<Rightarrow> nat \<Rightarrow> fault + int" where
  "GetValue_compact [] ds iValue valueMultiple = Inr iValue"
| "GetValue_compact (pDimension # dims) [] iValue valueMultiple = Inl OutOfBounds"
| "GetValue_compact (pDimension # dims) (d # ds) iValue valueMultiple =
     (if cDivisions pDimension \<noteq> 0
      then
        (case GetValue_search (take (cDivisions pDimension) (aDivisions pDimension)) d 0
                (int (cDivisions pDimension) - 1) of
           Inl e \<Rightarrow> Inl e
         | Inr middle \<Rightarrow>
             GetValue_compact dims ds ((iValue + middle * int valueMultiple) mod 2 ^ 64)
               (size_t_of (valueMultiple * (cDivisions pDimension + 1))))
      else GetValue_compact dims ds iValue valueMultiple)"

fun GetValue_expanded :: "DimensionInfo list \<Rightarrow> int list \<Rightarrow> int \<Rightarrow> nat \<Rightarrow> fault + int" where
  "GetValue_expanded dims [] iValue valueMultiple = Inl OutOfBounds"
| "GetValue_expanded [] (d # ds) iValue valueMultiple = Inl OutOfBounds"
| "GetValue_expanded (pDimension # dims) [d] iValue valueMultiple =
     Inr ((iValue + d * int valueMultiple) mod 2 ^ 64)"
| "GetValue_expanded (pDimension # dims) (d # ds) iValue valueMultiple =
     (if \<not> 1 \<le> cDivisions pDimension then Inl AssertFailed
      else GetValue_expanded dims ds ((iValue + d * int valueMultiple) mod 2 ^ 64)
             (size_t_of (valueMultiple * (cDivisions pDimension + 1))))"

definition GetValue :: "'v SegmentedRegionCore \<Rightarrow> int list \<Rightarrow> fault + int" where
  "GetValue t aDivisionValue =
     (if \<not> 0 < m_cDimensions t then Inl AssertFailed
      else if length aDivisionValue < m_cDimensions t
              \<or> length (m_aDimensions t) < m_cDimensions t then Inl OutOfBounds
      else if m_bExpanded t
      then GetValue_expanded (take (m_cDimensions t) (m_aDimensions t))
             (take (m_cDimensions t) aDivisionValue) 0 (m_cVectorLength t)
      else GetValue_compact (take (m_cDimensions t) (m_aDimensions t))
             (take (m_cDimensions t) aDivisionValue) 0 (m_cVectorLength t))"

subsection \<open>Expand\<close>

record DimensionInfoStackExpand =
  pDivision1_e :: int
  iDivision2_e :: int
  cNewDivisions_e :: int

text \<open>
  A difference of two sizes as a \<open>size_t\<close> (an integer from \<open>0\<close> to \<open>2 ^ 64 - 1\<close>), and
  such a \<open>size_t\<close> read as a \<open>ptrdiff_t\<close>.
\<close>

definition size_sub :: "nat \<Rightarrow> nat \<Rightarrow> int" where
  "size_sub a b = (int a - int b) mod 2 ^ 64"

definition to_ptrdiff :: "int \<Rightarrow> int" where
  "to_ptrdiff n = (if n mod 2 ^ 64 < 2 ^ 63 then n mod 2 ^ 64 else n mod 2 ^ 64 - 2 ^ 64)"

definition expand_stack_entry :: "DimensionInfo \<Rightarrow> nat \<Rightarrow> DimensionInfoStackExpand" where
  "expand_stack_entry pDimensionFirst1 cDivisionsPlusOne =
     (let maxDivision = size_sub cDivisionsPlusOne 2
      in \<lparr>pDivision1_e = int (cDivisions pDimensionFirst1) - 1,
          iDivision2_e = to_ptrdiff maxDivision,
          cNewDivisions_e = maxDivision\<rparr>)"

text \<open>
  The inner \<open>do ... while\<close> that copies one cell of \<open>m_cVectorLength\<close> values downwards,
  by the number of values left; \<open>src\<close> is \<open>pValue1Move\<close> and \<open>dst\<close> is \<open>pValueTop\<close>, as
  indices into \<open>m_aValues\<close>.
\<close>

fun expand_copy :: "nat \<Rightarrow> 'v list \<Rightarrow> int \<Rightarrow> int \<Rightarrow> fault + 'v list" where
  "expand_copy 0 a src dst = Inr a"
| "expand_copy (Suc k) a src dst =
     (if 0 \<le> src \<and> nat src < length a \<and> 0 \<le> dst \<and> nat dst < length a
      then expand_copy k (a[nat dst := a ! nat src]) (src - 1) (dst - 1)
      else Inl OutOfBounds)"

text \<open>
  The inner \<open>while(true)\<close> that moves the per-dimension stack one cell back. The two
  pointers \<open>pDimensionInfoStackSecond\<close> and \<open>pDimensionSecond1\<close> walk their arrays
  together: the lists are what is left of the arrays. \<open>pDivision1\<close> is kept as an index
  into the cut array of its dimension (\<open>- 1\<close> when it stands before the first cut).
\<close>

fun expand_step ::
  "DimensionInfo list \<Rightarrow> DimensionInfoStackExpand list \<Rightarrow> int \<Rightarrow> nat
     \<Rightarrow> fault + DimensionInfoStackExpand list \<times> int" where
  "expand_step [] st pValue1 multiplication1 = Inl OutOfBounds"
| "expand_step (pDimensionSecond1 # dims) [] pValue1 multiplication1 = Inl OutOfBounds"
| "expand_step (pDimensionSecond1 # dims) (s # st) pValue1 multiplication1 =
     (if 0 \<le> pDivision1_e s
      then
        (if \<not> 0 \<le> iDivision2_e s then Inl AssertFailed
         else if \<not> nat (pDivision1_e s) < length (aDivisions pDimensionSecond1) then Inl OutOfBounds
         else
           let d1 = aDivisions pDimensionSecond1 ! nat (pDivision1_e s);
               change1 = (if iDivision2_e s \<le> d1 then 1 else 0)
           in Inr (s\<lparr>pDivision1_e := pDivision1_e s - change1,
                     iDivision2_e := iDivision2_e s - 1\<rparr> # st,
                   pValue1 - change1 * int multiplication1))
      else if 0 \<le> iDivision2_e s
      then Inr (s\<lparr>iDivision2_e := iDivision2_e s - 1\<rparr> # st, pValue1)
      else
        let cDivisions1 = cDivisions pDimensionSecond1;
            multiplication1' = size_t_of (multiplication1 * (1 + cDivisions1))
        in case expand_step dims st (pValue1 - int multiplication1 + int multiplication1')
                  multiplication1' of
             Inl e \<Rightarrow> Inl e
           | Inr (st', pValue1') \<Rightarrow>
               Inr (s\<lparr>pDivision1_e := int cDivisions1 - 1,
                      iDivision2_e := to_ptrdiff (cNewDivisions_e s)\<rparr> # st', pValue1'))"

text \<open>The outer \<open>while(true)\<close> of Expand; it returns the values and the final \<open>pValue1\<close>.\<close>

function expand_loop ::
  "nat \<Rightarrow> DimensionInfo list \<Rightarrow> DimensionInfoStackExpand list \<Rightarrow> 'v list \<Rightarrow> int \<Rightarrow> int
     \<Rightarrow> fault + 'v list \<times> int" where
  "expand_loop cVectorLength dims st a pValue1 pValueTop =
     (if cVectorLength = 0 then Inl AssertFailed
      else if pValueTop < 0 then Inl OutOfBounds
      else
        case expand_copy cVectorLength a pValue1 pValueTop of
          Inl e \<Rightarrow> Inl e
        | Inr a' \<Rightarrow>
            if pValueTop - int cVectorLength = - 1 then Inr (a', pValue1)
            else
              (case expand_step dims st pValue1 cVectorLength of
                 Inl e \<Rightarrow> Inl e
               | Inr (st', pValue1') \<Rightarrow>
                   expand_loop cVectorLength dims st' a' pValue1'
                     (pValueTop - int cVectorLength)))"
  by pat_completeness auto
termination
  by (relation "measure (\<lambda>(cVectorLength, dims, st, a, pValue1, pValueTop). nat (pValueTop + 1))")
     auto

declare expand_loop.simps [simp del]

text \<open>The loop that writes the cuts \<open>0, 1, ...\<close> of one dimension.\<close>

function identity_loop :: "nat \<Rightarrow> nat \<Rightarrow> int list \<Rightarrow> fault + int list" where
  "identity_loop cDivisions' iDivision a =
     (if iDivision < cDivisions'
      then (if iDivision < length a
            then identity_loop cDivisions' (Suc iDivision) (a[iDivision := int iDivision])
            else Inl OutOfBounds)
      else Inr a)"
  by pat_completeness auto
termination
  by (relation "measure (\<lambda>(cDivisions', iDivision, a). cDivisions' - iDivision)") auto

declare identity_loop.simps [simp del]

text \<open>
  The last loop of Expand over the dimensions, by the number \<open>k\<close> of dimensions left
  (\<open>iDimension = cDimensions - k\<close>).
\<close>

fun expand_cuts ::
  "(nat \<Rightarrow> bool) \<Rightarrow> int \<Rightarrow> nat list \<Rightarrow> nat \<Rightarrow> nat \<Rightarrow> 'v SegmentedRegionCore \<Rightarrow> 'v outcome" where
  "expand_cuts ok junk acDivisionsPlusOne cDimensions 0 t = Inr (False, t)"
| "expand_cuts ok junk acDivisionsPlusOne cDimensions (Suc k) t =
     (let iDimension = cDimensions - Suc k in
      if \<not> (iDimension < length acDivisionsPlusOne \<and> iDimension < length (m_aDimensions t))
      then Inl OutOfBounds
      else
        let cDivisions' = nat (size_sub (acDivisionsPlusOne ! iDimension) 1) in
        if cDivisions' = cDivisions (m_aDimensions t ! iDimension)
        then expand_cuts ok junk acDivisionsPlusOne cDimensions k t
        else
          (case SetCountDivisions ok junk iDimension cDivisions' t of
             Inl e \<Rightarrow> Inl e
           | Inr (True, t') \<Rightarrow> Inr (True, t')
           | Inr (False, t') \<Rightarrow>
               (case identity_loop cDivisions' 0 (aDivisions (m_aDimensions t' ! iDimension)) of
                  Inl e \<Rightarrow> Inl e
                | Inr a \<Rightarrow>
                    expand_cuts ok junk acDivisionsPlusOne cDimensions k
                      (t'\<lparr>m_aDimensions := (m_aDimensions t')[iDimension :=
                            (m_aDimensions t' ! iDimension)\<lparr>aDivisions := a\<rparr>]\<rparr>))))"

text \<open>
  Expand. \<open>ok\<close> decides the reallocations, \<open>junkv\<close> and \<open>junkd\<close> fill new value and
  cut cells.
\<close>

definition Expand ::
  "(nat \<Rightarrow> bool) \<Rightarrow> 'v \<Rightarrow> int \<Rightarrow> nat list \<Rightarrow> 'v SegmentedRegionCore \<Rightarrow> 'v outcome" where
  "Expand ok junkv junkd acDivisionsPlusOne t =
     (if m_bExpanded t then Inr (False, t)
      else if \<not> 0 < m_cDimensions t then Inl AssertFailed
      else if length acDivisionsPlusOne < m_cDimensions t
              \<or> length (m_aDimensions t) < m_cDimensions t then Inl OutOfBounds
      else
        let dims = take (m_cDimensions t) (m_aDimensions t);
            ac = take (m_cDimensions t) acDivisionsPlusOne;
            st = map2 expand_stack_entry dims ac;
            cValues1 = size_t_of (prod_list (map (\<lambda>d. cDivisions d + 1) dims));
            cNewValues = size_t_of (prod_list ac)
        in
          case EnsureValueCapacity ok junkv (size_t_of (cNewValues * m_cVectorLength t)) t of
            Inl e \<Rightarrow> Inl e
          | Inr (True, t1) \<Rightarrow> Inr (True, t1)
          | Inr (False, t1) \<Rightarrow>
              (case expand_loop (m_cVectorLength t) dims st (m_aValues t1)
                      (int (size_t_of (m_cVectorLength t * cValues1)) - 1)
                      (int (size_t_of (m_cVectorLength t * cNewValues)) - 1) of
                 Inl e \<Rightarrow> Inl e
               | Inr (a, pValue1) \<Rightarrow>
                   if pValue1 \<noteq> int (m_cVectorLength t) - 1 then Inl AssertFailed
                   else
                     (case expand_cuts ok junkd acDivisionsPlusOne (m_cDimensions t)
                             (m_cDimensions t) (t1\<lparr>m_aValues := a\<rparr>) of
                        Inl e \<Rightarrow> Inl e
                      | Inr (True, t2) \<Rightarrow> Inr (True, t2)
                      | Inr (False, t2) \<Rightarrow> Inr (False, t2\<lparr>m_bExpanded := True\<rparr>))))"

subsection \<open>Example tensors\<close>

text \<open>
  The tensor \<open>A\<close> of Scenarios 4 and 5 (one axis, one cut at 2, values 10 and 20) as
  \<open>Allocate\<close> and two assignments leave it, and the tensor \<open>B\<close> of Scenario 4 (one cut
  at 3, values 1 and 2).
\<close>

definition tensorA :: "int SegmentedRegionCore" where
  "tensorA = \<lparr>m_cVectorLength = 1, m_cDimensions = 1, m_aValues = [10, 20],
               m_bExpanded = False,
               m_aDimensions = [\<lparr>cDivisions = 1, aDivisions = [2]\<rparr>]\<rparr>"

definition tensorB :: "int SegmentedRegionCore" where
  "tensorB = \<lparr>m_cVectorLength = 1, m_cDimensions = 1, m_aValues = [1, 2],
               m_bExpanded = False,
               m_aDimensions = [\<lparr>cDivisions = 1, aDivisions = [3]\<rparr>]\<rparr>"

definition tensorA_expanded :: "int SegmentedRegionCore" where
  "tensorA_expanded = \<lparr>m_cVectorLength = 1, m_cDimensions = 1,
               m_aValues = [10, 10, 10, 20, 20, 0, 0], m_bExpanded = True,
               m_aDimensions = [\<lparr>cDivisions = 4, aDivisions = [0, 1, 2, 3, 0, 0]\<rparr>]\<rparr>"

definition always :: "nat \<Rightarrow> bool" where
  "always n = True"

subsection \<open>Add\<close>

record DimensionInfoStack =
  pDivision1 :: int
  pDivision2 :: int
  cNewDivisions :: nat

text \<open>
  The forward merge scan that counts the cuts of one dimension of the result:
  \<open>xs\<close> is the range from \<open>p1Cur\<close> to \<open>p1End\<close>, \<open>ys\<close> the range from \<open>p2Cur\<close> to
  \<open>p2End\<close>, \<open>n\<close> is \<open>cNewSingleDimensionDivisions\<close>.
\<close>

function add_count :: "int list \<Rightarrow> int list \<Rightarrow> nat \<Rightarrow> nat" where
  "add_count xs ys n =
     (case ys of
        [] \<Rightarrow> n + length xs
      | d2 # ys' \<Rightarrow>
          (case xs of
             [] \<Rightarrow> n + length ys
           | d1 # xs' \<Rightarrow>
               add_count (if d1 \<le> d2 then xs' else xs) (if d2 \<le> d1 then ys' else ys) (n + 1)))"
  by pat_completeness auto
termination
  by (relation "measure (\<lambda>(xs, ys, n). length xs + length ys)") auto

declare add_count.simps [simp del]

definition add_stack_entry :: "DimensionInfo \<Rightarrow> DimensionInfo \<Rightarrow> DimensionInfoStack" where
  "add_stack_entry pDimensionFirst1 pDimensionFirst2 =
     \<lparr>pDivision1 = int (cDivisions pDimensionFirst1) - 1,
      pDivision2 = int (cDivisions pDimensionFirst2) - 1,
      cNewDivisions =
        add_count (take (cDivisions pDimensionFirst1) (aDivisions pDimensionFirst1))
                  (take (cDivisions pDimensionFirst2) (aDivisions pDimensionFirst2)) 0\<rparr>"

text \<open>
  The inner \<open>do ... while\<close> that adds one cell of \<open>m_cVectorLength\<close> values of the two
  operands into the result; \<open>a\<close> is \<open>m_aValues\<close> of the object (read at \<open>src1\<close>, written
  at \<open>dst\<close>), \<open>b\<close> is \<open>rhs.m_aValues\<close> (read at \<open>src2\<close>).
\<close>

fun add_copy :: "nat \<Rightarrow> 'v::plus list \<Rightarrow> 'v list \<Rightarrow> int \<Rightarrow> int \<Rightarrow> int \<Rightarrow> fault + 'v list" where
  "add_copy 0 a b src1 src2 dst = Inr a"
| "add_copy (Suc k) a b src1 src2 dst =
     (if 0 \<le> src1 \<and> nat src1 < length a \<and> 0 \<le> src2 \<and> nat src2 < length b
         \<and> 0 \<le> dst \<and> nat dst < length a
      then add_copy k (a[nat dst := a ! nat src1 + b ! nat src2]) b (src1 - 1) (src2 - 1) (dst - 1)
      else Inl OutOfBounds)"

text \<open>
  The inner \<open>while(true)\<close> of Add that moves the stack one cell back; the three
  pointers walk the stack and the two arrays of dimensions together.
\<close>

fun add_step ::
  "DimensionInfo list \<Rightarrow> DimensionInfo list \<Rightarrow> DimensionInfoStack list \<Rightarrow> int \<Rightarrow> int
     \<Rightarrow> nat \<Rightarrow> nat \<Rightarrow> fault + DimensionInfoStack list \<times> int \<times> int" where
  "add_step (pDimensionSecond1 # dims1) (pDimensionSecond2 # dims2) (s # st)
      pValue1 pValue2 multiplication1 multiplication2 =
     (if 0 \<le> pDivision1 s
      then
        (if 0 \<le> pDivision2 s
         then
           (if \<not> (nat (pDivision1 s) < length (aDivisions pDimensionSecond1)
                  \<and> nat (pDivision2 s) < length (aDivisions pDimensionSecond2))
            then Inl OutOfBounds
            else
              let d1 = aDivisions pDimensionSecond1 ! nat (pDivision1 s);
                  d2 = aDivisions pDimensionSecond2 ! nat (pDivision2 s);
                  change1 = (if d2 \<le> d1 then 1 else 0);
                  change2 = (if d1 \<le> d2 then 1 else 0)
              in Inr (s\<lparr>pDivision1 := pDivision1 s - change1,
                        pDivision2 := pDivision2 s - change2\<rparr> # st,
                      pValue1 - change1 * int multiplication1,
                      pValue2 - change2 * int multiplication2))
         else Inr (s\<lparr>pDivision1 := pDivision1 s - 1\<rparr> # st,
                   pValue1 - int multiplication1, pValue2))
      else
        (if 0 \<le> pDivision2 s
         then Inr (s\<lparr>pDivision2 := pDivision2 s - 1\<rparr> # st,
                   pValue1, pValue2 - int multiplication2)
         else
           let cDivisions1 = cDivisions pDimensionSecond1;
               cDivisions2 = cDivisions pDimensionSecond2;
               multiplication1' = size_t_of (multiplication1 * (1 + cDivisions1));
               multiplication2' = size_t_of (multiplication2 * (1 + cDivisions2))
           in case add_step dims1 dims2 st
                     (pValue1 - int multiplication1 + int multiplication1')
                     (pValue2 - int multiplication2 + int multiplication2')
                     multiplication1' multiplication2' of
                Inl e \<Rightarrow> Inl e
              | Inr (st', pValue1', pValue2') \<Rightarrow>
                  Inr (s\<lparr>pDivision1 := int cDivisions1 - 1,
                         pDivision2 := int cDivisions2 - 1\<rparr> # st', pValue1', pValue2')))"
| "add_step dims1 dims2 st pValue1 pValue2 multiplication1 multiplication2 = Inl OutOfBounds"

text \<open>The outer \<open>while(true)\<close> of Add; it returns the values and the two final read positions.\<close>

function add_loop ::
  "nat \<Rightarrow> DimensionInfo list \<Rightarrow> DimensionInfo list \<Rightarrow> DimensionInfoStack list
     \<Rightarrow> 'v::plus list \<Rightarrow> 'v list \<Rightarrow> int \<Rightarrow> int \<Rightarrow> int \<Rightarrow> fault + 'v list \<times> int \<times> int" where
  "add_loop cVectorLength dims1 dims2 st a b pValue1 pValue2 pValueTop =
     (if cVectorLength = 0 then Inl AssertFailed
      else if pValueTop < 0 then Inl OutOfBounds
      else
        case add_copy cVectorLength a b pValue1 pValue2 pValueTop of
          Inl e \<Rightarrow> Inl e
        | Inr a' \<Rightarrow>
            if pValueTop - int cVectorLength = - 1 then Inr (a', pValue1, pValue2)
            else
              (case add_step dims1 dims2 st pValue1 pValue2 cVectorLength cVectorLength of
                 Inl e \<Rightarrow> Inl e
               | Inr (st', pValue1', pValue2') \<Rightarrow>
                   add_loop cVectorLength dims1 dims2 st' a' b pValue1' pValue2'
                     (pValueTop - int cVectorLength)))"
  by pat_completeness auto
termination
  by (relation "measure (\<lambda>(cVectorLength, dims1, dims2, st, a, b, pValue1, pValue2, pValueTop).
        nat (pValueTop + 1))") auto

declare add_loop.simps [simp del]

text \<open>
  The backward merge of the cuts of one dimension, in place in the cut array \<open>a1\<close> of
  the object; \<open>a2\<close> is the cut array of \<open>rhs\<close>. The three pointers are indices;
  \<open>pTopCur + diffDivisions == p2Cur\<close> compares the indices of \<open>pTopCur\<close> and \<open>p2Cur\<close>.
\<close>

function add_cuts :: "int list \<Rightarrow> int list \<Rightarrow> int \<Rightarrow> int \<Rightarrow> int \<Rightarrow> fault + int list" where
  "add_cuts a1 a2 p1Cur p2Cur pTopCur =
     (if \<not> (- 1 \<le> pTopCur \<and> - 1 \<le> p1Cur \<and> - 1 \<le> p2Cur \<and> p1Cur \<le> pTopCur \<and> p2Cur \<le> pTopCur)
      then Inl AssertFailed
      else if pTopCur = p1Cur then Inr a1
      else if pTopCur = p2Cur
      then
        (if nat (pTopCur + 1) \<le> length a1 \<and> nat (pTopCur + 1) \<le> length a2
         then Inr (take (nat (pTopCur + 1)) a2 @ drop (nat (pTopCur + 1)) a1)
         else Inl OutOfBounds)
      else if \<not> (0 \<le> p1Cur \<and> nat p1Cur < length a1 \<and> 0 \<le> p2Cur \<and> nat p2Cur < length a2
                 \<and> nat pTopCur < length a1)
      then Inl OutOfBounds
      else
        let d1 = a1 ! nat p1Cur;
            d2 = a2 ! nat p2Cur;
            p1Cur' = (if d2 \<le> d1 then p1Cur - 1 else p1Cur);
            p2Cur' = (if d1 \<le> d2 then p2Cur - 1 else p2Cur);
            d = (if d1 \<le> d2 then d2 else d1)
        in add_cuts (a1[nat pTopCur := d]) a2 p1Cur' p2Cur' (pTopCur - 1))"
  by pat_completeness auto
termination
  by (relation "measure (\<lambda>(a1, a2, p1Cur, p2Cur, pTopCur). nat (pTopCur + 1))") auto

declare add_cuts.simps [simp del]

text \<open>
  The last loop of Add over the dimensions, by the number \<open>k\<close> of dimensions left;
  \<open>st\<close> and \<open>dims2\<close> are what is left of the stack and of the dimensions of \<open>rhs\<close>.
\<close>

fun add_divisions ::
  "(nat \<Rightarrow> bool) \<Rightarrow> int \<Rightarrow> nat \<Rightarrow> nat \<Rightarrow> DimensionInfoStack list \<Rightarrow> DimensionInfo list
     \<Rightarrow> 'v SegmentedRegionCore \<Rightarrow> 'v outcome" where
  "add_divisions ok junk cDimensions 0 st dims2 t = Inr (False, t)"
| "add_divisions ok junk cDimensions (Suc k) (pDimensionInfoStackCur # st) (pDimension2Cur # dims2) t =
     (let iDimension = cDimensions - Suc k in
      if \<not> iDimension < length (m_aDimensions t) then Inl OutOfBounds
      else
        let cNewDivisions' = cNewDivisions pDimensionInfoStackCur;
            cOriginalDivisionsBeforeSetting = cDivisions (m_aDimensions t ! iDimension)
        in case SetCountDivisions ok junk iDimension cNewDivisions' t of
             Inl e \<Rightarrow> Inl e
           | Inr (True, t') \<Rightarrow> Inr (True, t')
           | Inr (False, t') \<Rightarrow>
               (case add_cuts (aDivisions (m_aDimensions t' ! iDimension))
                       (aDivisions pDimension2Cur)
                       (int cOriginalDivisionsBeforeSetting - 1)
                       (int (cDivisions pDimension2Cur) - 1)
                       (int cNewDivisions' - 1) of
                  Inl e \<Rightarrow> Inl e
                | Inr a \<Rightarrow>
                    add_divisions ok junk cDimensions k st dims2
                      (t'\<lparr>m_aDimensions := (m_aDimensions t')[iDimension :=
                            (m_aDimensions t' ! iDimension)\<lparr>aDivisions := a\<rparr>]\<rparr>)))"
| "add_divisions ok junk cDimensions (Suc k) st dims2 t = Inl OutOfBounds"

text \<open>Add of \<open>rhs\<close> into the object \<open>t\<close>.\<close>

definition Add ::
  "(nat \<Rightarrow> bool) \<Rightarrow> 'v::plus \<Rightarrow> int \<Rightarrow> 'v SegmentedRegionCore \<Rightarrow> 'v SegmentedRegionCore
     \<Rightarrow> 'v outcome" where
  "Add ok junkv junkd rhs t =
     (if m_cDimensions t \<noteq> m_cDimensions rhs \<or> \<not> 0 < m_cDimensions t then Inl AssertFailed
      else if length (m_aDimensions t) < m_cDimensions t
              \<or> length (m_aDimensions rhs) < m_cDimensions t then Inl OutOfBounds
      else
        let dims1 = take (m_cDimensions t) (m_aDimensions t);
            dims2 = take (m_cDimensions t) (m_aDimensions rhs);
            st = map2 add_stack_entry dims1 dims2;
            cValues1 = size_t_of (prod_list (map (\<lambda>d. cDivisions d + 1) dims1));
            cValues2 = size_t_of (prod_list (map (\<lambda>d. cDivisions d + 1) dims2));
            cNewValues = size_t_of (prod_list (map (\<lambda>s. cNewDivisions s + 1) st))
        in
          case EnsureValueCapacity ok junkv (size_t_of (cNewValues * m_cVectorLength t)) t of
            Inl e \<Rightarrow> Inl e
          | Inr (True, t1) \<Rightarrow> Inr (True, t1)
          | Inr (False, t1) \<Rightarrow>
              (case add_loop (m_cVectorLength t) dims1 dims2 st (m_aValues t1) (m_aValues rhs)
                      (int (size_t_of (m_cVectorLength t * cValues1)) - 1)
                      (int (size_t_of (m_cVectorLength t * cValues2)) - 1)
                      (int (size_t_of (m_cVectorLength t * cNewValues)) - 1) of
                 Inl e \<Rightarrow> Inl e
               | Inr (a, pValue1, pValue2) \<Rightarrow>
                   if pValue1 \<noteq> int (m_cVectorLength t) - 1
                      \<or> pValue2 \<noteq> int (m_cVectorLength t) - 1 then Inl AssertFailed
                   else add_divisions ok junkd (m_cDimensions t) (m_cDimensions t) st dims2
                          (t1\<lparr>m_aValues := a\<rparr>)))"

section \<open>Reading a tensor as a function on the grid\<close>

text \<open>
  The cuts of one dimension in use, and the region of a bin \<open>x\<close> among them: a cut
  \<open>c\<close> separates the bins up to \<open>c\<close> from the bins above \<open>c\<close>, which is how GetValue
  searches and how Expand and Add walk. \<open>region_of\<close> is the number of cuts below \<open>x\<close>.
\<close>

definition cuts_of :: "DimensionInfo \<Rightarrow> int list" where
  "cuts_of d = take (cDivisions d) (aDivisions d)"

definition region_of :: "int list \<Rightarrow> int \<Rightarrow> nat" where
  "region_of cuts x = length (filter (\<lambda>c. c < x) cuts)"

text \<open>
  Mixed-radix numbers, the first digit the fastest: \<open>mixed_radix rs xs\<close> is the sum of
  \<open>xs ! d\<close> times the product of \<open>rs ! d'\<close> over \<open>d' < d\<close>.
\<close>

fun mixed_radix :: "nat list \<Rightarrow> nat list \<Rightarrow> nat" where
  "mixed_radix (r # rs) (x # xs) = x + r * mixed_radix rs xs"
| "mixed_radix rs xs = 0"

text \<open>A point of the grid with \<open>rs ! d\<close> bins on axis \<open>d\<close>.\<close>

definition grid_point :: "nat list \<Rightarrow> nat list \<Rightarrow> bool" where
  "grid_point rs p = list_all2 (\<lambda>x r. x < r) p rs"

text \<open>
  The cell of a compact tensor that holds the values of the bin tuple \<open>p\<close>, counted in
  cells of \<open>m_cVectorLength\<close> values.
\<close>

definition cell_of :: "DimensionInfo list \<Rightarrow> nat list \<Rightarrow> nat" where
  "cell_of dims p =
     mixed_radix (map (\<lambda>d. cDivisions d + 1) dims)
       (map2 (\<lambda>d x. region_of (cuts_of d) (int x)) dims p)"

text \<open>
  A dimension is well formed for \<open>r\<close> bins when its cuts are in use within the array,
  strictly ascending, and lie between bin \<open>0\<close> and bin \<open>r - 2\<close>.
\<close>

definition axis_ok :: "DimensionInfo \<Rightarrow> nat \<Rightarrow> bool" where
  "axis_ok d r =
     (cDivisions d \<le> length (aDivisions d) \<and> sorted_wrt (<) (cuts_of d) \<and>
      list_all (\<lambda>c. 0 \<le> c \<and> c + 2 \<le> int r) (cuts_of d) \<and> 1 \<le> r \<and> r < 2 ^ 63)"

text \<open>The predecessor of a point in the order of the cells.\<close>

fun grid_pred :: "nat list \<Rightarrow> nat list \<Rightarrow> nat list" where
  "grid_pred (r # rs) (x # p) = (if 0 < x then (x - 1) # p else (r - 1) # grid_pred rs p)"
| "grid_pred rs p = []"

text \<open>
  For the proofs: the stack of Expand when the cell of the bin tuple \<open>p\<close> is about to be
  written, one entry per dimension.
\<close>

definition expand_stack_at :: "DimensionInfo \<Rightarrow> nat \<Rightarrow> nat \<Rightarrow> DimensionInfoStackExpand" where
  "expand_stack_at d r x =
     \<lparr>pDivision1_e = int (region_of (cuts_of d) (int x)) - 1,
      iDivision2_e = int x - 1,
      cNewDivisions_e = size_sub r 2\<rparr>"

fun expand_stack_of ::
  "DimensionInfo list \<Rightarrow> nat list \<Rightarrow> nat list \<Rightarrow> DimensionInfoStackExpand list" where
  "expand_stack_of (d # dims) (r # rs) (x # p) = expand_stack_at d r x # expand_stack_of dims rs p"
| "expand_stack_of dims rs p = []"

text \<open>
  A compact tensor is well formed for a grid with \<open>rs ! d\<close> bins on axis \<open>d\<close> when it has
  a dimension and a value per cell, its dimensions in use are well formed for their bin
  counts, and \<open>m_aValues\<close> holds a cell for every tuple of regions.
\<close>

definition tensor_ok :: "'v SegmentedRegionCore \<Rightarrow> nat list \<Rightarrow> bool" where
  "tensor_ok t rs =
     (0 < m_cDimensions t \<and> 0 < m_cVectorLength t \<and>
      m_cDimensions t \<le> length (m_aDimensions t) \<and> length rs = m_cDimensions t \<and>
      list_all2 axis_ok (take (m_cDimensions t) (m_aDimensions t)) rs \<and>
      m_cVectorLength t * prod_list (map (\<lambda>d. cDivisions d + 1)
          (take (m_cDimensions t) (m_aDimensions t))) \<le> length (m_aValues t))"

section \<open>Reading tensors for Add\<close>

text \<open>
  The function a tensor stands for, read through its cuts whether or not the tensor is
  flagged expanded: the value number \<open>k\<close> at the point \<open>x\<close> (one coordinate per
  dimension). For a compact tensor this is the cell GetValue finds.
\<close>

definition cell_at :: "DimensionInfo list \<Rightarrow> int list \<Rightarrow> nat" where
  "cell_at dims x =
     mixed_radix (map (\<lambda>d. cDivisions d + 1) dims)
       (map2 (\<lambda>d c. region_of (cuts_of d) c) dims x)"

definition tensor_at :: "'v SegmentedRegionCore \<Rightarrow> int list \<Rightarrow> nat \<Rightarrow> 'v" where
  "tensor_at t x k =
     m_aValues t ! (m_cVectorLength t * cell_at (take (m_cDimensions t) (m_aDimensions t)) x + k)"

text \<open>The sorted union of two strictly ascending lists of cuts.\<close>

fun merge_cuts :: "int list \<Rightarrow> int list \<Rightarrow> int list" where
  "merge_cuts [] ys = ys"
| "merge_cuts xs [] = xs"
| "merge_cuts (x # xs) (y # ys) =
     (if x < y then x # merge_cuts xs (y # ys)
      else if y < x then y # merge_cuts (x # xs) ys
      else x # merge_cuts xs ys)"

text \<open>
  A tensor that Add can read: its dimensions in use have their cuts within the arrays and
  strictly ascending, and \<open>m_aValues\<close> holds a cell for every tuple of regions.
\<close>

definition cuts_ok :: "DimensionInfo \<Rightarrow> bool" where
  "cuts_ok d = (cDivisions d \<le> length (aDivisions d) \<and> sorted_wrt (<) (cuts_of d))"

definition add_ok :: "'v SegmentedRegionCore \<Rightarrow> bool" where
  "add_ok t =
     (0 < m_cDimensions t \<and> 0 < m_cVectorLength t \<and>
      m_cDimensions t \<le> length (m_aDimensions t) \<and>
      list_all cuts_ok (take (m_cDimensions t) (m_aDimensions t)) \<and>
      m_cVectorLength t * prod_list (map (\<lambda>d. cDivisions d + 1)
          (take (m_cDimensions t) (m_aDimensions t))) \<le> length (m_aValues t))"

text \<open>
  For the proofs: a point of region \<open>r\<close> of the cuts \<open>us\<close> (the bin above cut \<open>r - 1\<close>),
  and the stack of Add when the cell of the region tuple \<open>p\<close> of the result is about to
  be written.
\<close>

definition cut_bound :: "int list \<Rightarrow> nat \<Rightarrow> int" where
  "cut_bound us r = (if r = 0 then (if us = [] then 0 else us ! 0) else us ! (r - 1) + 1)"

definition merged :: "DimensionInfo \<Rightarrow> DimensionInfo \<Rightarrow> int list" where
  "merged d1 d2 = merge_cuts (cuts_of d1) (cuts_of d2)"

definition add_stack_at :: "DimensionInfo \<Rightarrow> DimensionInfo \<Rightarrow> nat \<Rightarrow> DimensionInfoStack" where
  "add_stack_at d1 d2 r =
     \<lparr>pDivision1 = int (region_of (cuts_of d1) (cut_bound (merged d1 d2) r)) - 1,
      pDivision2 = int (region_of (cuts_of d2) (cut_bound (merged d1 d2) r)) - 1,
      cNewDivisions = length (merged d1 d2)\<rparr>"

fun add_stack_of ::
  "DimensionInfo list \<Rightarrow> DimensionInfo list \<Rightarrow> nat list \<Rightarrow> DimensionInfoStack list" where
  "add_stack_of (d1 # dims1) (d2 # dims2) (r # p) =
     add_stack_at d1 d2 r # add_stack_of dims1 dims2 p"
| "add_stack_of dims1 dims2 p = []"

fun add_bounds :: "DimensionInfo list \<Rightarrow> DimensionInfo list \<Rightarrow> nat list \<Rightarrow> int list" where
  "add_bounds (d1 # dims1) (d2 # dims2) (r # p) =
     cut_bound (merged d1 d2) r # add_bounds dims1 dims2 p"
| "add_bounds dims1 dims2 p = []"

definition add_radices :: "DimensionInfo list \<Rightarrow> DimensionInfo list \<Rightarrow> nat list" where
  "add_radices dims1 dims2 = map2 (\<lambda>d1 d2. length (merged d1 d2) + 1) dims1 dims2"

text \<open>
  The tensors of the worked example of Add: \<open>tensorA\<close> plus \<open>tensorB\<close>, an all-zero
  tensor with a cut at 3, and \<open>tensorA\<close> plus that zero tensor.
\<close>

definition tensorA_plus_B :: "int SegmentedRegionCore" where
  "tensorA_plus_B = \<lparr>m_cVectorLength = 1, m_cDimensions = 1, m_aValues = [11, 21, 22, 0],
               m_bExpanded = False,
               m_aDimensions = [\<lparr>cDivisions = 2, aDivisions = [2, 3, 0]\<rparr>]\<rparr>"

definition tensorZero :: "int SegmentedRegionCore" where
  "tensorZero = \<lparr>m_cVectorLength = 1, m_cDimensions = 1, m_aValues = [0, 0],
               m_bExpanded = False,
               m_aDimensions = [\<lparr>cDivisions = 1, aDivisions = [3]\<rparr>]\<rparr>"

definition tensorA_plus_Zero :: "int SegmentedRegionCore" where
  "tensorA_plus_Zero = \<lparr>m_cVectorLength = 1, m_cDimensions = 1, m_aValues = [10, 20, 20, 0],
               m_bExpanded = False,
               m_aDimensions = [\<lparr>cDivisions = 2, aDivisions = [2, 3, 0]\<rparr>]\<rparr>"

section \<open>The bit-packed input store (DataSetByAttributeCombination.cpp)\<close>

record AttributeInternalCore =
  m_cStates :: nat
  m_iAttributeData :: nat

record AttributeCombinationEntry =
  m_pAttribute :: AttributeInternalCore

text \<open>
  Of \<open>AttributeCombinationCore\<close> the three members that ConstructInputData reads; the
  trailing array of entries is a list.
\<close>

record AttributeCombinationCore =
  m_cItemsPerBitPackDataUnit :: nat
  m_cAttributes :: nat
  m_AttributeCombinationEntry :: "AttributeCombinationEntry list"

definition k_cBitsForStorageType :: nat where
  "k_cBitsForStorageType = 64"

definition k_cDimensionsMax :: nat where
  "k_cDimensionsMax = 63"

definition GetCountBits :: "nat \<Rightarrow> nat" where
  "GetCountBits cItemsBitPacked = k_cBitsForStorageType div cItemsBitPacked"

definition IsMultiplyError :: "int \<Rightarrow> int \<Rightarrow> bool" where
  "IsMultiplyError num1 num2 = (0 \<noteq> num1 \<and> (2 ^ 64 - 1 - num1 + 1) div num1 < num2)"

text \<open>
  The local array \<open>dimensionInfo\<close>: \<open>m_pInputData\<close> is the index into \<open>aInputDataFrom\<close>
  that the pointer stands at, \<open>m_cStates_info\<close> is the member \<open>m_cStates\<close> of the struct.
\<close>

record InputDataPointerAndCountStates =
  m_pInputData :: nat
  m_cStates_info :: nat

text \<open>
  The \<open>do ... while\<close> that fills \<open>dimensionInfo\<close>, by the number of entries left to fill.
\<close>

fun dimension_info ::
  "AttributeCombinationEntry list \<Rightarrow> nat \<Rightarrow> nat \<Rightarrow> fault + InputDataPointerAndCountStates list" where
  "dimension_info entries cCases 0 = Inr []"
| "dimension_info [] cCases (Suc n) = Inl OutOfBounds"
| "dimension_info (pAttributeCombinationEntry # entries) cCases (Suc n) =
     (case dimension_info entries cCases n of
        Inl e \<Rightarrow> Inl e
      | Inr ds \<Rightarrow>
          Inr (\<lparr>m_pInputData =
                  m_iAttributeData (m_pAttribute pAttributeCombinationEntry) * cCases,
                m_cStates_info = m_cStates (m_pAttribute pAttributeCombinationEntry)\<rparr> # ds))"

text \<open>
  The innermost \<open>do ... while\<close>: the tensor index of one case, in \<open>size_t\<close> arithmetic. Every
  dimension reads the value its pointer stands at and moves the pointer to the next case.
\<close>

fun tensor_index ::
  "int list \<Rightarrow> InputDataPointerAndCountStates list \<Rightarrow> 64 word \<Rightarrow> 64 word
     \<Rightarrow> fault + 64 word \<times> InputDataPointerAndCountStates list" where
  "tensor_index aInputDataFrom [] tensorMultiple tensorIndex = Inr (tensorIndex, [])"
| "tensor_index aInputDataFrom (pDimensionInfo # dims) tensorMultiple tensorIndex =
     (if \<not> m_pInputData pDimensionInfo < length aInputDataFrom then Inl OutOfBounds
      else
        let inputData = aInputDataFrom ! m_pInputData pDimensionInfo in
        if \<not> (0 \<le> inputData \<and> nat inputData < m_cStates_info pDimensionInfo)
        then Inl AssertFailed
        else
          case tensor_index aInputDataFrom dims
                 (tensorMultiple * word_of_nat (m_cStates_info pDimensionInfo))
                 (tensorIndex + tensorMultiple * word_of_int inputData) of
            Inl e \<Rightarrow> Inl e
          | Inr (r, dims') \<Rightarrow>
              Inr (r, pDimensionInfo\<lparr>m_pInputData := m_pInputData pDimensionInfo + 1\<rparr> # dims'))"

text \<open>
  The \<open>do ... while(shiftEnd != shift)\<close> that packs the items of one word. The loop has no
  bound of its own, so it is a partial function: \<open>None\<close> is a loop that does not end.
\<close>

partial_function (option) pack_items ::
  "int list \<Rightarrow> nat \<Rightarrow> nat \<Rightarrow> InputDataPointerAndCountStates list \<Rightarrow> 64 word \<Rightarrow> nat
     \<Rightarrow> (fault + 64 word \<times> InputDataPointerAndCountStates list) option" where
  "pack_items aInputDataFrom cBitsPerItemMax shiftEnd dims bits shift =
     (case tensor_index aInputDataFrom dims 1 0 of
        Inl e \<Rightarrow> Some (Inl e)
      | Inr (tensorIndex, dims') \<Rightarrow>
          if 64 \<le> shift then Some (Inl Undefined)
          else
            let bits' = bits OR push_bit shift tensorIndex;
                shift' = shift + cBitsPerItemMax
            in if shiftEnd \<noteq> shift'
               then pack_items aInputDataFrom cBitsPerItemMax shiftEnd dims' bits' shift'
               else Some (Inr (bits', dims')))"

declare pack_items.simps [code]

text \<open>
  The \<open>while(pInputDataTo < pInputDataToLast)\<close> with its re-entry at \<open>one_last_loop\<close>, by
  the number of words before the last one: these are packed up to \<open>shiftEndFull\<close>, the last
  word up to \<open>shiftEndLast\<close>.
\<close>

fun pack_words ::
  "int list \<Rightarrow> nat \<Rightarrow> nat \<Rightarrow> nat \<Rightarrow> nat \<Rightarrow> InputDataPointerAndCountStates list
     \<Rightarrow> (fault + 64 word list) option" where
  "pack_words aInputDataFrom cBitsPerItemMax shiftEndFull shiftEndLast 0 dims =
     (case pack_items aInputDataFrom cBitsPerItemMax shiftEndLast dims 0 0 of
        None \<Rightarrow> None
      | Some (Inl e) \<Rightarrow> Some (Inl e)
      | Some (Inr (bits, dims')) \<Rightarrow> Some (Inr [bits]))"
| "pack_words aInputDataFrom cBitsPerItemMax shiftEndFull shiftEndLast (Suc n) dims =
     (case pack_items aInputDataFrom cBitsPerItemMax shiftEndFull dims 0 0 of
        None \<Rightarrow> None
      | Some (Inl e) \<Rightarrow> Some (Inl e)
      | Some (Inr (bits, dims')) \<Rightarrow>
          (case pack_words aInputDataFrom cBitsPerItemMax shiftEndFull shiftEndLast n dims' of
             None \<Rightarrow> None
           | Some (Inl e) \<Rightarrow> Some (Inl e)
           | Some (Inr ws) \<Rightarrow> Some (Inr (bits # ws))))"

text \<open>
  The body of the outer \<open>do ... while\<close> for one attribute combination. The result
  \<open>Some (Inr None)\<close> is the jump to \<open>free_all\<close>; \<open>malloc_ok\<close> tells which allocations
  succeed, by their size in bytes.
\<close>

definition construct_one ::
  "(int \<Rightarrow> bool) \<Rightarrow> AttributeCombinationCore \<Rightarrow> nat \<Rightarrow> int list
     \<Rightarrow> (fault + 64 word list option) option" where
  "construct_one malloc_ok pAttributeCombination cCases aInputDataFrom =
     (let cItemsPerBitPackDataUnit = m_cItemsPerBitPackDataUnit pAttributeCombination in
      if cItemsPerBitPackDataUnit = 0 then Some (Inl Undefined)
      else
        let cBitsPerItemMax = GetCountBits cItemsPerBitPackDataUnit;
            cDataUnits = (cCases - 1) div cItemsPerBitPackDataUnit + 1
        in
          if IsMultiplyError 8 (int cDataUnits) then Some (Inr None)
          else if \<not> malloc_ok (8 * int cDataUnits) then Some (Inr None)
          else if m_cAttributes pAttributeCombination = 0
                  \<or> k_cDimensionsMax < m_cAttributes pAttributeCombination
          then Some (Inl OutOfBounds)
          else
            case dimension_info (m_AttributeCombinationEntry pAttributeCombination) cCases
                   (m_cAttributes pAttributeCombination) of
              Inl e \<Rightarrow> Some (Inl e)
            | Inr dims \<Rightarrow>
                (case pack_words aInputDataFrom cBitsPerItemMax
                        (cBitsPerItemMax * cItemsPerBitPackDataUnit)
                        (cBitsPerItemMax * ((cCases - 1) mod cItemsPerBitPackDataUnit + 1))
                        (cDataUnits - 1) dims of
                   None \<Rightarrow> None
                 | Some (Inl e) \<Rightarrow> Some (Inl e)
                 | Some (Inr ws) \<Rightarrow> Some (Inr (Some ws))))"

text \<open>The outer \<open>do ... while\<close> over the attribute combinations.\<close>

fun construct_all ::
  "(int \<Rightarrow> bool) \<Rightarrow> AttributeCombinationCore list \<Rightarrow> nat \<Rightarrow> int list
     \<Rightarrow> (fault + 64 word list list option) option" where
  "construct_all malloc_ok [] cCases aInputDataFrom = Some (Inr (Some []))"
| "construct_all malloc_ok (pAttributeCombination # cs) cCases aInputDataFrom =
     (case construct_one malloc_ok pAttributeCombination cCases aInputDataFrom of
        None \<Rightarrow> None
      | Some (Inl e) \<Rightarrow> Some (Inl e)
      | Some (Inr None) \<Rightarrow> Some (Inr None)
      | Some (Inr (Some ws)) \<Rightarrow>
          (case construct_all malloc_ok cs cCases aInputDataFrom of
             None \<Rightarrow> None
           | Some (Inl e) \<Rightarrow> Some (Inl e)
           | Some (Inr None) \<Rightarrow> Some (Inr None)
           | Some (Inr (Some wss)) \<Rightarrow> Some (Inr (Some (ws # wss)))))"

text \<open>
  ConstructInputData: \<open>Some (Inr (Some blocks))\<close> is the array of the packed blocks, one
  per attribute combination, \<open>Some (Inr None)\<close> is the null pointer.
\<close>

definition ConstructInputData ::
  "(int \<Rightarrow> bool) \<Rightarrow> nat \<Rightarrow> AttributeCombinationCore list \<Rightarrow> nat \<Rightarrow> int list
     \<Rightarrow> (fault + 64 word list list option) option" where
  "ConstructInputData malloc_ok cAttributeCombinations apAttributeCombination cCases
      aInputDataFrom =
     (if \<not> (0 < cAttributeCombinations \<and> 0 < cCases) then Some (Inl AssertFailed)
      else if \<not> malloc_ok ((8 * int cAttributeCombinations) mod 2 ^ 64) then Some (Inr None)
      else if length apAttributeCombination < cAttributeCombinations then Some (Inl OutOfBounds)
      else construct_all malloc_ok (take cAttributeCombinations apAttributeCombination) cCases
             aInputDataFrom)"

text \<open>
  For the proofs: the tuple of bin indices of case \<open>i\<close> for the attributes of a
  combination, and its place in the tensor of the combination.
\<close>

definition case_tuple :: "AttributeCombinationCore \<Rightarrow> nat \<Rightarrow> int list \<Rightarrow> nat \<Rightarrow> nat list" where
  "case_tuple c cCases aInputDataFrom i =
     map (\<lambda>e. nat (aInputDataFrom ! (m_iAttributeData (m_pAttribute e) * cCases + i)))
       (take (m_cAttributes c) (m_AttributeCombinationEntry c))"

definition case_states :: "AttributeCombinationCore \<Rightarrow> nat list" where
  "case_states c =
     map (\<lambda>e. m_cStates (m_pAttribute e)) (take (m_cAttributes c) (m_AttributeCombinationEntry c))"

definition dims_at ::
  "AttributeCombinationCore \<Rightarrow> nat \<Rightarrow> nat \<Rightarrow> InputDataPointerAndCountStates list" where
  "dims_at c cCases i =
     map (\<lambda>e. \<lparr>m_pInputData = m_iAttributeData (m_pAttribute e) * cCases + i,
                m_cStates_info = m_cStates (m_pAttribute e)\<rparr>)
       (take (m_cAttributes c) (m_AttributeCombinationEntry c))"

text \<open>
  A word that holds \<open>n\<close> items of \<open>b\<close> bits each, item \<open>m\<close> being \<open>T m\<close>, the first item
  in the lowest bits.
\<close>

fun pack_spec :: "nat \<Rightarrow> (nat \<Rightarrow> 64 word) \<Rightarrow> nat \<Rightarrow> 64 word" where
  "pack_spec b T 0 = 0"
| "pack_spec b T (Suc n) = pack_spec b T n OR push_bit (b * n) (T n)"

text \<open>
  An attribute combination that ConstructInputData can pack for \<open>cCases\<close> cases of the
  matrix \<open>aInputDataFrom\<close>: between 1 and 64 items per word, between 1 and 63 attributes,
  a tensor whose number of cells fits into the bits of an item, and for every case a bin
  index of every attribute that lies within the matrix and below the number of states.
\<close>

definition combination_ok :: "AttributeCombinationCore \<Rightarrow> nat \<Rightarrow> int list \<Rightarrow> bool" where
  "combination_ok c cCases aInputDataFrom =
     (1 \<le> m_cItemsPerBitPackDataUnit c \<and> m_cItemsPerBitPackDataUnit c \<le> 64 \<and>
      1 \<le> m_cAttributes c \<and> m_cAttributes c \<le> 63 \<and>
      m_cAttributes c \<le> length (m_AttributeCombinationEntry c) \<and>
      prod_list (case_states c) \<le> 2 ^ GetCountBits (m_cItemsPerBitPackDataUnit c) \<and>
      list_all (\<lambda>i. list_all (\<lambda>e.
          m_iAttributeData (m_pAttribute e) * cCases + i < length aInputDataFrom \<and>
          0 \<le> aInputDataFrom ! (m_iAttributeData (m_pAttribute e) * cCases + i) \<and>
          nat (aInputDataFrom ! (m_iAttributeData (m_pAttribute e) * cCases + i))
            < m_cStates (m_pAttribute e))
        (take (m_cAttributes c) (m_AttributeCombinationEntry c))) [0..<cCases])"

text \<open>
  For the proofs: the tensor index of case \<open>i\<close> as a word, and the block of words that
  holds the cases of a combination, every word with its number of items.
\<close>

definition case_word :: "AttributeCombinationCore \<Rightarrow> nat \<Rightarrow> int list \<Rightarrow> nat \<Rightarrow> 64 word" where
  "case_word c cCases aInputDataFrom i =
     word_of_nat (mixed_radix (case_states c) (case_tuple c cCases aInputDataFrom i))"

definition packed_block :: "AttributeCombinationCore \<Rightarrow> nat \<Rightarrow> int list \<Rightarrow> 64 word list" where
  "packed_block c cCases aInputDataFrom =
     map (\<lambda>q. pack_spec (GetCountBits (m_cItemsPerBitPackDataUnit c))
               (\<lambda>m. case_word c cCases aInputDataFrom (q * m_cItemsPerBitPackDataUnit c + m))
               (if q < (cCases - 1) div m_cItemsPerBitPackDataUnit c
                then m_cItemsPerBitPackDataUnit c
                else (cCases - 1) mod m_cItemsPerBitPackDataUnit c + 1))
       [0..<(cCases - 1) div m_cItemsPerBitPackDataUnit c + 1]"

text \<open>
  An example: two attributes with 2 and 3 states, two items of 32 bits per word, and
  three cases with the bin indices (1, 2), (0, 1) and (1, 0).
\<close>

definition demo_combination :: AttributeCombinationCore where
  "demo_combination =
     \<lparr>m_cItemsPerBitPackDataUnit = 2, m_cAttributes = 2,
      m_AttributeCombinationEntry =
        [\<lparr>m_pAttribute = \<lparr>m_cStates = 2, m_iAttributeData = 0\<rparr>\<rparr>,
         \<lparr>m_pAttribute = \<lparr>m_cStates = 3, m_iAttributeData = 1\<rparr>\<rparr>]\<rparr>"

definition demo_input :: "int list" where
  "demo_input = [1, 0, 1, 2, 1, 0]"

definition malloc_always :: "int \<Rightarrow> bool" where
  "malloc_always cBytes = True"

text \<open>
  The number of bits of the largest value \<open>cBitsMax\<close>, and the number of items of
  \<open>cBits\<close> bits in one storage word (EbmInternal.h).
\<close>

fun CountBitsRequiredCore :: "nat \<Rightarrow> nat" where
  "CountBitsRequiredCore cBitsMax =
     (if 0 = cBitsMax then 0 else 1 + CountBitsRequiredCore (cBitsMax div 2))"

declare CountBitsRequiredCore.simps [simp del]

definition GetCountItemsBitPacked :: "nat \<Rightarrow> nat" where
  "GetCountItemsBitPacked cBits = k_cBitsForStorageType div cBits"

text \<open>
  Modelled from the spec: the number of bits of an item and the derived count of items
  per word of a combination whose tensor has \<open>cTensorStates\<close> cells (the code that sets
  \<open>m_cItemsPerBitPackDataUnit\<close> is not among the sources). \<open>bits_per_item\<close> is the
  binary logarithm of the number of states rounded up, which is the number of bits of the
  largest index, and \<open>itemsPerWord\<close> is the number of bits of a word divided by
  \<open>bits_per_item\<close>, rounded down.
\<close>

definition bits_per_item :: "nat \<Rightarrow> nat" where
  "bits_per_item cTensorStates = CountBitsRequiredCore (cTensorStates - 1)"

definition itemsPerWord :: "nat \<Rightarrow> nat" where
  "itemsPerWord cTensorStates = GetCountItemsBitPacked (bits_per_item cTensorStates)"

text \<open>
  An example with slots wider than an item: one attribute with 2048 states, so 11 bits
  per item and five items per word, and two cases with the bin indices 0 and 1.
\<close>

definition wide_combination :: AttributeCombinationCore where
  "wide_combination =
     \<lparr>m_cItemsPerBitPackDataUnit = 5, m_cAttributes = 1,
      m_AttributeCombinationEntry =
        [\<lparr>m_pAttribute = \<lparr>m_cStates = 2048, m_iAttributeData = 0\<rparr>\<rparr>]\<rparr>"

definition wide_input :: "int list" where
  "wide_input = [0, 1]"

chapter \<open>Verified properties\<close>

section \<open>Lemmas on the sampling loops\<close>

lemma draw_loop_counts:
  "draw_loop Next c k r a = Inr (Some a') \<Longrightarrow> sum_list a + k < 2 ^ 64 \<Longrightarrow>
   length a' = length a \<and> sum_list a' = sum_list a + k"
proof (induction k arbitrary: r a)
  case 0
  then show ?case by simp
next
  case (Suc k)
  from Suc.prems(1) obtain r' i where nx: "Next r 0 (c - 1) = Some (r', i)"
    by (auto split: option.splits)
  with Suc.prems(1) have i: "i < length a"
    by (auto split: if_splits)
  define b where "b = a[i := (a ! i + 1) mod 2 ^ 64]"
  from Suc.prems(1) nx i have rec: "draw_loop Next c k r' b = Inr (Some a')"
    by (simp add: b_def)
  have le: "a ! i \<le> sum_list a"
    using i by (rule elem_le_sum_list)
  with Suc.prems(2) have small: "(a ! i + 1) mod 2 ^ 64 = a ! i + 1"
    by simp
  have "sum_list b = sum_list a + (a ! i + 1) - a ! i"
    unfolding b_def small using i by (rule sum_list_update)
  then have sb: "sum_list b = sum_list a + 1"
    by simp
  have lb: "length b = length a"
    by (simp add: b_def)
  have "length a' = length b \<and> sum_list a' = sum_list b + k"
    using rec Suc.prems(2) sb by (intro Suc.IH) simp_all
  then show ?case using sb lb by simp
qed

lemma flat_loop_result:
  "flat_loop c i a = Inr a' \<Longrightarrow> length a = c \<Longrightarrow> i \<le> c \<Longrightarrow>
   a' = take i a @ replicate (c - i) 1"
proof (induction c i a rule: flat_loop.induct)
  case (1 c i a)
  show ?case
  proof (cases "i < c")
    case True
    with "1.prems" have rec: "flat_loop c (Suc i) (a[i := 1]) = Inr a'"
      by (simp add: flat_loop.simps [of c i a])
    have "a' = take (Suc i) (a[i := 1]) @ replicate (c - Suc i) 1"
      using True "1.prems" rec by (intro "1.IH") simp_all
    moreover have "take (Suc i) (a[i := 1]) = take i a @ [1]"
      using True "1.prems" by (simp add: take_Suc_conv_app_nth)
    moreover have "replicate (c - i) (1::nat) = 1 # replicate (c - Suc i) 1"
      using True by (metis Suc_diff_Suc replicate_Suc)
    ultimately show ?thesis by simp
  next
    case False
    with "1.prems" show ?thesis
      by (simp add: flat_loop.simps [of c i a])
  qed
qed

lemma total_loop_result:
  "length a = c \<Longrightarrow> i \<le> c \<Longrightarrow> acc + sum_list (drop i a) < 2 ^ 64 \<Longrightarrow>
   total_loop c i a acc = Inr (acc + sum_list (drop i a))"
proof (induction c i a acc rule: total_loop.induct)
  case (1 c i a acc)
  show ?case
  proof (cases "i < c")
    case True
    have d: "drop i a = a ! i # drop (Suc i) a"
      using True "1.prems" by (simp add: Cons_nth_drop_Suc)
    have small: "(acc + a ! i) mod 2 ^ 64 = acc + a ! i"
      using "1.prems"(3) by (simp add: d)
    have "total_loop c (Suc i) a ((acc + a ! i) mod 2 ^ 64)
            = Inr ((acc + a ! i) mod 2 ^ 64 + sum_list (drop (Suc i) a))"
      using True "1.prems" by (intro "1.IH") (simp_all add: small d)
    then show ?thesis
      using True "1.prems" 
      by (simp add: total_loop.simps [of c i a acc] d small)
  next
    case False
    with "1.prems" have "drop i a = []" by simp
    with False show ?thesis
      by (subst total_loop.simps) simp
  qed
qed

section \<open>Sampling sets\<close>

text \<open>
  Claim C10. Every sampling set that GenerateSingleSamplingSet or
  GenerateFlatSamplingSet returns (a non-null pointer) refers to the origin data set and
  has one count per case, the counts adding up to the number of cases of the origin
  data set, so that the debug assertion of GetTotalCountCaseOccurrences holds; the
  flat set has every count equal to 1. The counts are natural numbers by their type.
  The number of cases is a \<open>size_t\<close>, hence below \<open>2 ^ 64\<close>.
\<close>

theorem sampling_sets_sum_to_case_count:
  assumes "GetCountCases ds < 2 ^ 64"
  shows "(GenerateSingleSamplingSet malloc_ok new_ok Next r ds = Inr (Some s) \<longrightarrow>
            m_pOriginDataSet s = ds \<and> sampling_invariant s \<and>
            GetTotalCountCaseOccurrences s = Inr (GetCountCases ds))
       \<and> (GenerateFlatSamplingSet malloc_ok new_ok junk ds = Inr (Some s') \<longrightarrow>
            m_pOriginDataSet s' = ds \<and> sampling_invariant s' \<and>
            m_aCountOccurrences s' = replicate (GetCountCases ds) 1 \<and>
            GetTotalCountCaseOccurrences s' = Inr (GetCountCases ds))"
proof (intro conjI impI)
  assume g: "GenerateSingleSamplingSet malloc_ok new_ok Next r ds = Inr (Some s)"
  let ?c = "GetCountCases ds"
  from g obtain a where
    dl: "draw_loop Next ?c ?c r (replicate ?c 0) = Inr (Some a)" and
    s: "s = \<lparr>m_pOriginDataSet = ds, m_aCountOccurrences = a\<rparr>"
    by (auto simp: GenerateSingleSamplingSet_def Let_def split: if_splits sum.splits option.splits)
  have "length a = length (replicate ?c (0::nat)) \<and> sum_list a = sum_list (replicate ?c 0) + ?c"
    using dl assms by (intro draw_loop_counts [of Next ?c ?c r]) (simp_all add: sum_list_replicate)
  then have la: "length a = ?c" and sa: "sum_list a = ?c"
    by (simp_all add: sum_list_replicate)
  show "m_pOriginDataSet s = ds" by (simp add: s)
  show "sampling_invariant s" by (simp add: sampling_invariant_def s la sa)
  have "total_loop ?c 0 a 0 = Inr (0 + sum_list (drop 0 a))"
    using la sa assms by (intro total_loop_result) simp_all
  then show "GetTotalCountCaseOccurrences s = Inr ?c"
    by (simp add: GetTotalCountCaseOccurrences_def s sa)
next
  assume g: "GenerateFlatSamplingSet malloc_ok new_ok junk ds = Inr (Some s')"
  let ?c = "GetCountCases ds"
  from g obtain a where
    fl: "flat_loop ?c 0 junk = Inr a" and lj: "length junk = ?c" and
    s: "s' = \<lparr>m_pOriginDataSet = ds, m_aCountOccurrences = a\<rparr>"
    by (auto simp: GenerateFlatSamplingSet_def Let_def split: if_splits sum.splits option.splits)
  have "a = take 0 junk @ replicate (?c - 0) 1"
    using fl lj by (intro flat_loop_result) simp_all
  then have a: "a = replicate ?c 1" by simp
  show "m_pOriginDataSet s' = ds" by (simp add: s)
  show "sampling_invariant s'" by (simp add: sampling_invariant_def s a sum_list_replicate)
  show "m_aCountOccurrences s' = replicate ?c 1" by (simp add: s a)
  have "total_loop ?c 0 a 0 = Inr (0 + sum_list (drop 0 a))"
    using a assms by (intro total_loop_result) (simp_all add: sum_list_replicate)
  then show "GetTotalCountCaseOccurrences s' = Inr ?c"
    by (simp add: GetTotalCountCaseOccurrences_def s a sum_list_replicate)
qed


lemma demo_single_set:
  "GenerateSingleSamplingSet True True demo_next [2, 0, 2] \<lparr>m_cCases = 3\<rparr> =
   Inr (Some \<lparr>m_pOriginDataSet = \<lparr>m_cCases = 3\<rparr>, m_aCountOccurrences = [1, 0, 2]\<rparr>)"
proof -
  have r: "replicate 3 (0::nat) = [0, 0, 0]" by (simp add: numeral_3_eq_3)
  have d: "draw_loop demo_next 3 (Suc (Suc (Suc 0))) [2, 0, 2] [0, 0, 0] = Inr (Some [1, 0, 2])"
    by (simp add: demo_next_def)
  show ?thesis
    unfolding GenerateSingleSamplingSet_def GetCountCases_def Let_def
    using d by (simp add: r numeral_3_eq_3 del: draw_loop.simps)
qed

lemma demo_flat_set:
  "GenerateFlatSamplingSet True True [7, 8, 9] \<lparr>m_cCases = 3\<rparr> =
   Inr (Some \<lparr>m_pOriginDataSet = \<lparr>m_cCases = 3\<rparr>, m_aCountOccurrences = [1, 1, 1]\<rparr>)"
  by (simp add: GenerateFlatSamplingSet_def GetCountCases_def flat_loop.simps)

theorem sampling_sets_sum_to_case_count_witness:
  "GetCountCases \<lparr>m_cCases = 3\<rparr> < 2 ^ 64
   \<and> GenerateSingleSamplingSet True True demo_next [2, 0, 2] \<lparr>m_cCases = 3\<rparr> =
       Inr (Some \<lparr>m_pOriginDataSet = \<lparr>m_cCases = 3\<rparr>, m_aCountOccurrences = [1, 0, 2]\<rparr>)
   \<and> sampling_invariant \<lparr>m_pOriginDataSet = \<lparr>m_cCases = 3\<rparr>, m_aCountOccurrences = [1, 0, 2]\<rparr>
   \<and> GetTotalCountCaseOccurrences
         \<lparr>m_pOriginDataSet = \<lparr>m_cCases = 3\<rparr>, m_aCountOccurrences = [1, 0, 2]\<rparr> = Inr 3
   \<and> GenerateFlatSamplingSet True True [7, 8, 9] \<lparr>m_cCases = 3\<rparr> =
       Inr (Some \<lparr>m_pOriginDataSet = \<lparr>m_cCases = 3\<rparr>, m_aCountOccurrences = [1, 1, 1]\<rparr>)
   \<and> sampling_invariant \<lparr>m_pOriginDataSet = \<lparr>m_cCases = 3\<rparr>, m_aCountOccurrences = [1, 1, 1]\<rparr>"
proof -
  let ?ds = "\<lparr>m_cCases = 3\<rparr>"
  let ?s = "\<lparr>m_pOriginDataSet = ?ds, m_aCountOccurrences = [1, 0, 2]\<rparr>"
  let ?f = "\<lparr>m_pOriginDataSet = ?ds, m_aCountOccurrences = [1, 1, 1]\<rparr>"
  have c: "GetCountCases ?ds < 2 ^ 64"
    by (simp add: GetCountCases_def)
  note both = sampling_sets_sum_to_case_count
    [OF c, of True True demo_next "[2, 0, 2]" ?s "[7, 8, 9]" ?f]
  from both demo_single_set have 1: "sampling_invariant ?s"
    and 2: "GetTotalCountCaseOccurrences ?s = Inr (GetCountCases ?ds)"
    by blast+
  from both demo_flat_set have 3: "sampling_invariant ?f"
    by blast
  have 4: "GetCountCases ?ds = 3"
    by (simp add: GetCountCases_def)
  from c demo_single_set demo_flat_set 1 2 3 show ?thesis
    unfolding 4 by blast
qed

section \<open>Expand on an expanded tensor\<close>

lemma Expand_tensorA:
  "Expand always 0 0 [5] tensorA = Inr (False, tensorA_expanded)"
  by code_simp

text \<open>
  Claim C9. Expand on a tensor that is already expanded returns \<open>false\<close> (no error) at
  once and leaves the object as it is, whatever the region counts asked for; and a
  tensor that a successful Expand returns is expanded, so that a second Expand, with the
  same region counts, changes nothing.
\<close>

theorem Expand_idempotent:
  "(m_bExpanded t \<longrightarrow> Expand ok junkv junkd ac t = Inr (False, t)) \<and>
   (Expand ok junkv junkd ac t = Inr (False, t') \<longrightarrow>
      m_bExpanded t' \<and> Expand ok2 junkv2 junkd2 ac t' = Inr (False, t'))"
proof (intro conjI impI)
  show "Expand ok junkv junkd ac t = Inr (False, t)" if "m_bExpanded t"
    using that by (simp add: Expand_def)
  assume e: "Expand ok junkv junkd ac t = Inr (False, t')"
  show x: "m_bExpanded t'"
  proof (cases "m_bExpanded t")
    case True
    with e show ?thesis by (simp add: Expand_def)
  next
    case False
    with e show ?thesis
      by (auto simp: Expand_def Let_def split: if_splits sum.splits prod.splits bool.splits)
  qed
  then show "Expand ok2 junkv2 junkd2 ac t' = Inr (False, t')"
    by (simp add: Expand_def)
qed

theorem Expand_idempotent_witness:
  "Expand always 0 0 [5] tensorA = Inr (False, tensorA_expanded) \<and>
   m_bExpanded tensorA_expanded \<and>
   Expand always 0 0 [5] tensorA_expanded = Inr (False, tensorA_expanded)"
  using Expand_idempotent [of tensorA_expanded always 0 0 "[5]" tensorA_expanded always 0 0]
    Expand_idempotent [of tensorA always 0 0 "[5]" tensorA_expanded always 0 0]
    Expand_tensorA
  by blast

section \<open>Lemmas on segmented tensors\<close>

subsection \<open>Mixed radix\<close>

lemma grid_point_Cons [simp]:
  "grid_point (r # rs) (x # p) \<longleftrightarrow> x < r \<and> grid_point rs p"
  by (simp add: grid_point_def)

lemma grid_point_Nil [simp]: "grid_point [] p \<longleftrightarrow> p = []"
  by (simp add: grid_point_def)

lemma grid_point_length: "grid_point rs p \<Longrightarrow> length p = length rs"
  by (simp add: grid_point_def list_all2_lengthD)

lemma grid_point_ConsE:
  assumes "grid_point (r # rs) p"
  obtains x p' where "p = x # p'" "x < r" "grid_point rs p'"
  using assms by (cases p) (auto simp: grid_point_def)

lemma mixed_radix_less:
  "grid_point rs p \<Longrightarrow> mixed_radix rs p < prod_list rs"
proof (induction rs arbitrary: p)
  case Nil
  then show ?case by simp
next
  case (Cons r rs)
  from Cons.prems obtain x p' where p: "p = x # p'" "x < r" "grid_point rs p'"
    by (rule grid_point_ConsE)
  from Cons.IH [OF p(3)] have "mixed_radix rs p' + 1 \<le> prod_list rs" by simp
  then have "r * (mixed_radix rs p' + 1) \<le> r * prod_list rs"
    by (rule mult_le_mono2)
  with p(2) show ?case by (simp add: p(1))
qed

lemma mixed_radix_inj:
  "grid_point rs p \<Longrightarrow> grid_point rs q \<Longrightarrow> mixed_radix rs p = mixed_radix rs q \<Longrightarrow> p = q"
proof (induction rs arbitrary: p q)
  case Nil
  then show ?case by simp
next
  case (Cons r rs)
  from Cons.prems(1) obtain x p' where p: "p = x # p'" "x < r" "grid_point rs p'"
    by (rule grid_point_ConsE)
  from Cons.prems(2) obtain y q' where q: "q = y # q'" "y < r" "grid_point rs q'"
    by (rule grid_point_ConsE)
  from Cons.prems(3) have e: "x + r * mixed_radix rs p' = y + r * mixed_radix rs q'"
    by (simp add: p q)
  from e have "(x + r * mixed_radix rs p') mod r = (y + r * mixed_radix rs q') mod r" by simp
  with p(2) q(2) have xy: "x = y" by simp
  from e have "(x + r * mixed_radix rs p') div r = (y + r * mixed_radix rs q') div r" by simp
  with p(2) q(2) have "mixed_radix rs p' = mixed_radix rs q'" by simp
  with Cons.IH [OF p(3) q(3)] xy show ?case by (simp add: p q)
qed

lemma mixed_radix_mono:
  "list_all2 (\<le>) rs rs' \<Longrightarrow> list_all2 (\<le>) p p' \<Longrightarrow> length p = length rs \<Longrightarrow>
   mixed_radix rs p \<le> mixed_radix rs' p'"
proof (induction rs arbitrary: rs' p p')
  case Nil
  then show ?case by simp
next
  case (Cons r rs)
  from Cons.prems(1) obtain r' rs'' where r: "rs' = r' # rs''" "r \<le> r'" "list_all2 (\<le>) rs rs''"
    by (auto simp: list_all2_Cons1)
  from Cons.prems(3) obtain x q where p: "p = x # q" "length q = length rs"
    by (cases p) auto
  from Cons.prems(2) p obtain x' q' where p': "p' = x' # q'" "x \<le> x'" "list_all2 (\<le>) q q'"
    by (auto simp: list_all2_Cons1)
  have "mixed_radix rs q \<le> mixed_radix rs'' q'"
    using r(3) p'(3) p(2) by (rule Cons.IH)
  then have "r * mixed_radix rs q \<le> r' * mixed_radix rs'' q'"
    using r(2) by (rule mult_le_mono [rotated])
  with p'(2) show ?case by (simp add: r(1) p(1) p'(1))
qed

lemma grid_pred_point:
  "grid_point rs p \<Longrightarrow> grid_point rs (grid_pred rs p)"
proof (induction rs arbitrary: p)
  case Nil
  then show ?case by simp
next
  case (Cons r rs)
  from Cons.prems obtain x p' where p: "p = x # p'" "x < r" "grid_point rs p'"
    by (rule grid_point_ConsE)
  with Cons.IH [OF p(3)] show ?case by auto
qed

lemma mixed_radix_pred:
  "grid_point rs p \<Longrightarrow> 0 < mixed_radix rs p \<Longrightarrow>
   Suc (mixed_radix rs (grid_pred rs p)) = mixed_radix rs p"
proof (induction rs arbitrary: p)
  case Nil
  then show ?case by simp
next
  case (Cons r rs)
  from Cons.prems(1) obtain x p' where p: "p = x # p'" "x < r" "grid_point rs p'"
    by (rule grid_point_ConsE)
  show ?case
  proof (cases "0 < x")
    case True
    then show ?thesis by (simp add: p)
  next
    case False
    with Cons.prems(2) p have pos: "0 < mixed_radix rs p'" by (simp add: p)
    from Cons.IH [OF p(3) pos] have "mixed_radix rs p' = Suc (mixed_radix rs (grid_pred rs p'))"
      by simp
    then have "r * mixed_radix rs p' = r + r * mixed_radix rs (grid_pred rs p')"
      by simp
    with False p(2) show ?thesis by (simp add: p)
  qed
qed

lemma mixed_radix_zero:
  "grid_point rs p \<Longrightarrow> mixed_radix rs p = 0 \<Longrightarrow> p = replicate (length rs) 0"
proof (induction rs arbitrary: p)
  case Nil
  then show ?case by simp
next
  case (Cons r rs)
  from Cons.prems(1) obtain x p' where p: "p = x # p'" "x < r" "grid_point rs p'"
    by (rule grid_point_ConsE)
  with Cons.prems(2) have "x = 0" "mixed_radix rs p' = 0" by auto
  with Cons.IH [OF p(3)] show ?case by (simp add: p)
qed

subsection \<open>Regions of sorted cuts\<close>

lemma region_of_le_length: "region_of cuts x \<le> length cuts"
  by (simp add: region_of_def)

lemma region_of_mono: "x \<le> y \<Longrightarrow> region_of cuts x \<le> region_of cuts y"
proof (induction cuts)
  case Nil
  then show ?case by (simp add: region_of_def)
next
  case (Cons c cuts)
  then show ?case by (auto simp: region_of_def)
qed

lemma region_of_sorted_take:
  "sorted_wrt (<) cuts \<Longrightarrow> filter (\<lambda>c. c < x) cuts = take (region_of cuts x) cuts"
proof (induction cuts)
  case Nil
  then show ?case by (simp add: region_of_def)
next
  case (Cons c cuts)
  show ?case
  proof (cases "c < x")
    case True
    with Cons show ?thesis by (simp add: region_of_def)
  next
    case False
    with Cons.prems have "\<forall>c' \<in> set cuts. \<not> c' < x" by auto
    then have "filter (\<lambda>c. c < x) cuts = []" by (simp add: filter_empty_conv)
    with False show ?thesis by (simp add: region_of_def)
  qed
qed

lemma region_of_below:
  assumes "sorted_wrt (<) cuts" "i < region_of cuts x"
  shows "cuts ! i < x"
proof -
  have "i < length cuts" using assms(2) region_of_le_length [of cuts x] by simp
  have "take (region_of cuts x) cuts ! i \<in> set (filter (\<lambda>c. c < x) cuts)"
    unfolding region_of_sorted_take [OF assms(1)]
    using assms(2) \<open>i < length cuts\<close> by (intro nth_mem) simp
  then show ?thesis using assms(2) by simp
qed

lemma region_of_above:
  assumes "sorted_wrt (<) cuts" "region_of cuts x \<le> i" "i < length cuts"
  shows "x \<le> cuts ! i"
proof (rule ccontr)
  assume "\<not> x \<le> cuts ! i"
  then have "cuts ! i \<in> set (filter (\<lambda>c. c < x) cuts)"
    using assms(3) by simp
  then have "cuts ! i \<in> set (take (region_of cuts x) cuts)"
    by (simp only: region_of_sorted_take [OF assms(1)])
  then obtain j where j: "j < region_of cuts x" "j < length cuts" "cuts ! j = cuts ! i"
    by (auto simp: in_set_conv_nth)
  from assms(1) have "distinct cuts"
    by (simp add: strict_sorted_iff)
  with j(2,3) assms(3) have "j = i" by (simp add: nth_eq_iff_index_eq)
  with j(1) assms(2) show False by simp
qed

lemma region_of_eqI:
  assumes "n \<le> length cuts" "\<And>i. i < n \<Longrightarrow> cuts ! i < x"
    "\<And>i. n \<le> i \<Longrightarrow> i < length cuts \<Longrightarrow> x \<le> cuts ! i"
  shows "region_of cuts x = n"
proof -
  have "cuts = take n cuts @ drop n cuts" by simp
  then have "region_of cuts x = length (filter (\<lambda>c. c < x) (take n cuts))
      + length (filter (\<lambda>c. c < x) (drop n cuts))"
    unfolding region_of_def by (metis filter_append length_append)
  moreover have "filter (\<lambda>c. c < x) (take n cuts) = take n cuts"
    using assms(1,2) by (auto simp: filter_id_conv in_set_conv_nth)
  moreover have "filter (\<lambda>c. c < x) (drop n cuts) = []"
  proof -
    have "\<not> c < x" if "c \<in> set (drop n cuts)" for c
    proof -
      from that obtain i where i: "i < length cuts - n" "c = cuts ! (n + i)"
        by (auto simp: in_set_conv_nth)
      then have "x \<le> cuts ! (n + i)" by (intro assms(3)) simp_all
      with i show ?thesis by simp
    qed
    then show ?thesis by (simp add: filter_empty_conv)
  qed
  ultimately show ?thesis using assms(1) by simp
qed

lemma sorted_wrt_nth_less:
  "sorted_wrt (<) (cuts::int list) \<Longrightarrow> i < j \<Longrightarrow> j < length cuts \<Longrightarrow> cuts ! i < cuts ! j"
  by (simp add: sorted_wrt_iff_nth_less)

text \<open>One step back along an axis, as Expand takes it.\<close>

lemma region_of_step:
  assumes s: "sorted_wrt (<) cuts" and n: "0 < region_of cuts x"
  shows "region_of cuts (x - 1) =
     (if x - 1 \<le> cuts ! (region_of cuts x - 1) then region_of cuts x - 1 else region_of cuts x)"
proof -
  let ?n = "region_of cuts x"
  have nl: "?n \<le> length cuts" by (rule region_of_le_length)
  have top: "cuts ! (?n - 1) < x"
    using s n by (intro region_of_below) simp_all
  show ?thesis
  proof (cases "x - 1 \<le> cuts ! (?n - 1)")
    case True
    have "region_of cuts (x - 1) = ?n - 1"
    proof (rule region_of_eqI)
      show "?n - 1 \<le> length cuts" using nl by simp
      fix i assume i: "i < ?n - 1"
      then have "cuts ! i < cuts ! (?n - 1)"
        using s nl n by (intro sorted_wrt_nth_less) simp_all
      with top show "cuts ! i < x - 1" by simp
    next
      fix i assume i: "?n - 1 \<le> i" "i < length cuts"
      show "x - 1 \<le> cuts ! i"
      proof (cases "i = ?n - 1")
        case True
        with \<open>x - 1 \<le> cuts ! (?n - 1)\<close> show ?thesis by simp
      next
        case False
        with i have "?n \<le> i" by simp
        then have "x \<le> cuts ! i" using s i(2) by (intro region_of_above)
        then show ?thesis by simp
      qed
    qed
    with True show ?thesis by simp
  next
    case False
    have "region_of cuts (x - 1) = ?n"
    proof (rule region_of_eqI)
      show "?n \<le> length cuts" by (rule nl)
      fix i assume i: "i < ?n"
      have "cuts ! i \<le> cuts ! (?n - 1)"
      proof (cases "i = ?n - 1")
        case True then show ?thesis by simp
      next
        case False
        with i have "i < ?n - 1" by simp
        then have "cuts ! i < cuts ! (?n - 1)"
          using s nl n by (intro sorted_wrt_nth_less) simp_all
        then show ?thesis by simp
      qed
      with False show "cuts ! i < x - 1" by simp
    next
      fix i assume i: "?n \<le> i" "i < length cuts"
      then have "x \<le> cuts ! i" using s by (intro region_of_above)
      then show "x - 1 \<le> cuts ! i" by simp
    qed
    with False show ?thesis by simp
  qed
qed

lemma region_of_zero:
  "list_all (\<lambda>c. 0 \<le> c \<and> P c) cuts \<Longrightarrow> region_of cuts 0 = 0"
  by (induction cuts) (auto simp: region_of_def)

lemma region_of_top:
  "list_all (\<lambda>c. 0 \<le> c \<and> c + 2 \<le> int r) cuts \<Longrightarrow> region_of cuts (int r - 1) = length cuts"
  by (induction cuts) (auto simp: region_of_def)

lemma region_of_le_bin:
  assumes "sorted_wrt (<) cuts" "list_all (\<lambda>c. 0 \<le> c \<and> P c) cuts"
  shows "region_of cuts (int x) \<le> x"
proof (induction x)
  case 0
  from assms(2) show ?case by (simp add: region_of_zero)
next
  case (Suc x)
  show ?case
  proof (cases "0 < region_of cuts (int (Suc x))")
    case True
    from region_of_step [OF assms(1) True]
    have "region_of cuts (int (Suc x)) \<le> Suc (region_of cuts (int x))"
      by (simp split: if_splits)
    with Suc show ?thesis by simp
  next
    case False
    then show ?thesis by simp
  qed
qed

subsection \<open>The stack of Expand\<close>

lemma to_ptrdiff_size_sub_2:
  "1 \<le> r \<Longrightarrow> r < 2 ^ 63 \<Longrightarrow> to_ptrdiff (size_sub r 2) = int r - 2"
proof (cases "r = 1")
  case True
  then show ?thesis by (simp add: to_ptrdiff_def size_sub_def)
next
  case False
  assume "1 \<le> r" "r < 2 ^ 63"
  with False have "0 \<le> int r - 2" "int r - 2 < 2 ^ 63" by simp_all
  then have "(int r - 2) mod 2 ^ 64 = int r - 2" by simp
  with \<open>int r - 2 < 2 ^ 63\<close> show ?thesis by (simp add: to_ptrdiff_def size_sub_def)
qed

lemma cell_of_Cons:
  "cell_of (d # dims) (x # p) =
     region_of (cuts_of d) (int x) + (cDivisions d + 1) * cell_of dims p"
  by (simp add: cell_of_def)

lemma cell_of_Nil: "cell_of [] p = 0" "cell_of dims [] = 0"
  by (simp_all add: cell_of_def)

lemma axis_ok_cuts:
  assumes "axis_ok d r"
  shows "length (cuts_of d) = cDivisions d" "sorted_wrt (<) (cuts_of d)"
    "list_all (\<lambda>c. 0 \<le> c \<and> c + 2 \<le> int r) (cuts_of d)" "1 \<le> r" "r < 2 ^ 63"
    "cDivisions d \<le> length (aDivisions d)"
  using assms by (simp_all add: axis_ok_def cuts_of_def)

lemma cuts_of_nth: "i < cDivisions d \<Longrightarrow> cuts_of d ! i = aDivisions d ! i"
  by (simp add: cuts_of_def)

lemma size_t_of_id: "n < 2 ^ 64 \<Longrightarrow> size_t_of n = n"
proof -
  assume "n < 2 ^ 64"
  then have "int n < 2 ^ 64" by (metis of_nat_less_iff of_nat_numeral of_nat_power)
  then have "int n mod 2 ^ 64 = int n" by simp
  then show ?thesis by (simp add: size_t_of_def)
qed

lemma radix_prod_pos: "1 \<le> prod_list (map (\<lambda>d. cDivisions d + 1) dims)"
  by (induction dims) simp_all

lemma radix_prod_head:
  assumes "m * prod_list (map (\<lambda>d. cDivisions d + 1) (d # dims)) < (2::nat) ^ 64"
  shows "m * (1 + cDivisions d) < 2 ^ 64"
    "m * (1 + cDivisions d) * prod_list (map (\<lambda>d. cDivisions d + 1) dims) < 2 ^ 64"
proof -
  let ?P = "prod_list (map (\<lambda>d. cDivisions d + 1) dims)"
  have e: "m * prod_list (map (\<lambda>d. cDivisions d + 1) (d # dims)) = m * (1 + cDivisions d) * ?P"
    by (simp add: algebra_simps)
  from assms show b: "m * (1 + cDivisions d) * ?P < 2 ^ 64" unfolding e .
  have "m * (1 + cDivisions d) * 1 \<le> m * (1 + cDivisions d) * ?P"
    using radix_prod_pos [of dims] by (rule mult_le_mono2)
  then have "m * (1 + cDivisions d) \<le> m * (1 + cDivisions d) * ?P" by simp
  from this b show "m * (1 + cDivisions d) < 2 ^ 64" by (rule le_less_trans)
qed

lemma expand_step_cut:
  assumes "k < length (aDivisions d)" "0 \<le> i"
  shows "expand_step (d # dims)
      (\<lparr>pDivision1_e = int k, iDivision2_e = i, cNewDivisions_e = c\<rparr> # st) pv m =
     Inr (\<lparr>pDivision1_e = int k - (if i \<le> aDivisions d ! k then 1 else 0),
           iDivision2_e = i - 1, cNewDivisions_e = c\<rparr> # st,
          pv - (if i \<le> aDivisions d ! k then 1 else 0) * int m)"
  using assms by (simp add: Let_def)

lemma expand_step_nocut:
  assumes "0 \<le> i"
  shows "expand_step (d # dims)
      (\<lparr>pDivision1_e = - 1, iDivision2_e = i, cNewDivisions_e = c\<rparr> # st) pv m =
     Inr (\<lparr>pDivision1_e = - 1, iDivision2_e = i - 1, cNewDivisions_e = c\<rparr> # st, pv)"
  using assms by simp

lemma expand_step_wrap:
  assumes "m * (1 + cDivisions d) < 2 ^ 64"
  shows "expand_step (d # dims)
      (\<lparr>pDivision1_e = - 1, iDivision2_e = - 1, cNewDivisions_e = c\<rparr> # st) pv m =
     (case expand_step dims st (pv - int m + int (m * (1 + cDivisions d)))
             (m * (1 + cDivisions d)) of
        Inl e \<Rightarrow> Inl e
      | Inr (st', pv') \<Rightarrow>
          Inr (\<lparr>pDivision1_e = int (cDivisions d) - 1, iDivision2_e = to_ptrdiff c,
                cNewDivisions_e = c\<rparr> # st', pv'))"
proof -
  have w: "size_t_of (m * (1 + cDivisions d)) = m * (1 + cDivisions d)"
    using assms by (rule size_t_of_id)
  show ?thesis
    by (simp add: Let_def w [simplified] split: sum.splits prod.splits)
qed

lemma expand_stack_at_eq:
  "region_of (cuts_of d) (int x) = n \<Longrightarrow>
   expand_stack_at d r x =
     \<lparr>pDivision1_e = int n - 1, iDivision2_e = int x - 1, cNewDivisions_e = size_sub r 2\<rparr>"
  by (simp add: expand_stack_at_def)

lemma expand_step_one:
  assumes ok: "axis_ok d r" and x: "x = Suc y"
  shows "expand_step (d # dims) (expand_stack_at d r x # st) pv m =
     Inr (expand_stack_at d r y # st,
          pv + int m * (int (region_of (cuts_of d) (int y)) - int (region_of (cuts_of d) (int x))))"
proof -
  let ?n = "region_of (cuts_of d) (int x)"
  let ?n' = "region_of (cuts_of d) (int y)"
  note c = axis_ok_cuts [OF ok]
  have x1: "int x - 1 = int y" by (simp add: x)
  have x0: "0 \<le> int y" by simp
  show ?thesis
  proof (cases ?n)
    case (Suc k)
    have nle: "?n \<le> cDivisions d"
      using region_of_le_length [of "cuts_of d" "int x"] c(1) by simp
    with c(6) Suc have inb: "k < length (aDivisions d)" and kc: "k < cDivisions d"
      by simp_all
    have d1: "cuts_of d ! k = aDivisions d ! k"
      using kc by (rule cuts_of_nth)
    have pos: "0 < ?n" using Suc by simp
    have st: "?n' = (if int y \<le> aDivisions d ! k then k else Suc k)"
      using region_of_step [OF c(2) pos] by (simp add: x1 Suc d1)
    have s: "expand_stack_at d r x =
        \<lparr>pDivision1_e = int k, iDivision2_e = int y, cNewDivisions_e = size_sub r 2\<rparr>"
      using expand_stack_at_eq [OF Suc, of r] by (simp add: x1)
    have s': "expand_stack_at d r y =
        \<lparr>pDivision1_e = int ?n' - 1, iDivision2_e = int y - 1, cNewDivisions_e = size_sub r 2\<rparr>"
      by (rule expand_stack_at_eq) simp
    have a: "int k - (if int y \<le> aDivisions d ! k then 1 else 0) = int ?n' - 1"
      by (simp add: st)
    have b: "pv - (if int y \<le> aDivisions d ! k then 1 else 0) * int m
        = pv + int m * (int ?n' - int ?n)"
      by (simp add: st Suc algebra_simps)
    show ?thesis
      unfolding s expand_step_cut [OF inb x0] a b s' ..
  next
    case 0
    have "?n' \<le> ?n"
      by (rule region_of_mono) (simp add: x)
    with 0 have z': "?n' = 0" by simp
    have s: "expand_stack_at d r x =
        \<lparr>pDivision1_e = - 1, iDivision2_e = int y, cNewDivisions_e = size_sub r 2\<rparr>"
      using expand_stack_at_eq [OF 0, of r] by (simp add: x1)
    have s': "expand_stack_at d r y =
        \<lparr>pDivision1_e = - 1, iDivision2_e = int y - 1, cNewDivisions_e = size_sub r 2\<rparr>"
      using expand_stack_at_eq [OF z', of r] by simp
    have b: "pv = pv + int m * (int ?n' - int ?n)"
      by (simp add: 0 z')
    show ?thesis
      unfolding s expand_step_nocut [OF x0] s' using b by simp
  qed
qed

lemma expand_step_pred:
  assumes "list_all2 axis_ok dims rs" "grid_point rs p" "0 < mixed_radix rs p"
    "m * prod_list (map (\<lambda>d. cDivisions d + 1) dims) < 2 ^ 64"
  shows "expand_step dims (expand_stack_of dims rs p) pv m =
     Inr (expand_stack_of dims rs (grid_pred rs p),
          pv + int m * (int (cell_of dims (grid_pred rs p)) - int (cell_of dims p)))"
  using assms
proof (induction dims arbitrary: rs p pv m)
  case Nil
  then show ?case by simp
next
  case (Cons d dims)
  from Cons.prems(1) obtain r rs' where rs: "rs = r # rs'" and ok: "axis_ok d r"
    and oks: "list_all2 axis_ok dims rs'"
    by (auto simp: list_all2_Cons1)
  from Cons.prems(2) obtain x p' where p: "p = x # p'" "x < r" "grid_point rs' p'"
    unfolding rs by (rule grid_point_ConsE)
  note c = axis_ok_cuts [OF ok]
  show ?case
  proof (cases x)
    case (Suc y)
    have gp: "grid_pred (r # rs') (x # p') = y # p'" by (simp add: Suc)
    have e: "expand_stack_of (d # dims) (r # rs') (x # p') =
        expand_stack_at d r x # expand_stack_of dims rs' p'"
        "expand_stack_of (d # dims) (r # rs') (y # p') =
        expand_stack_at d r y # expand_stack_of dims rs' p'"
      by simp_all
    have cp: "int (cell_of (d # dims) (y # p')) - int (cell_of (d # dims) (x # p'))
       = int (region_of (cuts_of d) (int y)) - int (region_of (cuts_of d) (int x))"
      by (simp add: cell_of_Cons)
    show ?thesis
      unfolding rs p(1) gp e cp by (rule expand_step_one [OF ok Suc])
  next
    case 0
    with Cons.prems(3) have pos: "0 < mixed_radix rs' p'" by (simp add: rs p(1))
    have z: "region_of (cuts_of d) (int 0) = 0"
      using region_of_zero [OF c(3)] by simp
    have r1: "int (r - 1) = int r - 1" using c(4) by simp
    have top: "region_of (cuts_of d) (int (r - 1)) = cDivisions d"
      unfolding r1 using region_of_top [OF c(3)] c(1) by simp
    have ent: "\<lparr>pDivision1_e = int (cDivisions d) - 1, iDivision2_e = to_ptrdiff (size_sub r 2),
         cNewDivisions_e = size_sub r 2\<rparr> = expand_stack_at d r (r - 1)"
      unfolding expand_stack_at_eq [OF top, of r] r1 to_ptrdiff_size_sub_2 [OF c(4,5)]
      by simp
    have s0: "expand_stack_at d r 0 =
        \<lparr>pDivision1_e = - 1, iDivision2_e = - 1, cNewDivisions_e = size_sub r 2\<rparr>"
      using expand_stack_at_eq [OF z, of r] by simp
    have gp: "grid_pred (r # rs') (0 # p') = (r - 1) # grid_pred rs' p'"
      by simp
    have e: "expand_stack_of (d # dims) (r # rs') (0 # p') =
        \<lparr>pDivision1_e = - 1, iDivision2_e = - 1, cNewDivisions_e = size_sub r 2\<rparr>
          # expand_stack_of dims rs' p'"
      by (simp add: s0)
    have e': "expand_stack_of (d # dims) (r # rs') ((r - 1) # grid_pred rs' p') =
        expand_stack_at d r (r - 1) # expand_stack_of dims rs' (grid_pred rs' p')"
      by simp
    have "cell_of (d # dims) ((r - 1) # grid_pred rs' p') =
        cDivisions d + (cDivisions d + 1) * cell_of dims (grid_pred rs' p')"
      unfolding cell_of_Cons top ..
    moreover have "cell_of (d # dims) (0 # p') = (cDivisions d + 1) * cell_of dims p'"
      unfolding cell_of_Cons z by simp
    ultimately have cp: "int (cell_of (d # dims) ((r - 1) # grid_pred rs' p')) - int (cell_of (d # dims) (0 # p'))
        = int (cDivisions d) + (int (cDivisions d) + 1) *
            (int (cell_of dims (grid_pred rs' p')) - int (cell_of dims p'))"
      by (simp add: algebra_simps)
    have ar: "pv - int m + int (m * (1 + cDivisions d)) +
          int (m * (1 + cDivisions d)) * (int (cell_of dims (grid_pred rs' p')) - int (cell_of dims p'))
        = pv + int m * (int (cDivisions d) + (int (cDivisions d) + 1) *
            (int (cell_of dims (grid_pred rs' p')) - int (cell_of dims p')))"
      by (simp add: algebra_simps)
    note hd = radix_prod_head [OF Cons.prems(4)]
    note ih = Cons.IH [OF oks p(3) pos hd(2)]
    show ?thesis
      unfolding rs p(1) 0 gp e e' cp expand_step_wrap [OF hd(1)] ih
      by (simp only: sum.case prod.case ent ar)
  qed
qed

subsection \<open>The value loop of Expand\<close>

lemma axis_ok_radix:
  assumes "axis_ok d r"
  shows "cDivisions d + 1 \<le> r"
proof -
  note c = axis_ok_cuts [OF assms]
  have "region_of (cuts_of d) (int (r - 1)) \<le> r - 1"
    using c(2,3) by (rule region_of_le_bin)
  moreover have "int (r - 1) = int r - 1" using c(4) by simp
  ultimately have "length (cuts_of d) \<le> r - 1"
    using region_of_top [OF c(3)] by simp
  with c(1,4) show ?thesis by simp
qed

lemma cell_of_le:
  "list_all2 axis_ok dims rs \<Longrightarrow> grid_point rs p \<Longrightarrow> cell_of dims p \<le> mixed_radix rs p"
proof (induction dims arbitrary: rs p)
  case Nil
  then show ?case by (simp add: cell_of_Nil)
next
  case (Cons d dims)
  from Cons.prems(1) obtain r rs' where rs: "rs = r # rs'" and ok: "axis_ok d r"
    and oks: "list_all2 axis_ok dims rs'"
    by (auto simp: list_all2_Cons1)
  from Cons.prems(2) obtain x p' where p: "p = x # p'" "x < r" "grid_point rs' p'"
    unfolding rs by (rule grid_point_ConsE)
  note c = axis_ok_cuts [OF ok]
  have 1: "region_of (cuts_of d) (int x) \<le> x"
    using c(2,3) by (rule region_of_le_bin)
  have 2: "cDivisions d + 1 \<le> r" using ok by (rule axis_ok_radix)
  have 3: "cell_of dims p' \<le> mixed_radix rs' p'" using oks p(3) by (rule Cons.IH)
  have "(cDivisions d + 1) * cell_of dims p' \<le> r * mixed_radix rs' p'"
    using 2 3 by (rule mult_le_mono)
  with 1 show ?case unfolding rs p(1) cell_of_Cons by simp
qed

lemma expand_copy_Suc:
  "s < length a \<Longrightarrow> t < length a \<Longrightarrow>
   expand_copy (Suc n) a (int s) (int t) = expand_copy n (a[t := a ! s]) (int s - 1) (int t - 1)"
  by simp

lemma expand_copy_cell:
  assumes "t + n \<le> length a" "s = t \<or> s + n \<le> t"
  shows "\<exists>a1. expand_copy n a (int (s + n) - 1) (int (t + n) - 1) = Inr a1 \<and>
      length a1 = length a \<and> (\<forall>i<n. a1 ! (t + i) = a ! (s + i)) \<and>
      (\<forall>i<length a. i < t \<or> t + n \<le> i \<longrightarrow> a1 ! i = a ! i)"
  using assms
proof (induction n arbitrary: a)
  case 0
  then show ?case by simp
next
  case (Suc n)
  let ?a2 = "a[t + n := a ! (s + n)]"
  have src: "int (s + Suc n) - 1 = int (s + n)" and dst: "int (t + Suc n) - 1 = int (t + n)"
    by simp_all
  have sl: "s + n < length a" and tl: "t + n < length a"
    using Suc.prems by auto
  have un: "expand_copy (Suc n) a (int (s + n)) (int (t + n)) =
      expand_copy n ?a2 (int (s + n) - 1) (int (t + n) - 1)"
    using sl tl by (rule expand_copy_Suc)
  have "\<exists>a1. expand_copy n ?a2 (int (s + n) - 1) (int (t + n) - 1) = Inr a1 \<and>
      length a1 = length ?a2 \<and> (\<forall>i<n. a1 ! (t + i) = ?a2 ! (s + i)) \<and>
      (\<forall>i<length ?a2. i < t \<or> t + n \<le> i \<longrightarrow> a1 ! i = ?a2 ! i)"
    using Suc.prems by (intro Suc.IH) auto
  then obtain a1 where h: "expand_copy n ?a2 (int (s + n) - 1) (int (t + n) - 1) = Inr a1 \<and>
      length a1 = length ?a2 \<and> (\<forall>i<n. a1 ! (t + i) = ?a2 ! (s + i)) \<and>
      (\<forall>i<length ?a2. i < t \<or> t + n \<le> i \<longrightarrow> a1 ! i = ?a2 ! i)"
    by blast
  from h have a1: "expand_copy n ?a2 (int (s + n) - 1) (int (t + n) - 1) = Inr a1"
    "length a1 = length a" "\<And>i. i < n \<Longrightarrow> a1 ! (t + i) = ?a2 ! (s + i)"
    by simp_all
  from h have "\<forall>i<length ?a2. i < t \<or> t + n \<le> i \<longrightarrow> a1 ! i = ?a2 ! i"
    by blast
  then have a1': "\<And>i. i < length a \<Longrightarrow> i < t \<or> t + n \<le> i \<Longrightarrow> a1 ! i = ?a2 ! i"
    by (metis length_list_update)
  have rd: "?a2 ! (s + i) = a ! (s + i)" if "i \<le> n" for i
  proof (cases "s + i = t + n")
    case True
    with that Suc.prems(2) have "s = t" "i = n" by auto
    with tl show ?thesis by simp
  next
    case False
    then show ?thesis by simp
  qed
  have "a1 ! (t + i) = a ! (s + i)" if "i < Suc n" for i
  proof (cases "i = n")
    case True
    have "a1 ! (t + n) = ?a2 ! (t + n)" using tl by (intro a1') simp_all
    also have "\<dots> = a ! (s + n)" using tl by simp
    finally show ?thesis by (simp add: True)
  next
    case False
    with that have "i < n" by simp
    then show ?thesis using a1(3) [of i] rd [of i] by simp
  qed
  moreover have "a1 ! i = a ! i" if "i < length a" "i < t \<or> t + Suc n \<le> i" for i
  proof -
    have "a1 ! i = ?a2 ! i" using that by (intro a1') auto
    also have "\<dots> = a ! i" using that by auto
    finally show ?thesis .
  qed
  ultimately show ?case
    unfolding src dst un using a1(1,2) by blast
qed

lemma expand_loop_cells:
  assumes oks: "list_all2 axis_ok dims rs" and v: "0 < v"
    and small: "v * prod_list (map (\<lambda>d. cDivisions d + 1) dims) < 2 ^ 64"
  shows "grid_point rs p \<Longrightarrow> v * (mixed_radix rs p + 1) \<le> length a \<Longrightarrow>
    \<exists>a'. expand_loop v dims (expand_stack_of dims rs p) a
            (int (v * (cell_of dims p + 1)) - 1) (int (v * (mixed_radix rs p + 1)) - 1)
          = Inr (a', int v - 1) \<and>
      length a' = length a \<and>
      (\<forall>q. grid_point rs q \<and> mixed_radix rs q \<le> mixed_radix rs p \<longrightarrow>
         (\<forall>k<v. a' ! (v * mixed_radix rs q + k) = a ! (v * cell_of dims q + k))) \<and>
      (\<forall>i<length a. v * (mixed_radix rs p + 1) \<le> i \<longrightarrow> a' ! i = a ! i)"
proof (induction j \<equiv> "mixed_radix rs p" arbitrary: p a)
  case 0
  let ?j = "mixed_radix rs p"
  have cz: "cell_of dims p = 0"
    using cell_of_le [OF oks "0.prems"(1)] "0.hyps" by simp
  have "\<exists>a1. expand_copy v a (int (v * cell_of dims p + v) - 1) (int (v * ?j + v) - 1) = Inr a1 \<and>
      length a1 = length a \<and> (\<forall>i<v. a1 ! (v * ?j + i) = a ! (v * cell_of dims p + i)) \<and>
      (\<forall>i<length a. i < v * ?j \<or> v * ?j + v \<le> i \<longrightarrow> a1 ! i = a ! i)"
    using "0.prems"(2) "0.hyps" cz by (intro expand_copy_cell) simp_all
  then obtain a1 where a1: "expand_copy v a (int v - 1) (int v - 1) = Inr a1"
    "length a1 = length a" "\<And>i. i < v \<Longrightarrow> a1 ! i = a ! i"
    "\<And>i. i < length a \<Longrightarrow> v \<le> i \<Longrightarrow> a1 ! i = a ! i"
    using "0.hyps" cz by auto
  have run: "expand_loop v dims (expand_stack_of dims rs p) a (int v - 1) (int v - 1) = Inr (a1, int v - 1)"
    using v by (subst expand_loop.simps) (simp add: a1(1))
  have "a1 ! (v * mixed_radix rs q + k) = a ! (v * cell_of dims q + k)"
    if "grid_point rs q" "mixed_radix rs q \<le> ?j" "k < v" for q k
  proof -
    from that(2) "0.hyps" have z: "mixed_radix rs q = 0" by simp
    with cell_of_le [OF oks that(1)] have "cell_of dims q = 0" by simp
    with z a1(3) [OF that(3)] show ?thesis by simp
  qed
  with run a1(2,4) show ?case
    using "0.hyps" [symmetric] cz by simp
next
  case (Suc j)
  let ?j = "mixed_radix rs p"
  let ?o = "cell_of dims p"
  let ?p' = "grid_pred rs p"
  have jj: "?j = Suc j" using Suc.hyps(2) by simp
  have pos: "0 < ?j" using jj by simp
  have ole: "?o \<le> ?j" using oks Suc.prems(1) by (rule cell_of_le)
  have gp': "grid_point rs ?p'" using Suc.prems(1) by (rule grid_pred_point)
  have j': "mixed_radix rs ?p' = j"
    using mixed_radix_pred [OF Suc.prems(1) pos] jj by simp
  have disj: "v * ?o = v * ?j \<or> v * ?o + v \<le> v * ?j"
  proof (cases "?o = ?j")
    case True then show ?thesis by simp
  next
    case False
    with ole have "?o + 1 \<le> ?j" by simp
    then have "v * (?o + 1) \<le> v * ?j" by (rule mult_le_mono2)
    then show ?thesis by simp
  qed
  have "\<exists>a1. expand_copy v a (int (v * ?o + v) - 1) (int (v * ?j + v) - 1) = Inr a1 \<and>
      length a1 = length a \<and> (\<forall>i<v. a1 ! (v * ?j + i) = a ! (v * ?o + i)) \<and>
      (\<forall>i<length a. i < v * ?j \<or> v * ?j + v \<le> i \<longrightarrow> a1 ! i = a ! i)"
    using Suc.prems(2) disj by (intro expand_copy_cell) simp_all
  then obtain a1 where a1: "expand_copy v a (int (v * ?o + v) - 1) (int (v * ?j + v) - 1) = Inr a1"
    "length a1 = length a" "\<And>i. i < v \<Longrightarrow> a1 ! (v * ?j + i) = a ! (v * ?o + i)"
    "\<And>i. i < length a \<Longrightarrow> i < v * ?j \<or> v * ?j + v \<le> i \<Longrightarrow> a1 ! i = a ! i"
    by auto
  have step: "expand_step dims (expand_stack_of dims rs p) (int (v * ?o + v) - 1) v =
     Inr (expand_stack_of dims rs ?p',
          int (v * ?o + v) - 1 + int v * (int (cell_of dims ?p') - int ?o))"
    using oks Suc.prems(1) pos small by (rule expand_step_pred)
  have pv': "int (v * ?o + v) - 1 + int v * (int (cell_of dims ?p') - int ?o)
      = int (v * (cell_of dims ?p' + 1)) - 1"
    by (simp add: algebra_simps)
  have top': "int (v * ?j + v) - 1 - int v = int (v * (mixed_radix rs ?p' + 1)) - 1"
    by (simp add: j' jj algebra_simps)
  have nz: "int (v * ?j + v) - 1 - int v \<noteq> - 1"
    using pos v by (simp add: algebra_simps)
  have "0 < v * ?j + v" using v by simp
  then have "0 < int (v * ?j + v)" by (simp only: of_nat_0_less_iff)
  then have nn: "\<not> int (v * ?j + v) - 1 < 0" by linarith
  have len': "v * (mixed_radix rs ?p' + 1) \<le> length a1"
    using Suc.prems(2) by (simp add: j' jj a1(2))
  from Suc.hyps(1) [OF j' [symmetric] gp' len']
  obtain a' where a': "expand_loop v dims (expand_stack_of dims rs ?p') a1
            (int (v * (cell_of dims ?p' + 1)) - 1) (int (v * (mixed_radix rs ?p' + 1)) - 1)
          = Inr (a', int v - 1)"
      "length a' = length a1"
      "\<And>q k. grid_point rs q \<Longrightarrow> mixed_radix rs q \<le> mixed_radix rs ?p' \<Longrightarrow> k < v \<Longrightarrow>
         a' ! (v * mixed_radix rs q + k) = a1 ! (v * cell_of dims q + k)"
      "\<And>i. i < length a1 \<Longrightarrow> v * (mixed_radix rs ?p' + 1) \<le> i \<Longrightarrow> a' ! i = a1 ! i"
    by blast
  have run: "expand_loop v dims (expand_stack_of dims rs p) a
            (int (v * ?o + v) - 1) (int (v * ?j + v) - 1) = Inr (a', int v - 1)"
    using v nz nn
    apply (subst expand_loop.simps)
    apply (simp only: a1(1) step pv' top' a'(1) if_False sum.case prod.case)
    apply simp
    done
  have cells: "a' ! (v * mixed_radix rs q + k) = a ! (v * cell_of dims q + k)"
    if q: "grid_point rs q" "mixed_radix rs q \<le> ?j" "k < v" for q k
  proof (cases "mixed_radix rs q = ?j")
    case True
    with mixed_radix_inj [OF q(1) Suc.prems(1)] have qp: "q = p" by simp
    have "v * ?j + k < length a1" using Suc.prems(2) q(3) a1(2) by simp
    moreover have "v * (mixed_radix rs ?p' + 1) \<le> v * ?j + k" by (simp add: j' jj)
    ultimately have "a' ! (v * ?j + k) = a1 ! (v * ?j + k)" by (rule a'(4))
    with a1(3) [OF q(3)] show ?thesis by (simp add: qp)
  next
    case False
    with q(2) jj j' have le: "mixed_radix rs q \<le> mixed_radix rs ?p'" by simp
    have "cell_of dims q \<le> mixed_radix rs q" using oks q(1) by (rule cell_of_le)
    with le j' have "cell_of dims q + 1 \<le> ?j" by (simp add: jj)
    then have "v * (cell_of dims q + 1) \<le> v * ?j" by (rule mult_le_mono2)
    with q(3) have lt: "v * cell_of dims q + k < v * ?j" by simp
    with Suc.prems(2) have "v * cell_of dims q + k < length a" by simp
    with lt have "a1 ! (v * cell_of dims q + k) = a ! (v * cell_of dims q + k)"
      by (intro a1(4)) simp_all
    with a'(3) [OF q(1) le q(3)] show ?thesis by simp
  qed
  have frame: "a' ! i = a ! i" if "i < length a" "v * (?j + 1) \<le> i" for i
  proof -
    have "a' ! i = a1 ! i" using that by (intro a'(4)) (simp_all add: a1(2) j' jj)
    also have "\<dots> = a ! i" using that by (intro a1(4)) simp_all
    finally show ?thesis .
  qed
  have e1: "int (v * (?o + 1)) - 1 = int (v * ?o + v) - 1"
    and e2: "int (v * (?j + 1)) - 1 = int (v * ?j + v) - 1"
    by simp_all
  show ?case
    unfolding e1 e2 using run a'(2) a1(2) cells frame by auto
qed

subsection \<open>GetValue on a compact tensor\<close>

lemma GetValue_search_region:
  shows "sorted_wrt (<) cuts \<Longrightarrow> 0 \<le> low \<Longrightarrow> low \<le> high \<Longrightarrow> high < int (length cuts) \<Longrightarrow>
    (\<forall>i. int i < low \<longrightarrow> i < length cuts \<longrightarrow> cuts ! i < x) \<Longrightarrow>
    (\<forall>i. high < int i \<longrightarrow> i < length cuts \<longrightarrow> x \<le> cuts ! i) \<Longrightarrow>
    GetValue_search cuts x low high = Inr (int (region_of cuts x))"
proof (induction cuts x low high rule: GetValue_search.induct)
  case (1 aDiv d low high)
  note s = "1.prems"(1)
  note pr = "1.prems"(2-)
  let ?m = "(low + high) div 2"
  have m: "low \<le> ?m" "?m \<le> high" using pr(2) by simp_all
  then have mb: "0 \<le> ?m" "nat ?m < length aDiv"
    using pr(1,3) by simp_all
  let ?v = "aDiv ! nat ?m"
  have nn: "\<not> \<not> (0 \<le> ?m \<and> nat ?m < length aDiv)" using mb by simp
  have below: "aDiv ! i < ?v" if "i < nat ?m" for i
    using s that mb(2) by (intro sorted_wrt_nth_less)
  have above: "?v < aDiv ! i" if "nat ?m < i" "i < length aDiv" for i
    using s that by (intro sorted_wrt_nth_less)
  show ?case
  proof (cases "?v = d")
    case True
    have "region_of aDiv d = nat ?m"
    proof (rule region_of_eqI)
      show "nat ?m \<le> length aDiv" using mb(2) by simp
      show "aDiv ! i < d" if "i < nat ?m" for i using below [OF that] True by simp
      show "d \<le> aDiv ! i" if "nat ?m \<le> i" "i < length aDiv" for i
      proof (cases "i = nat ?m")
        case True
        with \<open>?v = d\<close> show ?thesis by simp
      next
        case False
        with that above [of i] \<open>?v = d\<close> show ?thesis by simp
      qed
    qed
    with True mb show ?thesis
      by (subst GetValue_search.simps) (simp add: Let_def)
  next
    case ne: False
    show ?thesis
    proof (cases "?v < d")
      case lt: True
      have lowinv: "aDiv ! i < d" if "int i < ?m + 1" "i < length aDiv" for i
      proof (cases "i = nat ?m")
        case True with lt show ?thesis by simp
      next
        case False
        with that mb have "i < nat ?m" by linarith
        from below [OF this] lt show ?thesis by simp
      qed
      show ?thesis
      proof (cases "?m + 1 \<le> high")
        case True
        have "GetValue_search aDiv d (?m + 1) high = Inr (int (region_of aDiv d))"
        proof (rule "1.IH" [OF refl nn refl ne refl refl, unfolded if_P [OF lt]])
          show "?m + 1 \<le> high" by (rule True)
          show "sorted_wrt (<) aDiv" by (rule s)
          show "0 \<le> ?m + 1" using mb by simp
          show "?m + 1 \<le> high" by (rule True)
          show "high < int (length aDiv)" by (rule pr(3))
          show "\<forall>i. int i < ?m + 1 \<longrightarrow> i < length aDiv \<longrightarrow> aDiv ! i < d"
            using lowinv by blast
          show "\<forall>i. high < int i \<longrightarrow> i < length aDiv \<longrightarrow> d \<le> aDiv ! i"
            by (rule pr(5))
        qed
        with mb ne lt True show ?thesis
          by (subst GetValue_search.simps) (simp add: Let_def)
      next
        case False
        with m have mh: "?m = high" by simp
        have "region_of aDiv d = nat ?m + 1"
        proof (rule region_of_eqI)
          show "nat ?m + 1 \<le> length aDiv" using mb(2) by simp
          show "aDiv ! i < d" if "i < nat ?m + 1" for i
            using that mb by (intro lowinv) simp_all
          show "d \<le> aDiv ! i" if "nat ?m + 1 \<le> i" "i < length aDiv" for i
            using that mh mb pr(5) by simp
        qed
        with mb ne lt False show ?thesis
          by (subst GetValue_search.simps) (simp add: Let_def)
      qed
    next
      case gt: False
      with ne have gt': "d < ?v" by simp
      have highinv: "d \<le> aDiv ! i" if "?m - 1 < int i" "i < length aDiv" for i
      proof (cases "i = nat ?m")
        case True with gt' show ?thesis by simp
      next
        case False
        with that mb have "nat ?m < i" by linarith
        from above [OF this that(2)] gt' show ?thesis by simp
      qed
      show ?thesis
      proof (cases "low \<le> ?m - 1")
        case True
        have "GetValue_search aDiv d low (?m - 1) = Inr (int (region_of aDiv d))"
        proof (rule "1.IH" [OF refl nn refl ne refl refl, unfolded if_not_P [OF gt]])
          show "low \<le> ?m - 1" by (rule True)
          show "sorted_wrt (<) aDiv" by (rule s)
          show "0 \<le> low" by (rule pr(1))
          show "low \<le> ?m - 1" by (rule True)
          show "?m - 1 < int (length aDiv)" using mb by simp
          show "\<forall>i. int i < low \<longrightarrow> i < length aDiv \<longrightarrow> aDiv ! i < d"
            by (rule pr(4))
          show "\<forall>i. ?m - 1 < int i \<longrightarrow> i < length aDiv \<longrightarrow> d \<le> aDiv ! i"
            using highinv by blast
        qed
        with mb ne gt True show ?thesis
          by (subst GetValue_search.simps) (simp add: Let_def)
      next
        case False
        with m have ml: "?m = low" by simp
        have "region_of aDiv d = nat ?m"
        proof (rule region_of_eqI)
          show "nat ?m \<le> length aDiv" using mb(2) by simp
          show "aDiv ! i < d" if "i < nat ?m" for i
            using that ml mb pr(4) by simp
          show "d \<le> aDiv ! i" if "nat ?m \<le> i" "i < length aDiv" for i
            using that mb by (intro highinv) simp_all
        qed
        with mb ne gt False show ?thesis
          by (subst GetValue_search.simps) (simp add: Let_def)
      qed
    qed
  qed
qed

lemma GetValue_compact_cell:
  "list_all2 axis_ok dims rs \<Longrightarrow> length p = length dims \<Longrightarrow> 0 \<le> iv \<Longrightarrow> iv < int vm \<Longrightarrow>
   vm * prod_list (map (\<lambda>d. cDivisions d + 1) dims) < 2 ^ 64 \<Longrightarrow>
   GetValue_compact dims (map int p) iv vm = Inr (iv + int vm * int (cell_of dims p))"
proof (induction dims arbitrary: rs p iv vm)
  case Nil
  then show ?case by (simp add: cell_of_Nil)
next
  case (Cons d dims)
  from Cons.prems(1) obtain r rs' where rs: "rs = r # rs'" and ok: "axis_ok d r"
    and oks: "list_all2 axis_ok dims rs'"
    by (auto simp: list_all2_Cons1)
  from Cons.prems(2) obtain x p' where p: "p = x # p'" "length p' = length dims"
    by (cases p) auto
  note c = axis_ok_cuts [OF ok]
  note hd = radix_prod_head [OF Cons.prems(5)]
  let ?g = "region_of (cuts_of d) (int x)"
  show ?case
  proof (cases "cDivisions d = 0")
    case True
    then have "cuts_of d = []" by (simp add: cuts_of_def)
    then have g0: "?g = 0" by (simp add: region_of_def)
    have b0: "vm * prod_list (map (\<lambda>d. cDivisions d + 1) dims) < 2 ^ 64"
      using hd(2) True by simp
    note ih = Cons.IH [OF oks p(2) Cons.prems(3,4) b0]
    from True g0 show ?thesis
      unfolding p(1) cell_of_Cons by (simp add: ih)
  next
    case False
    have "GetValue_search (cuts_of d) (int x) 0 (int (cDivisions d) - 1) = Inr (int ?g)"
      using False c(1) by (intro GetValue_search_region c(2)) simp_all
    then have se: "GetValue_search (take (cDivisions d) (aDivisions d)) (int x) 0
        (int (cDivisions d) - 1) = Inr (int ?g)"
      by (simp add: cuts_of_def)
    let ?iv' = "iv + int ?g * int vm"
    let ?vm' = "vm * (cDivisions d + 1)"
    have gle: "?g \<le> cDivisions d"
      using region_of_le_length [of "cuts_of d" "int x"] c(1) by simp
    then have "?g * vm \<le> cDivisions d * vm" by (rule mult_le_mono1)
    then have "int ?g * int vm \<le> int (cDivisions d * vm)"
      by (simp only: of_nat_mult [symmetric] of_nat_le_iff)
    with Cons.prems(4) have "?iv' < int vm + int (cDivisions d * vm)" by linarith
    also have "\<dots> = int ?vm'" by (simp add: algebra_simps)
    finally have lt: "?iv' < int ?vm'" .
    have nn: "0 \<le> ?iv'" using Cons.prems(3) by simp
    have v64: "?vm' < 2 ^ 64" using hd(1) by (simp add: add.commute)
    then have "int ?vm' < 2 ^ 64" by (simp only: of_nat_less_numeral_power_cancel_iff)
    with lt have "?iv' < 2 ^ 64" by (rule less_trans)
    with nn have m64: "?iv' mod 2 ^ 64 = ?iv'" by (rule mod_pos_pos_trivial)
    have w: "size_t_of ?vm' = ?vm'" using v64 by (rule size_t_of_id)
    have b': "?vm' * prod_list (map (\<lambda>d. cDivisions d + 1) dims) < 2 ^ 64"
      using hd(2) by (simp add: add.commute)
    note ih = Cons.IH [OF oks p(2) nn lt b']
    have "GetValue_compact (d # dims) (map int (x # p')) iv vm =
        GetValue_compact dims (map int p') (?iv' mod 2 ^ 64) (size_t_of ?vm')"
      using False by (simp add: se)
    also have "\<dots> = GetValue_compact dims (map int p') ?iv' ?vm'"
      unfolding m64 w ..
    also have "\<dots> = Inr (?iv' + int ?vm' * int (cell_of dims p'))" by (rule ih)
    also have "\<dots> = Inr (iv + int vm * int (cell_of (d # dims) (x # p')))"
      unfolding cell_of_Cons by (simp add: algebra_simps)
    finally show ?thesis unfolding p(1) .
  qed
qed

subsection \<open>The cuts that Expand writes\<close>

lemma identity_loop_result:
  "n \<le> length a \<Longrightarrow> i \<le> n \<Longrightarrow>
   identity_loop n i a = Inr (take i a @ map int [i..<n] @ drop n a)"
proof (induction n i a rule: identity_loop.induct)
  case (1 n i a)
  show ?case
  proof (cases "i < n")
    case True
    have "identity_loop n (Suc i) (a[i := int i]) =
        Inr (take (Suc i) (a[i := int i]) @ map int [Suc i..<n] @ drop n (a[i := int i]))"
      using True "1.prems" by (intro "1.IH") simp_all
    moreover have "take (Suc i) (a[i := int i]) = take i a @ [int i]"
      using True "1.prems" by (simp add: take_Suc_conv_app_nth)
    moreover have "drop n (a[i := int i]) = drop n a"
      using True by simp
    moreover have "[i..<n] = i # [Suc i..<n]"
      using True by (simp add: upt_conv_Cons)
    ultimately show ?thesis
      using True "1.prems" by (subst identity_loop.simps) simp
  next
    case False
    with "1.prems" show ?thesis
      by (subst identity_loop.simps) simp
  qed
qed

lemma sorted_lower:
  "sorted_wrt (<) (cs::int list) \<Longrightarrow> list_all (\<lambda>c. 0 \<le> c \<and> P c) cs \<Longrightarrow> i < length cs \<Longrightarrow>
   int i \<le> cs ! i"
proof (induction i)
  case 0
  then show ?case by (simp add: list_all_length)
next
  case (Suc i)
  then have "cs ! i < cs ! Suc i" by (intro sorted_wrt_nth_less) simp_all
  with Suc show ?case by simp
qed

lemma sorted_upper:
  "sorted_wrt (<) (cs::int list) \<Longrightarrow> list_all (\<lambda>c. P c \<and> c + 2 \<le> int r) cs \<Longrightarrow>
   length cs = r - 1 \<Longrightarrow> k < length cs \<Longrightarrow> cs ! (length cs - 1 - k) \<le> int (length cs - 1 - k)"
proof (induction k)
  case 0
  then have "cs ! (length cs - 1) + 2 \<le> int r" by (simp add: list_all_length)
  with 0 show ?case by simp
next
  case (Suc k)
  then have "cs ! (length cs - 1 - Suc k) < cs ! (length cs - 1 - k)"
    by (intro sorted_wrt_nth_less) simp_all
  moreover have "cs ! (length cs - 1 - k) \<le> int (length cs - 1 - k)"
    using Suc by simp
  moreover have "int (length cs - 1 - k) = int (length cs - 1 - Suc k) + 1"
    using Suc.prems(4) by simp
  ultimately show ?case by simp
qed

lemma sorted_range_identity:
  assumes "sorted_wrt (<) (cs::int list)" "list_all (\<lambda>c. 0 \<le> c \<and> c + 2 \<le> int r) cs"
    "length cs = r - 1"
  shows "cs = map int [0..<r - 1]"
proof (rule nth_equalityI)
  show "length cs = length (map int [0..<r - 1])" using assms(3) by simp
  fix i assume i: "i < length cs"
  have "int i \<le> cs ! i" using assms(1,2) i by (rule sorted_lower)
  moreover have "cs ! (length cs - 1 - (length cs - 1 - i)) \<le> int (length cs - 1 - (length cs - 1 - i))"
    using assms i by (intro sorted_upper) simp_all
  moreover have "length cs - 1 - (length cs - 1 - i) = i" using i by simp
  ultimately have "cs ! i = int i" by simp
  with i assms(3) show "cs ! i = map int [0..<r - 1] ! i" by simp
qed

lemma size_sub_1: "1 \<le> r \<Longrightarrow> r < 2 ^ 63 \<Longrightarrow> nat (size_sub r 1) = r - 1"
proof -
  assume "1 \<le> r" "r < 2 ^ 63"
  then have "0 \<le> int r - 1" "int r - 1 < 2 ^ 64" by simp_all
  then have "(int r - 1) mod 2 ^ 64 = int r - 1" by simp
  then show ?thesis by (simp add: size_sub_def)
qed

lemma realloc_cells:
  assumes "n < 2 ^ 60"
  shows "size_t_of (8 * size_t_of (n + n div 2)) div 8 = n + n div 2"
proof -
  from assms have b: "8 * (n + n div 2) < 2 ^ 64" by simp
  then have "n + n div 2 < 2 ^ 64" by simp
  then have "size_t_of (n + n div 2) = n + n div 2" by (rule size_t_of_id)
  with b show ?thesis by (simp add: size_t_of_id)
qed

lemma SetCountDivisions_grow:
  assumes "\<forall>n. ok n" "\<not> m_bExpanded t" "i < m_cDimensions t" "i < length (m_aDimensions t)"
    and small: "n < 2 ^ 60"
  shows "\<exists>a. n \<le> length a \<and> SetCountDivisions ok junk i n t =
     Inr (False, t\<lparr>m_aDimensions := (m_aDimensions t)[i := \<lparr>cDivisions = n, aDivisions = a\<rparr>]\<rparr>)"
proof (cases "length (aDivisions (m_aDimensions t ! i)) < n")
  case True
  let ?a = "realloc_list junk (n + n div 2) (aDivisions (m_aDimensions t ! i))"
  have "n \<le> length ?a" using True by (simp add: realloc_list_def)
  moreover have "SetCountDivisions ok junk i n t =
     Inr (False, t\<lparr>m_aDimensions := (m_aDimensions t)[i := \<lparr>cDivisions = n, aDivisions = ?a\<rparr>]\<rparr>)"
    using assms(1-4) True
    by (simp add: SetCountDivisions_def Let_def sizeof_TDivisions_def realloc_cells [OF small])
  ultimately show ?thesis by blast
next
  case False
  let ?a = "aDivisions (m_aDimensions t ! i)"
  have "n \<le> length ?a" using False by simp
  moreover have eq: "\<lparr>cDivisions = n, aDivisions = ?a\<rparr> = (m_aDimensions t ! i)\<lparr>cDivisions := n\<rparr>"
    by simp
  have "SetCountDivisions ok junk i n t =
     Inr (False, t\<lparr>m_aDimensions := (m_aDimensions t)[i := \<lparr>cDivisions = n, aDivisions = ?a\<rparr>]\<rparr>)"
    unfolding eq using assms(1-4) False by (simp add: SetCountDivisions_def Let_def)
  ultimately show ?thesis by blast
qed

text \<open>The cuts of a dimension are the identity sequence for \<open>r\<close> bins.\<close>

lemma expand_cuts_result:
  assumes ok: "\<forall>n. ok n" and len: "length rs = N" and small: "\<And>i. i < N \<Longrightarrow> rs ! i < 2 ^ 60"
  shows "k \<le> N \<Longrightarrow> N \<le> m_cDimensions t \<Longrightarrow> N \<le> length (m_aDimensions t) \<Longrightarrow>
    \<not> m_bExpanded t \<Longrightarrow>
    (\<forall>i<N. N - k \<le> i \<longrightarrow> axis_ok (m_aDimensions t ! i) (rs ! i)) \<Longrightarrow>
    \<exists>ds. expand_cuts ok junk rs N k t = Inr (False, t\<lparr>m_aDimensions := ds\<rparr>) \<and>
      length ds = length (m_aDimensions t) \<and>
      (\<forall>i. i < N - k \<longrightarrow> ds ! i = m_aDimensions t ! i) \<and>
      (\<forall>i<N. N - k \<le> i \<longrightarrow> cDivisions (ds ! i) = rs ! i - 1 \<and>
          cuts_of (ds ! i) = map int [0..<rs ! i - 1])"
proof (induction k arbitrary: t)
  case 0
  have "t\<lparr>m_aDimensions := m_aDimensions t\<rparr> = t" by simp
  then show ?case by (intro exI [of _ "m_aDimensions t"]) simp
next
  case (Suc k)
  let ?i = "N - Suc k"
  let ?d = "m_aDimensions t ! ?i"
  let ?r = "rs ! ?i"
  have iN: "?i < N" using Suc.prems(1) by simp
  have nk: "N - k = Suc ?i" using Suc.prems(1) by simp
  have okd: "axis_ok ?d ?r" using Suc.prems(5) iN by simp
  note c = axis_ok_cuts [OF okd]
  have sz0: "nat (size_sub ?r 1) = ?r - 1" using c(4,5) by (rule size_sub_1)
  then have sz: "nat (size_sub ?r (Suc 0)) = ?r - Suc 0" by simp
  have bounds: "?i < length rs" "?i < length (m_aDimensions t)"
    using iN len Suc.prems(3) by simp_all
  show ?case
  proof (cases "?r - 1 = cDivisions ?d")
    case True
    have "\<exists>ds. expand_cuts ok junk rs N k t = Inr (False, t\<lparr>m_aDimensions := ds\<rparr>) \<and>
      length ds = length (m_aDimensions t) \<and>
      (\<forall>i. i < N - k \<longrightarrow> ds ! i = m_aDimensions t ! i) \<and>
      (\<forall>i<N. N - k \<le> i \<longrightarrow> cDivisions (ds ! i) = rs ! i - 1 \<and>
          cuts_of (ds ! i) = map int [0..<rs ! i - 1])"
      using Suc.prems by (intro Suc.IH) simp_all
    then obtain ds where ds: "expand_cuts ok junk rs N k t = Inr (False, t\<lparr>m_aDimensions := ds\<rparr>)"
      "length ds = length (m_aDimensions t)"
      "\<forall>i. i < N - k \<longrightarrow> ds ! i = m_aDimensions t ! i"
      "\<forall>i<N. N - k \<le> i \<longrightarrow> cDivisions (ds ! i) = rs ! i - 1 \<and>
          cuts_of (ds ! i) = map int [0..<rs ! i - 1]"
      by blast
    have same: "ds ! ?i = ?d" using ds(3) nk by simp
    have "cuts_of ?d = map int [0..<?r - 1]"
      using c(2,3) c(1) True by (intro sorted_range_identity) simp_all
    with same True have here: "cDivisions (ds ! ?i) = ?r - 1 \<and> cuts_of (ds ! ?i) = map int [0..<?r - 1]"
      by simp
    have run: "expand_cuts ok junk rs N (Suc k) t = Inr (False, t\<lparr>m_aDimensions := ds\<rparr>)"
      using bounds True by (simp add: Let_def sz ds(1))
    have "\<forall>i<N. ?i \<le> i \<longrightarrow> cDivisions (ds ! i) = rs ! i - 1 \<and>
          cuts_of (ds ! i) = map int [0..<rs ! i - 1]"
    proof (intro allI impI)
      fix i assume "i < N" "?i \<le> i"
      show "cDivisions (ds ! i) = rs ! i - 1 \<and> cuts_of (ds ! i) = map int [0..<rs ! i - 1]"
      proof (cases "i = ?i")
        case True with here show ?thesis by simp
      next
        case False
        with \<open>?i \<le> i\<close> nk have "N - k \<le> i" by simp
        with ds(4) \<open>i < N\<close> show ?thesis by simp
      qed
    qed
    moreover have "\<forall>i. i < ?i \<longrightarrow> ds ! i = m_aDimensions t ! i"
      using ds(3) nk by simp
    ultimately show ?thesis using run ds(2) by blast
  next
    case False
    have "?i < m_cDimensions t" using iN Suc.prems(2) by simp
    have "?r - 1 < 2 ^ 60" using small [OF iN] by simp
    from SetCountDivisions_grow [OF ok Suc.prems(4) \<open>?i < m_cDimensions t\<close> bounds(2) this, of junk]
    obtain a where a: "?r - 1 \<le> length a"
      "SetCountDivisions ok junk ?i (?r - 1) t =
        Inr (False, t\<lparr>m_aDimensions := (m_aDimensions t)[?i := \<lparr>cDivisions = ?r - 1, aDivisions = a\<rparr>]\<rparr>)"
      by blast
    let ?a' = "map int [0..<?r - 1] @ drop (?r - 1) a"
    let ?ds1 = "(m_aDimensions t)[?i := \<lparr>cDivisions = ?r - 1, aDivisions = ?a'\<rparr>]"
    let ?t1 = "t\<lparr>m_aDimensions := ?ds1\<rparr>"
    have il: "identity_loop (?r - 1) 0 a = Inr ?a'"
      using identity_loop_result [OF a(1), of 0] by simp
    have run: "expand_cuts ok junk rs N (Suc k) t = expand_cuts ok junk rs N k ?t1"
      using bounds False
      by (simp add: Let_def sz a(2) [unfolded One_nat_def] il [unfolded One_nat_def])
    have "\<exists>ds. expand_cuts ok junk rs N k ?t1 = Inr (False, ?t1\<lparr>m_aDimensions := ds\<rparr>) \<and>
      length ds = length (m_aDimensions ?t1) \<and>
      (\<forall>i. i < N - k \<longrightarrow> ds ! i = m_aDimensions ?t1 ! i) \<and>
      (\<forall>i<N. N - k \<le> i \<longrightarrow> cDivisions (ds ! i) = rs ! i - 1 \<and>
          cuts_of (ds ! i) = map int [0..<rs ! i - 1])"
      using Suc.prems nk by (intro Suc.IH) simp_all
    then obtain ds where ds: "expand_cuts ok junk rs N k ?t1 = Inr (False, ?t1\<lparr>m_aDimensions := ds\<rparr>)"
      "length ds = length (m_aDimensions ?t1)"
      "\<forall>i. i < N - k \<longrightarrow> ds ! i = m_aDimensions ?t1 ! i"
      "\<forall>i<N. N - k \<le> i \<longrightarrow> cDivisions (ds ! i) = rs ! i - 1 \<and>
          cuts_of (ds ! i) = map int [0..<rs ! i - 1]"
      by blast
    have same: "ds ! ?i = \<lparr>cDivisions = ?r - 1, aDivisions = ?a'\<rparr>"
      using ds(3) nk bounds(2) by simp
    have here: "cDivisions (ds ! ?i) = ?r - 1 \<and> cuts_of (ds ! ?i) = map int [0..<?r - 1]"
      unfolding same by (simp add: cuts_of_def)
    have t1: "?t1\<lparr>m_aDimensions := ds\<rparr> = t\<lparr>m_aDimensions := ds\<rparr>" by simp
    have "\<forall>i<N. ?i \<le> i \<longrightarrow> cDivisions (ds ! i) = rs ! i - 1 \<and>
          cuts_of (ds ! i) = map int [0..<rs ! i - 1]"
    proof (intro allI impI)
      fix i assume "i < N" "?i \<le> i"
      show "cDivisions (ds ! i) = rs ! i - 1 \<and> cuts_of (ds ! i) = map int [0..<rs ! i - 1]"
      proof (cases "i = ?i")
        case True with here show ?thesis by simp
      next
        case False
        with \<open>?i \<le> i\<close> nk have "N - k \<le> i" by simp
        with ds(4) \<open>i < N\<close> show ?thesis by simp
      qed
    qed
    moreover have "\<forall>i. i < ?i \<longrightarrow> ds ! i = m_aDimensions t ! i"
      using ds(3) nk by simp
    moreover have "length ds = length (m_aDimensions t)" using ds(2) by simp
    ultimately show ?thesis using run ds(1) t1 by (metis (no_types, lifting))
  qed
qed

subsection \<open>Expand as a whole\<close>

lemma expand_stack_entry_top:
  assumes "axis_ok d r"
  shows "expand_stack_entry d r = expand_stack_at d r (r - 1)"
proof -
  note c = axis_ok_cuts [OF assms]
  have r1: "int (r - 1) = int r - 1" using c(4) by simp
  have top: "region_of (cuts_of d) (int (r - 1)) = cDivisions d"
    unfolding r1 using region_of_top [OF c(3)] c(1) by simp
  show ?thesis
    unfolding expand_stack_at_eq [OF top, of r] r1 expand_stack_entry_def Let_def
      to_ptrdiff_size_sub_2 [OF c(4,5)]
    by simp
qed

lemma expand_top_point:
  "list_all2 axis_ok dims rs \<Longrightarrow>
   map2 expand_stack_entry dims rs = expand_stack_of dims rs (map (\<lambda>r. r - 1) rs) \<and>
   grid_point rs (map (\<lambda>r. r - 1) rs) \<and>
   mixed_radix rs (map (\<lambda>r. r - 1) rs) + 1 = prod_list rs \<and>
   cell_of dims (map (\<lambda>r. r - 1) rs) + 1 = prod_list (map (\<lambda>d. cDivisions d + 1) dims)"
proof (induction dims arbitrary: rs)
  case Nil
  then show ?case by (simp add: cell_of_Nil)
next
  case (Cons d dims)
  from Cons.prems obtain r rs' where rs: "rs = r # rs'" and ok: "axis_ok d r"
    and oks: "list_all2 axis_ok dims rs'"
    by (auto simp: list_all2_Cons1)
  note c = axis_ok_cuts [OF ok]
  note ih = Cons.IH [OF oks]
  have r1: "int (r - 1) = int r - 1" using c(4) by simp
  have top: "region_of (cuts_of d) (int (r - 1)) = cDivisions d"
    unfolding r1 using region_of_top [OF c(3)] c(1) by simp
  let ?p = "map (\<lambda>r. r - 1) rs'"
  have 1: "map2 expand_stack_entry (d # dims) (r # rs') =
      expand_stack_of (d # dims) (r # rs') ((r - 1) # ?p)"
    using ih expand_stack_entry_top [OF ok] by simp
  have 2: "grid_point (r # rs') ((r - 1) # ?p)"
    using ih c(4) by (simp add: grid_point_Cons)
  have "mixed_radix (r # rs') ((r - 1) # ?p) + 1 = (r - 1) + 1 + r * mixed_radix rs' ?p"
    by simp
  also have "\<dots> = r * (mixed_radix rs' ?p + 1)" using c(4) by simp
  also have "\<dots> = prod_list (r # rs')" using ih by simp
  finally have 3: "mixed_radix (r # rs') ((r - 1) # ?p) + 1 = prod_list (r # rs')" .
  have "cell_of (d # dims) ((r - 1) # ?p) + 1 = (cDivisions d + 1) * (cell_of dims ?p + 1)"
    unfolding cell_of_Cons top by simp
  also have "\<dots> = prod_list (map (\<lambda>d. cDivisions d + 1) (d # dims))" using ih by simp
  finally have 4: "cell_of (d # dims) ((r - 1) # ?p) + 1 =
      prod_list (map (\<lambda>d. cDivisions d + 1) (d # dims))" .
  have 5: "map (\<lambda>r. r - 1) (r # rs') = (r - 1) # ?p" by simp
  show ?case unfolding rs 5 by (intro conjI 1 2 3 4)
qed

lemma prod_list_member_le:
  "list_all (\<lambda>r. 1 \<le> r) rs \<Longrightarrow> r \<in> set rs \<Longrightarrow> r \<le> prod_list (rs::nat list)"
proof (induction rs)
  case Nil
  then show ?case by simp
next
  case (Cons x rs)
  from Cons.prems(1) have x: "1 \<le> x" and rs: "list_all (\<lambda>r. 1 \<le> r) rs" by simp_all
  have p: "1 \<le> prod_list rs" using rs by (induction rs) simp_all
  show ?case
  proof (cases "r = x")
    case True
    have "x * 1 \<le> x * prod_list rs" using p by (rule mult_le_mono2)
    with True show ?thesis by simp
  next
    case False
    with Cons.prems(2) have "r \<in> set rs" by simp
    with rs have "r \<le> prod_list rs" by (rule Cons.IH)
    also have "\<dots> = 1 * prod_list rs" by simp
    also have "\<dots> \<le> x * prod_list rs" using x by (rule mult_le_mono1)
    finally show ?thesis by simp
  qed
qed

lemma EnsureValueCapacity_grow:
  assumes "\<forall>n. ok n" "\<not> m_bExpanded t" and small: "n < 2 ^ 60"
  shows "\<exists>a. EnsureValueCapacity ok junk n t = Inr (False, t\<lparr>m_aValues := a\<rparr>) \<and>
     n \<le> length a \<and> length (m_aValues t) \<le> length a \<and>
     (\<forall>i<length (m_aValues t). a ! i = m_aValues t ! i)"
proof (cases "length (m_aValues t) < n")
  case True
  let ?a = "realloc_list junk (n + n div 2) (m_aValues t)"
  have "EnsureValueCapacity ok junk n t = Inr (False, t\<lparr>m_aValues := ?a\<rparr>)"
    using assms(1,2) True
    by (simp add: EnsureValueCapacity_def Let_def sizeof_TValues_def realloc_cells [OF small])
  moreover have "n \<le> length ?a" "length (m_aValues t) \<le> length ?a"
    using True by (simp_all add: realloc_list_def)
  moreover have "\<forall>i<length (m_aValues t). ?a ! i = m_aValues t ! i"
    using True by (simp add: realloc_list_def nth_append)
  ultimately show ?thesis by blast
next
  case False
  have "t\<lparr>m_aValues := m_aValues t\<rparr> = t" by simp
  with False show ?thesis
    by (intro exI [of _ "m_aValues t"]) (simp add: EnsureValueCapacity_def)
qed

lemma GetValue_compact_tensor:
  assumes "tensor_ok t rs" "\<not> m_bExpanded t" "length p = m_cDimensions t"
    "m_cVectorLength t * prod_list (map (\<lambda>d. cDivisions d + 1)
        (take (m_cDimensions t) (m_aDimensions t))) < 2 ^ 64"
  shows "GetValue t (map int p) =
     Inr (int (m_cVectorLength t * cell_of (take (m_cDimensions t) (m_aDimensions t)) p))"
proof -
  let ?dims = "take (m_cDimensions t) (m_aDimensions t)"
  have ok: "list_all2 axis_ok ?dims rs" and n: "0 < m_cDimensions t"
    and l: "m_cDimensions t \<le> length (m_aDimensions t)"
    and v: "0 < m_cVectorLength t"
    using assms(1) by (simp_all add: tensor_ok_def)
  have lp: "length p = length ?dims" using assms(3) l by simp
  have v0: "(0::int) < int (m_cVectorLength t)" using v by simp
  have "GetValue_compact ?dims (map int p) 0 (m_cVectorLength t) =
      Inr (0 + int (m_cVectorLength t) * int (cell_of ?dims p))"
    using ok lp order_refl v0 assms(4) by (rule GetValue_compact_cell)
  then show ?thesis
    using n l assms(2,3) by (simp add: GetValue_def)
qed

text \<open>
  Claim C5, as the code has it. A compact tensor is expanded for a grid with \<open>rs ! d\<close>
  bins on axis \<open>d\<close>; its cuts are strictly ascending and lie between \<open>0\<close> and
  \<open>rs ! d - 2\<close> (so that \<open>rs ! d\<close> is at least the number of cuts plus one), the
  dense grid has fewer than \<open>2 ^ 60\<close> values (the vector length times the product of the
  \<open>rs ! d\<close>), so that no size computed in \<open>size_t\<close> wraps around, and the
  reallocations succeed. Then Expand returns \<open>false\<close> (no error), the tensor is flagged
  expanded, every axis has the \<open>rs ! d - 1\<close> cuts \<open>0, 1, ..., rs ! d - 2\<close>, and the cell of
  every bin tuple \<open>p\<close> of the dense grid holds the values that GetValue finds for \<open>p\<close> in
  the original tensor. A cut \<open>c\<close> lies between bin \<open>c\<close> and bin \<open>c + 1\<close>: the tensor
  with the cut 2 and the values 10, 20 on five bins expands to 10, 10, 10, 20, 20.
\<close>

theorem Expand_dense_grid:
  assumes wf: "tensor_ok t rs" and ne: "\<not> m_bExpanded t" and ok: "\<forall>n. ok n"
    and size: "m_cVectorLength t * prod_list rs < 2 ^ 60"
  shows "\<exists>t'. Expand ok junkv junkd rs t = Inr (False, t') \<and> m_bExpanded t' \<and>
     m_cDimensions t' = m_cDimensions t \<and> m_cVectorLength t' = m_cVectorLength t \<and>
     (\<forall>d<m_cDimensions t. cDivisions (m_aDimensions t' ! d) = rs ! d - 1 \<and>
        cuts_of (m_aDimensions t' ! d) = map int [0..<rs ! d - 1]) \<and>
     (\<forall>p. grid_point rs p \<longrightarrow>
        (\<exists>i. GetValue t (map int p) = Inr (int i) \<and>
          (\<forall>k<m_cVectorLength t.
             m_aValues t' ! (m_cVectorLength t * mixed_radix rs p + k) = m_aValues t ! (i + k))))"
proof -
  let ?N = "m_cDimensions t"
  let ?v = "m_cVectorLength t"
  let ?dims = "take ?N (m_aDimensions t)"
  let ?top = "map (\<lambda>r. r - 1) rs"
  from wf have oks: "list_all2 axis_ok ?dims rs" and n: "0 < ?N" and v: "0 < ?v"
    and l: "?N \<le> length (m_aDimensions t)" and lr: "length rs = ?N"
    and vals: "?v * prod_list (map (\<lambda>d. cDivisions d + 1) ?dims) \<le> length (m_aValues t)"
    by (simp_all add: tensor_ok_def)
  note tp = expand_top_point [OF oks]
  have sz: "prod_list rs * ?v < 2 ^ 60" using size by (simp add: mult.commute)
  have "prod_list rs * 1 \<le> prod_list rs * ?v" using v by (intro mult_le_mono2) simp
  then have "prod_list rs \<le> prod_list rs * ?v" by simp
  from this sz have pr: "prod_list rs < 2 ^ 60" by (rule le_less_trans)
  have r1: "list_all (\<lambda>r. 1 \<le> r) rs"
    unfolding list_all_length
  proof (intro allI impI)
    fix i assume i: "i < length rs"
    from oks i have "axis_ok (?dims ! i) (rs ! i)" by (rule list_all2_nthD2)
    then show "1 \<le> rs ! i" by (simp add: axis_ok_def)
  qed
  have small: "rs ! i < 2 ^ 60" if "i < ?N" for i
  proof -
    have "rs ! i \<in> set rs" using that lr by simp
    with r1 have "rs ! i \<le> prod_list rs" by (rule prod_list_member_le)
    with pr show ?thesis by simp
  qed
  have c1le: "prod_list (map (\<lambda>d. cDivisions d + 1) ?dims) \<le> prod_list rs"
  proof -
    have "cell_of ?dims ?top \<le> mixed_radix rs ?top"
      using oks tp by (intro cell_of_le) simp_all
    with tp show ?thesis by simp
  qed
  have lt64: "n < 2 ^ 60 \<Longrightarrow> n < 2 ^ 64" for n :: nat
  proof -
    assume "n < 2 ^ 60"
    moreover have "(2::nat) ^ 60 \<le> 2 ^ 64" by simp
    ultimately show ?thesis by (rule less_le_trans)
  qed
  have "?v * prod_list (map (\<lambda>d. cDivisions d + 1) ?dims) \<le> ?v * prod_list rs"
    using c1le by (rule mult_le_mono2)
  from this size have vc1: "?v * prod_list (map (\<lambda>d. cDivisions d + 1) ?dims) < 2 ^ 60"
    by (rule le_less_trans)
  have s1: "size_t_of (prod_list rs) = prod_list rs"
    using pr by (intro size_t_of_id lt64)
  have s2: "size_t_of (prod_list (map (\<lambda>d. cDivisions d + 1) ?dims))
      = prod_list (map (\<lambda>d. cDivisions d + 1) ?dims)"
    using c1le pr by (intro size_t_of_id lt64) simp
  have s3: "size_t_of (prod_list rs * ?v) = prod_list rs * ?v"
    using sz by (intro size_t_of_id lt64)
  have s4: "size_t_of (?v * prod_list (map (\<lambda>d. cDivisions d + 1) ?dims))
      = ?v * prod_list (map (\<lambda>d. cDivisions d + 1) ?dims)"
    using vc1 by (intro size_t_of_id lt64)
  have s5: "size_t_of (?v * prod_list rs) = ?v * prod_list rs"
    using size by (intro size_t_of_id lt64)
  from EnsureValueCapacity_grow [OF ok ne sz, of junkv]
  obtain a0 where a0: "EnsureValueCapacity ok junkv (prod_list rs * ?v) t
        = Inr (False, t\<lparr>m_aValues := a0\<rparr>)"
      "prod_list rs * ?v \<le> length a0" "length (m_aValues t) \<le> length a0"
      "\<forall>i<length (m_aValues t). a0 ! i = m_aValues t ! i"
    by blast
  have len0: "?v * (mixed_radix rs ?top + 1) \<le> length a0"
    using a0(2) tp by (simp add: mult.commute)
  from expand_loop_cells [OF oks v lt64 [OF vc1] _ len0] tp
  obtain a' where a': "expand_loop ?v ?dims (expand_stack_of ?dims rs ?top) a0
            (int (?v * (cell_of ?dims ?top + 1)) - 1) (int (?v * (mixed_radix rs ?top + 1)) - 1)
          = Inr (a', int ?v - 1)"
      "length a' = length a0"
      "\<forall>q. grid_point rs q \<and> mixed_radix rs q \<le> mixed_radix rs ?top \<longrightarrow>
         (\<forall>k<?v. a' ! (?v * mixed_radix rs q + k) = a0 ! (?v * cell_of ?dims q + k))"
    by blast
  let ?t1 = "t\<lparr>m_aValues := a'\<rparr>"
  have "\<exists>ds. expand_cuts ok junkd rs ?N ?N ?t1 = Inr (False, ?t1\<lparr>m_aDimensions := ds\<rparr>) \<and>
      length ds = length (m_aDimensions ?t1) \<and>
      (\<forall>i. i < ?N - ?N \<longrightarrow> ds ! i = m_aDimensions ?t1 ! i) \<and>
      (\<forall>i<?N. ?N - ?N \<le> i \<longrightarrow> cDivisions (ds ! i) = rs ! i - 1 \<and>
          cuts_of (ds ! i) = map int [0..<rs ! i - 1])"
  proof (rule expand_cuts_result [OF ok lr small])
    show "?N \<le> ?N" by simp
    show "?N \<le> m_cDimensions ?t1" by simp
    show "?N \<le> length (m_aDimensions ?t1)" using l by simp
    show "\<not> m_bExpanded ?t1" using ne by simp
    show "\<forall>i<?N. ?N - ?N \<le> i \<longrightarrow> axis_ok (m_aDimensions ?t1 ! i) (rs ! i)"
      using oks l by (auto simp: list_all2_conv_all_nth)
  qed
  then obtain ds where ds: "expand_cuts ok junkd rs ?N ?N ?t1 = Inr (False, ?t1\<lparr>m_aDimensions := ds\<rparr>)"
      "\<forall>i<?N. cDivisions (ds ! i) = rs ! i - 1 \<and> cuts_of (ds ! i) = map int [0..<rs ! i - 1]"
    by auto
  let ?t' = "?t1\<lparr>m_aDimensions := ds, m_bExpanded := True\<rparr>"
  have e1: "int (?v * prod_list (map (\<lambda>d. cDivisions d + 1) ?dims)) - 1
      = int (?v * (cell_of ?dims ?top + 1)) - 1"
    and e2: "int (?v * prod_list rs) - 1 = int (?v * (mixed_radix rs ?top + 1)) - 1"
    using tp by simp_all
  have st: "map2 expand_stack_entry ?dims rs = expand_stack_of ?dims rs ?top"
    using tp by simp
  have lp: "expand_loop ?v ?dims (map2 expand_stack_entry ?dims rs) a0
      (int (?v * prod_list (map (\<lambda>d. cDivisions d + 1) ?dims)) - 1)
      (int (?v * prod_list rs) - 1) = Inr (a', int ?v - 1)"
    unfolding e1 e2 st by (rule a'(1))
  have tk: "take ?N rs = rs" using lr by simp
  have run: "Expand ok junkv junkd rs t = Inr (False, ?t')"
    unfolding Expand_def Let_def tk s1 s2 s3 s4 s5
    using ne n l lr a0(1) lp ds(1)
    by simp
  have grid: "\<exists>i. GetValue t (map int p) = Inr (int i) \<and>
          (\<forall>k<?v. m_aValues ?t' ! (?v * mixed_radix rs p + k) = m_aValues t ! (i + k))"
    if gp: "grid_point rs p" for p
  proof -
    have lp: "length p = ?N" using grid_point_length [OF gp] lr by simp
    have g: "GetValue t (map int p) = Inr (int (?v * cell_of ?dims p))"
      using wf ne lp lt64 [OF vc1] by (rule GetValue_compact_tensor)
    have "mixed_radix rs p < prod_list rs" using gp by (rule mixed_radix_less)
    with tp have le: "mixed_radix rs p \<le> mixed_radix rs ?top" by simp
    have "cell_of ?dims p \<le> cell_of ?dims ?top"
    proof -
      have "cell_of ?dims p < prod_list (map (\<lambda>d. cDivisions d + 1) ?dims)"
        unfolding cell_of_def
        by (rule mixed_radix_less)
           (use lp l in \<open>auto simp: grid_point_def list_all2_conv_all_nth
              intro!: le_imp_less_Suc region_of_le_length [THEN order_trans]
              simp: cuts_of_def\<close>)
      with tp show ?thesis by simp
    qed
    have inb: "?v * cell_of ?dims p + k < length (m_aValues t)" if "k < ?v" for k
    proof -
      have "cell_of ?dims p + 1 \<le> prod_list (map (\<lambda>d. cDivisions d + 1) ?dims)"
        using \<open>cell_of ?dims p \<le> cell_of ?dims ?top\<close> tp by simp
      then have "?v * (cell_of ?dims p + 1) \<le> ?v * prod_list (map (\<lambda>d. cDivisions d + 1) ?dims)"
        by (rule mult_le_mono2)
      with vals that show ?thesis by simp
    qed
    have "m_aValues ?t' ! (?v * mixed_radix rs p + k) = m_aValues t ! (?v * cell_of ?dims p + k)"
      if "k < ?v" for k
      using a'(3) gp le that a0(4) inb [OF that] by simp
    with g show ?thesis by blast
  qed
  show ?thesis
    using run ds(2) grid by (intro exI [of _ ?t']) simp
qed


lemma tensorA_ok: "tensor_ok tensorA [5]"
  by (simp add: tensor_ok_def tensorA_def axis_ok_def cuts_of_def)

theorem Expand_dense_grid_witness:
  "tensor_ok tensorA [5] \<and> \<not> m_bExpanded tensorA \<and> always 7 \<and>
   m_cVectorLength tensorA * prod_list [5] < 2 ^ 60 \<and>
   Expand always 0 0 [5] tensorA = Inr (False, tensorA_expanded) \<and>
   cuts_of (m_aDimensions tensorA_expanded ! 0) = [0, 1, 2, 3] \<and>
   take 5 (m_aValues tensorA_expanded) = [10, 10, 10, 20, 20] \<and>
   GetValue tensorA [2] = Inr 0 \<and> GetValue tensorA [3] = Inr 1"
proof -
  have ne: "\<not> m_bExpanded tensorA" by (simp add: tensorA_def)
  have al: "\<forall>n. always n" by (simp add: always_def)
  have sz: "m_cVectorLength tensorA * prod_list [5] < 2 ^ 60" by (simp add: tensorA_def)
  from Expand_dense_grid [OF tensorA_ok ne al sz, of 0 0]
  obtain t' where t': "Expand always 0 0 [5] tensorA = Inr (False, t')"
    and cuts: "\<forall>d<m_cDimensions tensorA. cDivisions (m_aDimensions t' ! d) = [5] ! d - 1 \<and>
        cuts_of (m_aDimensions t' ! d) = map int [0..<[5] ! d - 1]"
    and vals: "\<forall>p. grid_point [5] p \<longrightarrow>
        (\<exists>i. GetValue tensorA (map int p) = Inr (int i) \<and>
          (\<forall>k<m_cVectorLength tensorA.
             m_aValues t' ! (m_cVectorLength tensorA * mixed_radix [5] p + k)
               = m_aValues tensorA ! (i + k)))"
    by blast
  from t' Expand_tensorA have eq: "t' = tensorA_expanded" by simp
  have g2: "GetValue tensorA [2] = Inr 0" and g3: "GetValue tensorA [3] = Inr 1"
    by code_simp+
  have c: "cuts_of (m_aDimensions tensorA_expanded ! 0) = [0, 1, 2, 3]"
    by code_simp
  have v: "take 5 (m_aValues tensorA_expanded) = [10, 10, 10, 20, 20]"
    by (simp add: tensorA_expanded_def)
  from tensorA_ok ne al sz t' eq c v g2 g3 show ?thesis
    by (simp add: always_def)
qed

text \<open>
  Scenario 5 of the specification expects the values 10, 10, 20, 20, 20 from the same
  call; Expand returns 10, 10, 10, 20, 20.
\<close>

theorem Expand_scenario5_counterexample:
  "Expand always 0 0 [5] tensorA = Inr (False, tensorA_expanded) \<and>
   cDivisions (m_aDimensions tensorA ! 0) + 1 \<le> 5 \<and>
   take 5 (m_aValues tensorA_expanded) = [10, 10, 10, 20, 20] \<and>
   take 5 (m_aValues tensorA_expanded) \<noteq> [10, 10, 20, 20, 20]"
  using Expand_tensorA by (simp add: tensorA_expanded_def tensorA_def)

section \<open>Lemmas on Add\<close>

subsection \<open>Merged cuts\<close>

lemma merge_cuts_set: "set (merge_cuts xs ys) = set xs \<union> set ys"
  by (induction xs ys rule: merge_cuts.induct) auto

lemma merge_cuts_sorted:
  "sorted_wrt (<) xs \<Longrightarrow> sorted_wrt (<) ys \<Longrightarrow> sorted_wrt (<) (merge_cuts xs ys)"
  by (induction xs ys rule: merge_cuts.induct) (auto simp: merge_cuts_set)

lemma add_count_merge: "add_count xs ys n = n + length (merge_cuts xs ys)"
proof (induction xs ys n rule: add_count.induct)
  case (1 xs ys n)
  show ?case
  proof (cases ys)
    case Nil
    then show ?thesis by (subst add_count.simps) (cases xs; simp)
  next
    case ys: (Cons d2 ys')
    show ?thesis
    proof (cases xs)
      case Nil
      with ys show ?thesis by (subst add_count.simps) simp
    next
      case xs: (Cons d1 xs')
      note ih = "1.IH" [OF ys xs, unfolded xs ys]
      consider "d1 < d2" | "d2 < d1" | "d1 = d2" by linarith
      then show ?thesis
      proof cases
        case 1
        with ih show ?thesis by (subst add_count.simps) (simp add: xs ys)
      next
        case 2
        with ih show ?thesis by (subst add_count.simps) (simp add: xs ys)
      next
        case 3
        with ih show ?thesis by (subst add_count.simps) (simp add: xs ys)
      qed
    qed
  qed
qed

lemma sorted_nth_less_iff:
  assumes "sorted_wrt (<) (us::int list)" "i < length us" "j < length us"
  shows "us ! i < us ! j \<longleftrightarrow> i < j"
proof
  assume l: "us ! i < us ! j"
  show "i < j"
  proof (rule ccontr)
    assume "\<not> i < j"
    then have "j = i \<or> j < i" by auto
    then show False
    proof
      assume "j = i" with l show False by simp
    next
      assume "j < i"
      with assms have "us ! j < us ! i" by (intro sorted_wrt_nth_less)
      with l show False by simp
    qed
  qed
next
  assume "i < j" with assms show "us ! i < us ! j" by (intro sorted_wrt_nth_less)
qed

lemma sorted_nth_le_iff:
  assumes "sorted_wrt (<) (us::int list)" "i < length us" "j < length us"
  shows "us ! i \<le> us ! j \<longleftrightarrow> i \<le> j"
  using sorted_nth_less_iff [OF assms(1) assms(3) assms(2)] by auto

lemma region_of_cut_bound:
  assumes s: "sorted_wrt (<) us" and r: "r \<le> length us"
  shows "region_of us (cut_bound us r) = r"
proof (cases r)
  case 0
  show ?thesis
  proof (cases "us = []")
    case True
    then show ?thesis by (simp add: 0 region_of_def)
  next
    case False
    have "region_of us (us ! 0) = 0"
    proof (rule region_of_eqI)
      show "us ! 0 \<le> us ! i" if "i < length us" for i
        using sorted_nth_le_iff [OF s _ that, of 0] False by simp
    qed simp_all
    with False show ?thesis by (simp add: 0 cut_bound_def)
  qed
next
  case (Suc r')
  have r': "r' < length us" using r Suc by simp
  have "region_of us (us ! r' + 1) = Suc r'"
  proof (rule region_of_eqI)
    show "Suc r' \<le> length us" using r' by simp
    show "us ! i < us ! r' + 1" if "i < Suc r'" for i
    proof -
      have "i < length us" using that r' by simp
      from sorted_nth_le_iff [OF s this r'] that show ?thesis by simp
    qed
    show "us ! r' + 1 \<le> us ! i" if "Suc r' \<le> i" "i < length us" for i
      using sorted_nth_less_iff [OF s r' that(2)] that(1) by simp
  qed
  then show ?thesis by (simp add: Suc cut_bound_def)
qed

lemma region_of_subset_le:
  assumes "distinct ds" "distinct us" "set ds \<subseteq> set us"
  shows "region_of ds x \<le> region_of us x"
proof -
  have "card (set (filter (\<lambda>c. c < x) ds)) = length (filter (\<lambda>c. c < x) ds)"
    by (rule distinct_card) (simp add: assms(1))
  moreover have "card (set (filter (\<lambda>c. c < x) ds)) \<le> card (set (filter (\<lambda>c. c < x) us))"
    using assms(3) by (intro card_mono) auto
  moreover have "card (set (filter (\<lambda>c. c < x) us)) = length (filter (\<lambda>c. c < x) us)"
    by (rule distinct_card) (simp add: assms(2))
  ultimately show ?thesis by (simp add: region_of_def)
qed

lemma sorted_distinct: "sorted_wrt (<) (us::int list) \<Longrightarrow> distinct us"
  by (simp add: strict_sorted_iff)

lemma region_of_bound_le:
  assumes "sorted_wrt (<) ds" "sorted_wrt (<) us" "set ds \<subseteq> set us" "r \<le> length us"
  shows "region_of ds (cut_bound us r) \<le> r"
  using region_of_subset_le [OF sorted_distinct [OF assms(1)] sorted_distinct [OF assms(2)] assms(3),
      of "cut_bound us r"]
    region_of_cut_bound [OF assms(2,4)] by simp

lemma region_of_bound_pred:
  assumes s: "sorted_wrt (<) us" and sub: "set ds \<subseteq> set us" and r: "r' < length us"
  shows "region_of ds (cut_bound us r') = region_of ds (us ! r')"
proof -
  have "(c < cut_bound us r') = (c < us ! r')" if "c \<in> set ds" for c
  proof (cases r')
    case 0
    with r show ?thesis by (auto simp: cut_bound_def)
  next
    case (Suc k)
    from that sub have "c \<in> set us" by auto
    then obtain j where j: "j < length us" "c = us ! j"
      by (auto simp: in_set_conv_nth)
    have k: "k < length us" using r Suc by simp
    have "(us ! j < us ! k + 1) = (j \<le> k)"
      using sorted_nth_le_iff [OF s j(1) k] by auto
    moreover have "(us ! j < us ! r') = (j < r')"
      by (rule sorted_nth_less_iff [OF s j(1) r])
    ultimately show ?thesis using Suc by (auto simp: cut_bound_def j(2))
  qed
  then have "filter (\<lambda>c. c < cut_bound us r') ds = filter (\<lambda>c. c < us ! r') ds"
    by (intro filter_cong) simp_all
  then show ?thesis by (simp add: region_of_def)
qed

lemma region_of_bound_zero:
  assumes s: "sorted_wrt (<) us" and sub: "set ds \<subseteq> set us"
  shows "region_of ds (cut_bound us 0) = 0"
proof -
  have "\<not> c < cut_bound us 0" if "c \<in> set ds" for c
  proof -
    from that sub have "c \<in> set us" by auto
    then obtain j where j: "j < length us" "c = us ! j"
      by (auto simp: in_set_conv_nth)
    then have ne: "us \<noteq> []" by auto
    have "us ! 0 \<le> us ! j" using sorted_nth_le_iff [OF s _ j(1), of 0] ne by simp
    with ne show ?thesis by (simp add: cut_bound_def j(2))
  qed
  then have "filter (\<lambda>c. c < cut_bound us 0) ds = []"
    by (simp add: filter_empty_conv)
  then show ?thesis by (simp add: region_of_def)
qed

lemma region_of_bound_top:
  assumes s: "sorted_wrt (<) us" and sub: "set ds \<subseteq> set us"
  shows "region_of ds (cut_bound us (length us)) = length ds"
proof -
  have "c < cut_bound us (length us)" if "c \<in> set ds" for c
  proof -
    from that sub have "c \<in> set us" by auto
    then obtain j where j: "j < length us" "c = us ! j"
      by (auto simp: in_set_conv_nth)
    then have l: "length us - 1 < length us" by simp
    have "us ! j \<le> us ! (length us - 1)"
      using sorted_nth_le_iff [OF s j(1) l] j(1) by simp
    moreover have "length us \<noteq> 0" using j(1) by auto
    ultimately show ?thesis using j by (auto simp: cut_bound_def)
  qed
  then have "filter (\<lambda>c. c < cut_bound us (length us)) ds = ds"
    by (simp add: filter_id_conv)
  then show ?thesis by (simp add: region_of_def)
qed

text \<open>The last cut below \<open>u + 1\<close> is \<open>u\<close> when \<open>u\<close> is a cut.\<close>

lemma region_of_last_below:
  assumes s: "sorted_wrt (<) ds" and n: "region_of ds (u + 1) = Suc k"
  shows "ds ! k \<le> u" "u \<in> set ds \<Longrightarrow> ds ! k = u"
proof -
  have kl: "k < length ds" using region_of_le_length [of ds "u + 1"] n by simp
  have "ds ! k < u + 1" using s n by (intro region_of_below) simp_all
  then show le: "ds ! k \<le> u" by simp
  assume "u \<in> set ds"
  then obtain j where j: "j < length ds" "ds ! j = u" by (auto simp: in_set_conv_nth)
  have "j < Suc k"
  proof (rule ccontr)
    assume "\<not> j < Suc k"
    then have "region_of ds (u + 1) \<le> j" using n by simp
    then have "u + 1 \<le> ds ! j" using s j(1) by (intro region_of_above)
    with j(2) show False by simp
  qed
  then have "j \<le> k" by simp
  then have "ds ! j \<le> ds ! k" using sorted_nth_le_iff [OF s j(1) kl] by simp
  with le j(2) show "ds ! k = u" by simp
qed

lemma region_of_not_member:
  assumes "region_of ds (u + 1) = 0"
  shows "u \<notin> set ds"
proof
  assume "u \<in> set ds"
  then have "u \<in> set (filter (\<lambda>c. c < u + 1) ds)" by simp
  with assms show False by (simp add: region_of_def)
qed

subsection \<open>The stack of Add\<close>

lemma cell_at_Cons:
  "cell_at (d # dims) (c # x) = region_of (cuts_of d) c + (cDivisions d + 1) * cell_at dims x"
  by (simp add: cell_at_def)

lemma cell_at_Nil: "cell_at [] x = 0" "cell_at dims [] = 0"
  by (simp_all add: cell_at_def)

lemma cuts_ok_cuts:
  assumes "cuts_ok d"
  shows "length (cuts_of d) = cDivisions d" "sorted_wrt (<) (cuts_of d)"
    "cDivisions d \<le> length (aDivisions d)"
  using assms by (simp_all add: cuts_ok_def cuts_of_def)

lemma merged_props:
  assumes "cuts_ok d1" "cuts_ok d2"
  shows "sorted_wrt (<) (merged d1 d2)" "set (cuts_of d1) \<subseteq> set (merged d1 d2)"
    "set (cuts_of d2) \<subseteq> set (merged d1 d2)"
    "set (merged d1 d2) = set (cuts_of d1) \<union> set (cuts_of d2)"
  using assms by (simp_all add: merged_def merge_cuts_sorted merge_cuts_set cuts_ok_def)

lemma add_step_both:
  assumes "k1 < length (aDivisions d1)" "k2 < length (aDivisions d2)"
  shows "add_step (d1 # dims1) (d2 # dims2)
      (\<lparr>pDivision1 = int k1, pDivision2 = int k2, cNewDivisions = c\<rparr> # st) pv1 pv2 m1 m2 =
     Inr (\<lparr>pDivision1 = int k1 - (if aDivisions d2 ! k2 \<le> aDivisions d1 ! k1 then 1 else 0),
           pDivision2 = int k2 - (if aDivisions d1 ! k1 \<le> aDivisions d2 ! k2 then 1 else 0),
           cNewDivisions = c\<rparr> # st,
          pv1 - (if aDivisions d2 ! k2 \<le> aDivisions d1 ! k1 then 1 else 0) * int m1,
          pv2 - (if aDivisions d1 ! k1 \<le> aDivisions d2 ! k2 then 1 else 0) * int m2)"
  using assms by (simp add: Let_def)

lemma add_step_first:
  "add_step (d1 # dims1) (d2 # dims2)
      (\<lparr>pDivision1 = int k1, pDivision2 = - 1, cNewDivisions = c\<rparr> # st) pv1 pv2 m1 m2 =
     Inr (\<lparr>pDivision1 = int k1 - 1, pDivision2 = - 1, cNewDivisions = c\<rparr> # st,
          pv1 - int m1, pv2)"
  by simp

lemma add_step_second:
  "add_step (d1 # dims1) (d2 # dims2)
      (\<lparr>pDivision1 = - 1, pDivision2 = int k2, cNewDivisions = c\<rparr> # st) pv1 pv2 m1 m2 =
     Inr (\<lparr>pDivision1 = - 1, pDivision2 = int k2 - 1, cNewDivisions = c\<rparr> # st,
          pv1, pv2 - int m2)"
  by simp

lemma add_step_wrap:
  assumes "m1 * (1 + cDivisions d1) < 2 ^ 64" "m2 * (1 + cDivisions d2) < 2 ^ 64"
  shows "add_step (d1 # dims1) (d2 # dims2)
      (\<lparr>pDivision1 = - 1, pDivision2 = - 1, cNewDivisions = c\<rparr> # st) pv1 pv2 m1 m2 =
     (case add_step dims1 dims2 st
             (pv1 - int m1 + int (m1 * (1 + cDivisions d1)))
             (pv2 - int m2 + int (m2 * (1 + cDivisions d2)))
             (m1 * (1 + cDivisions d1)) (m2 * (1 + cDivisions d2)) of
        Inl e \<Rightarrow> Inl e
      | Inr (st', pv1', pv2') \<Rightarrow>
          Inr (\<lparr>pDivision1 = int (cDivisions d1) - 1, pDivision2 = int (cDivisions d2) - 1,
                cNewDivisions = c\<rparr> # st', pv1', pv2'))"
proof -
  have w1: "size_t_of (m1 * (1 + cDivisions d1)) = m1 * (1 + cDivisions d1)"
    using assms(1) by (rule size_t_of_id)
  have w2: "size_t_of (m2 * (1 + cDivisions d2)) = m2 * (1 + cDivisions d2)"
    using assms(2) by (rule size_t_of_id)
  show ?thesis
    by (simp add: Let_def w1 [simplified] w2 [simplified] split: sum.splits prod.splits)
qed

lemma add_stack_at_eq:
  "region_of (cuts_of d1) (cut_bound (merged d1 d2) r) = n1 \<Longrightarrow>
   region_of (cuts_of d2) (cut_bound (merged d1 d2) r) = n2 \<Longrightarrow>
   add_stack_at d1 d2 r =
     \<lparr>pDivision1 = int n1 - 1, pDivision2 = int n2 - 1, cNewDivisions = length (merged d1 d2)\<rparr>"
  by (simp add: add_stack_at_def)

lemma add_step_one:
  assumes ok1: "cuts_ok d1" and ok2: "cuts_ok d2" and r: "Suc r' \<le> length (merged d1 d2)"
  shows "add_step (d1 # dims1) (d2 # dims2) (add_stack_at d1 d2 (Suc r') # st) pv1 pv2 m1 m2 =
     Inr (add_stack_at d1 d2 r' # st,
          pv1 + int m1 * (int (region_of (cuts_of d1) (cut_bound (merged d1 d2) r'))
                        - int (region_of (cuts_of d1) (cut_bound (merged d1 d2) (Suc r')))),
          pv2 + int m2 * (int (region_of (cuts_of d2) (cut_bound (merged d1 d2) r'))
                        - int (region_of (cuts_of d2) (cut_bound (merged d1 d2) (Suc r')))))"
proof -
  let ?U = "merged d1 d2"
  let ?D1 = "cuts_of d1" and ?D2 = "cuts_of d2"
  let ?u = "?U ! r'"
  note c1 = cuts_ok_cuts [OF ok1] and c2 = cuts_ok_cuts [OF ok2]
  note mp = merged_props [OF ok1 ok2]
  have r'l: "r' < length ?U" using r by simp
  have b: "cut_bound ?U (Suc r') = ?u + 1" by (simp add: cut_bound_def)
  let ?n1 = "region_of ?D1 (?u + 1)" and ?n2 = "region_of ?D2 (?u + 1)"
  let ?n1' = "region_of ?D1 ?u" and ?n2' = "region_of ?D2 ?u"
  have p1: "region_of ?D1 (cut_bound ?U r') = ?n1'"
    using mp(1,2) r'l by (rule region_of_bound_pred)
  have p2: "region_of ?D2 (cut_bound ?U r') = ?n2'"
    using mp(1,3) r'l by (rule region_of_bound_pred)
  have s': "add_stack_at d1 d2 r' =
      \<lparr>pDivision1 = int ?n1' - 1, pDivision2 = int ?n2' - 1, cNewDivisions = length ?U\<rparr>"
    using p1 p2 by (rule add_stack_at_eq)
  have um: "?u \<in> set ?D1 \<or> ?u \<in> set ?D2"
    using nth_mem [OF r'l] mp(4) by auto
  have step1: "?n1' = (if ?u \<le> ?D1 ! k then k else Suc k)" if "?n1 = Suc k" for k
    using region_of_step [OF c1(2), of "?u + 1"] that by simp
  have step2: "?n2' = (if ?u \<le> ?D2 ! k then k else Suc k)" if "?n2 = Suc k" for k
    using region_of_step [OF c2(2), of "?u + 1"] that by simp
  have z1: "?n1' = 0" if "?n1 = 0"
    using region_of_mono [of ?u "?u + 1" ?D1] that by simp
  have z2: "?n2' = 0" if "?n2 = 0"
    using region_of_mono [of ?u "?u + 1" ?D2] that by simp
  show ?thesis
  proof (cases ?n1)
    case n1: (Suc k1)
    have k1: "k1 < cDivisions d1" "k1 < length (aDivisions d1)"
      using region_of_le_length [of ?D1 "?u + 1"] n1 c1(1,3) by simp_all
    have e1: "?D1 ! k1 = aDivisions d1 ! k1" using k1(1) by (rule cuts_of_nth)
    note l1 = region_of_last_below [OF c1(2) n1, unfolded e1]
    show ?thesis
    proof (cases ?n2)
      case n2: (Suc k2)
      have k2: "k2 < cDivisions d2" "k2 < length (aDivisions d2)"
        using region_of_le_length [of ?D2 "?u + 1"] n2 c2(1,3) by simp_all
      have e2: "?D2 ! k2 = aDivisions d2 ! k2" using k2(1) by (rule cuts_of_nth)
      note l2 = region_of_last_below [OF c2(2) n2, unfolded e2]
      have s: "add_stack_at d1 d2 (Suc r') =
          \<lparr>pDivision1 = int k1, pDivision2 = int k2, cNewDivisions = length ?U\<rparr>"
        using add_stack_at_eq [of d1 d2 "Suc r'" "Suc k1" "Suc k2"] n1 n2 by (simp add: b)
      have ch1: "(aDivisions d2 ! k2 \<le> aDivisions d1 ! k1) = (?u \<le> aDivisions d1 ! k1)"
        using um l1 l2 by auto
      have ch2: "(aDivisions d1 ! k1 \<le> aDivisions d2 ! k2) = (?u \<le> aDivisions d2 ! k2)"
        using um l1 l2 by auto
      have a1: "int k1 - (if ?u \<le> aDivisions d1 ! k1 then 1 else 0) = int ?n1' - 1"
        using step1 [OF n1] by (simp add: e1)
      have a2: "int k2 - (if ?u \<le> aDivisions d2 ! k2 then 1 else 0) = int ?n2' - 1"
        using step2 [OF n2] by (simp add: e2)
      have b1: "pv1 - (if ?u \<le> aDivisions d1 ! k1 then 1 else 0) * int m1
          = pv1 + int m1 * (int ?n1' - int ?n1)"
        unfolding n1 step1 [OF n1] e1 by (simp add: algebra_simps)
      have b2: "pv2 - (if ?u \<le> aDivisions d2 ! k2 then 1 else 0) * int m2
          = pv2 + int m2 * (int ?n2' - int ?n2)"
        unfolding n2 step2 [OF n2] e2 by (simp add: algebra_simps)
      show ?thesis
        unfolding s add_step_both [OF k1(2) k2(2)] ch1 ch2 a1 a2 b1 b2 s' b p1 p2 ..
    next
      case n2: 0
      then have "?u \<notin> set ?D2" by (rule region_of_not_member)
      with um have "?u \<in> set ?D1" by simp
      then have "aDivisions d1 ! k1 = ?u" by (rule l1(2))
      with step1 [OF n1] have n1': "?n1' = k1" by (simp add: e1)
      have s: "add_stack_at d1 d2 (Suc r') =
          \<lparr>pDivision1 = int k1, pDivision2 = - 1, cNewDivisions = length ?U\<rparr>"
        using add_stack_at_eq [of d1 d2 "Suc r'" "Suc k1" 0] n1 n2 by (simp add: b)
      have s'': "\<lparr>pDivision1 = int k1 - 1, pDivision2 = - 1, cNewDivisions = length ?U\<rparr>
          = add_stack_at d1 d2 r'"
        unfolding s' n1' z2 [OF n2] by simp
      have b1: "pv1 - int m1 = pv1 + int m1 * (int ?n1' - int ?n1)"
        unfolding n1 n1' by (simp add: algebra_simps)
      have b2: "pv2 = pv2 + int m2 * (int ?n2' - int ?n2)"
        by (simp add: n2 z2 [OF n2])
      show ?thesis
        unfolding s add_step_first s'' b p1 p2 using b1 b2 by simp
    qed
  next
    case n1: 0
    then have nm: "?u \<notin> set ?D1" by (rule region_of_not_member)
    with um have m2: "?u \<in> set ?D2" by simp
    show ?thesis
    proof (cases ?n2)
      case n2: (Suc k2)
      have k2: "k2 < cDivisions d2" "k2 < length (aDivisions d2)"
        using region_of_le_length [of ?D2 "?u + 1"] n2 c2(1,3) by simp_all
      have e2: "?D2 ! k2 = aDivisions d2 ! k2" using k2(1) by (rule cuts_of_nth)
      note l2 = region_of_last_below [OF c2(2) n2, unfolded e2]
      from m2 have "aDivisions d2 ! k2 = ?u" by (rule l2(2))
      with step2 [OF n2] have n2': "?n2' = k2" by (simp add: e2)
      have s: "add_stack_at d1 d2 (Suc r') =
          \<lparr>pDivision1 = - 1, pDivision2 = int k2, cNewDivisions = length ?U\<rparr>"
        using add_stack_at_eq [of d1 d2 "Suc r'" 0 "Suc k2"] n1 n2 by (simp add: b)
      have s'': "\<lparr>pDivision1 = - 1, pDivision2 = int k2 - 1, cNewDivisions = length ?U\<rparr>
          = add_stack_at d1 d2 r'"
        unfolding s' n2' z1 [OF n1] by simp
      have b1: "pv1 = pv1 + int m1 * (int ?n1' - int ?n1)"
        by (simp add: n1 z1 [OF n1])
      have b2: "pv2 - int m2 = pv2 + int m2 * (int ?n2' - int ?n2)"
        unfolding n2 n2' by (simp add: algebra_simps)
      show ?thesis
        unfolding s add_step_second s'' b p1 p2 using b1 b2 by simp
    next
      case 0
      then have "?u \<notin> set ?D2" by (rule region_of_not_member)
      with m2 show ?thesis by simp
    qed
  qed
qed

lemma add_radices_Cons:
  "add_radices (d1 # dims1) (d2 # dims2) = (length (merged d1 d2) + 1) # add_radices dims1 dims2"
  by (simp add: add_radices_def)

lemma merged_length:
  assumes "cuts_ok d1" "cuts_ok d2"
  shows "cDivisions d1 \<le> length (merged d1 d2)" "cDivisions d2 \<le> length (merged d1 d2)"
proof -
  note c1 = cuts_ok_cuts [OF assms(1)] and c2 = cuts_ok_cuts [OF assms(2)]
  note mp = merged_props [OF assms]
  show "cDivisions d1 \<le> length (merged d1 d2)"
    using region_of_bound_le [OF c1(2) mp(1,2) le_refl] region_of_bound_top [OF mp(1,2)] c1(1)
    by simp
  show "cDivisions d2 \<le> length (merged d1 d2)"
    using region_of_bound_le [OF c2(2) mp(1,3) le_refl] region_of_bound_top [OF mp(1,3)] c2(1)
    by simp
qed

lemma add_step_pred:
  assumes "length dims1 = length dims2" "list_all cuts_ok dims1" "list_all cuts_ok dims2"
    "grid_point (add_radices dims1 dims2) p" "0 < mixed_radix (add_radices dims1 dims2) p"
    "m1 * prod_list (map (\<lambda>d. cDivisions d + 1) dims1) < 2 ^ 64"
    "m2 * prod_list (map (\<lambda>d. cDivisions d + 1) dims2) < 2 ^ 64"
  shows "add_step dims1 dims2 (add_stack_of dims1 dims2 p) pv1 pv2 m1 m2 =
     Inr (add_stack_of dims1 dims2 (grid_pred (add_radices dims1 dims2) p),
          pv1 + int m1 *
            (int (cell_at dims1 (add_bounds dims1 dims2 (grid_pred (add_radices dims1 dims2) p)))
             - int (cell_at dims1 (add_bounds dims1 dims2 p))),
          pv2 + int m2 *
            (int (cell_at dims2 (add_bounds dims1 dims2 (grid_pred (add_radices dims1 dims2) p)))
             - int (cell_at dims2 (add_bounds dims1 dims2 p))))"
  using assms
proof (induction dims1 dims2 arbitrary: p pv1 pv2 m1 m2 rule: list_induct2)
  case Nil
  then show ?case by (simp add: add_radices_def)
next
  case (Cons d1 dims1 d2 dims2)
  let ?U = "merged d1 d2"
  let ?rs' = "add_radices dims1 dims2"
  note rs = add_radices_Cons [of d1 dims1 d2 dims2]
  from Cons.prems(1,2) have ok1: "cuts_ok d1" and ok2: "cuts_ok d2"
    and oks1: "list_all cuts_ok dims1" and oks2: "list_all cuts_ok dims2"
    by simp_all
  note c1 = cuts_ok_cuts [OF ok1] and c2 = cuts_ok_cuts [OF ok2]
  note mp = merged_props [OF ok1 ok2]
  from Cons.prems(3) obtain x p' where p: "p = x # p'" "x < length ?U + 1" "grid_point ?rs' p'"
    unfolding rs by (rule grid_point_ConsE)
  show ?case
  proof (cases x)
    case (Suc y)
    have yl: "Suc y \<le> length ?U" using p(2) Suc by simp
    have gp: "grid_pred ((length ?U + 1) # ?rs') (Suc y # p') = y # p'" by simp
    have e: "add_stack_of (d1 # dims1) (d2 # dims2) (Suc y # p') =
        add_stack_at d1 d2 (Suc y) # add_stack_of dims1 dims2 p'"
        "add_stack_of (d1 # dims1) (d2 # dims2) (y # p') =
        add_stack_at d1 d2 y # add_stack_of dims1 dims2 p'"
      by simp_all
    have b: "add_bounds (d1 # dims1) (d2 # dims2) (Suc y # p') =
        cut_bound ?U (Suc y) # add_bounds dims1 dims2 p'"
        "add_bounds (d1 # dims1) (d2 # dims2) (y # p') =
        cut_bound ?U y # add_bounds dims1 dims2 p'"
      by simp_all
    have cp: "int (cell_at (d1 # dims1) (cut_bound ?U y # B)) -
          int (cell_at (d1 # dims1) (cut_bound ?U (Suc y) # B))
       = int (region_of (cuts_of d1) (cut_bound ?U y)) -
          int (region_of (cuts_of d1) (cut_bound ?U (Suc y)))"
       "int (cell_at (d2 # dims2) (cut_bound ?U y # B)) -
          int (cell_at (d2 # dims2) (cut_bound ?U (Suc y) # B))
       = int (region_of (cuts_of d2) (cut_bound ?U y)) -
          int (region_of (cuts_of d2) (cut_bound ?U (Suc y)))" for B
      by (simp_all add: cell_at_Cons)
    show ?thesis
      unfolding rs p(1) Suc gp e b cp by (rule add_step_one [OF ok1 ok2 yl])
  next
    case 0
    let ?q' = "grid_pred ?rs' p'"
    let ?B = "add_bounds dims1 dims2 p'" and ?B' = "add_bounds dims1 dims2 ?q'"
    from Cons.prems(4) have pos: "0 < mixed_radix ?rs' p'" by (auto simp: rs p(1) 0)
    have z1: "region_of (cuts_of d1) (cut_bound ?U 0) = 0"
      using mp(1,2) by (rule region_of_bound_zero)
    have z2: "region_of (cuts_of d2) (cut_bound ?U 0) = 0"
      using mp(1,3) by (rule region_of_bound_zero)
    have t1: "region_of (cuts_of d1) (cut_bound ?U (length ?U)) = cDivisions d1"
      using region_of_bound_top [OF mp(1,2)] c1(1) by simp
    have t2: "region_of (cuts_of d2) (cut_bound ?U (length ?U)) = cDivisions d2"
      using region_of_bound_top [OF mp(1,3)] c2(1) by simp
    have s0: "add_stack_at d1 d2 0 =
        \<lparr>pDivision1 = - 1, pDivision2 = - 1, cNewDivisions = length ?U\<rparr>"
      using add_stack_at_eq [OF z1 z2] by simp
    have ent: "\<lparr>pDivision1 = int (cDivisions d1) - 1, pDivision2 = int (cDivisions d2) - 1,
        cNewDivisions = length ?U\<rparr> = add_stack_at d1 d2 (length ?U)"
      using add_stack_at_eq [OF t1 t2] by simp
    have gp: "grid_pred ((length ?U + 1) # ?rs') (0 # p') = length ?U # ?q'" by simp
    have e: "add_stack_of (d1 # dims1) (d2 # dims2) (0 # p') =
        \<lparr>pDivision1 = - 1, pDivision2 = - 1, cNewDivisions = length ?U\<rparr>
          # add_stack_of dims1 dims2 p'"
      by (simp add: s0)
    have e': "add_stack_of (d1 # dims1) (d2 # dims2) (length ?U # ?q') =
        add_stack_at d1 d2 (length ?U) # add_stack_of dims1 dims2 ?q'"
      by simp
    have b: "add_bounds (d1 # dims1) (d2 # dims2) (0 # p') = cut_bound ?U 0 # ?B"
      "add_bounds (d1 # dims1) (d2 # dims2) (length ?U # ?q') = cut_bound ?U (length ?U) # ?B'"
      by simp_all
    have cp1: "int (cell_at (d1 # dims1) (cut_bound ?U (length ?U) # ?B')) -
          int (cell_at (d1 # dims1) (cut_bound ?U 0 # ?B))
        = int (cDivisions d1) + (int (cDivisions d1) + 1) *
            (int (cell_at dims1 ?B') - int (cell_at dims1 ?B))"
      unfolding cell_at_Cons t1 z1 by (simp add: algebra_simps)
    have cp2: "int (cell_at (d2 # dims2) (cut_bound ?U (length ?U) # ?B')) -
          int (cell_at (d2 # dims2) (cut_bound ?U 0 # ?B))
        = int (cDivisions d2) + (int (cDivisions d2) + 1) *
            (int (cell_at dims2 ?B') - int (cell_at dims2 ?B))"
      unfolding cell_at_Cons t2 z2 by (simp add: algebra_simps)
    have ar: "pv - int m + int (m * (1 + n)) + int (m * (1 + n)) * (C' - C)
        = pv + int m * (int n + (int n + 1) * (C' - C))" for pv m n C' C
      by (simp add: algebra_simps)
    note h1 = radix_prod_head [OF Cons.prems(5)] and h2 = radix_prod_head [OF Cons.prems(6)]
    note ih = Cons.IH [OF oks1 oks2 p(3) pos h1(2) h2(2)]
    show ?thesis
      unfolding rs p(1) 0 gp e e' b cp1 cp2 add_step_wrap [OF h1(1) h2(1)] ih
      by (simp only: sum.case prod.case ent ar)
  qed
qed

lemma cell_at_bounds_le:
  assumes "length dims1 = length dims2" "list_all cuts_ok dims1" "list_all cuts_ok dims2"
    "grid_point (add_radices dims1 dims2) p"
  shows "cell_at dims1 (add_bounds dims1 dims2 p) \<le> mixed_radix (add_radices dims1 dims2) p \<and>
     cell_at dims2 (add_bounds dims1 dims2 p) \<le> mixed_radix (add_radices dims1 dims2) p"
  using assms
proof (induction dims1 dims2 arbitrary: p rule: list_induct2)
  case Nil
  then show ?case by (simp add: cell_at_Nil)
next
  case (Cons d1 dims1 d2 dims2)
  let ?U = "merged d1 d2"
  let ?rs' = "add_radices dims1 dims2"
  note rs = add_radices_Cons [of d1 dims1 d2 dims2]
  from Cons.prems(1,2) have ok1: "cuts_ok d1" and ok2: "cuts_ok d2"
    and oks1: "list_all cuts_ok dims1" and oks2: "list_all cuts_ok dims2"
    by simp_all
  note c1 = cuts_ok_cuts [OF ok1] and c2 = cuts_ok_cuts [OF ok2]
  note mp = merged_props [OF ok1 ok2]
  note ml = merged_length [OF ok1 ok2]
  from Cons.prems(3) obtain x p' where p: "p = x # p'" "x < length ?U + 1" "grid_point ?rs' p'"
    unfolding rs by (rule grid_point_ConsE)
  have xl: "x \<le> length ?U" using p(2) by simp
  note ih = Cons.IH [OF oks1 oks2 p(3)]
  have r1: "region_of (cuts_of d1) (cut_bound ?U x) \<le> x"
    using c1(2) mp(1,2) xl by (rule region_of_bound_le)
  have r2: "region_of (cuts_of d2) (cut_bound ?U x) \<le> x"
    using c2(2) mp(1,3) xl by (rule region_of_bound_le)
  have m1: "(cDivisions d1 + 1) * cell_at dims1 (add_bounds dims1 dims2 p')
      \<le> (length ?U + 1) * mixed_radix ?rs' p'"
    using ml(1) ih by (intro mult_le_mono) simp_all
  have m2: "(cDivisions d2 + 1) * cell_at dims2 (add_bounds dims1 dims2 p')
      \<le> (length ?U + 1) * mixed_radix ?rs' p'"
    using ml(2) ih by (intro mult_le_mono) simp_all
  show ?case
    unfolding rs p(1) using r1 r2 m1 m2 by (simp add: cell_at_Cons)
qed

lemma cell_at_less:
  "list_all cuts_ok dims \<Longrightarrow> cell_at dims x < prod_list (map (\<lambda>d. cDivisions d + 1) dims)"
proof (induction dims arbitrary: x)
  case Nil
  then show ?case by (simp add: cell_at_Nil)
next
  case (Cons d dims)
  then have ok: "cuts_ok d" and oks: "list_all cuts_ok dims" by simp_all
  note c = cuts_ok_cuts [OF ok]
  let ?P = "prod_list (map (\<lambda>d. cDivisions d + 1) dims)"
  show ?case
  proof (cases x)
    case Nil
    have "0 < ?P" using Cons.IH [OF oks, of "[]"] by simp
    then show ?thesis by (simp add: Nil cell_at_Nil)
  next
    case (Cons c' x')
    have r: "region_of (cuts_of d) c' \<le> cDivisions d"
      using region_of_le_length [of "cuts_of d" c'] c(1) by simp
    have "cell_at dims x' + 1 \<le> ?P" using Cons.IH [OF oks, of x'] by simp
    then have "(cDivisions d + 1) * (cell_at dims x' + 1) \<le> (cDivisions d + 1) * ?P"
      by (rule mult_le_mono2)
    with r show ?thesis unfolding Cons cell_at_Cons by simp
  qed
qed

subsection \<open>The value loop of Add\<close>

lemma add_copy_Suc:
  "s1 < length a \<Longrightarrow> s2 < length b \<Longrightarrow> t < length a \<Longrightarrow>
   add_copy (Suc n) a b (int s1) (int s2) (int t) =
     add_copy n (a[t := a ! s1 + b ! s2]) b (int s1 - 1) (int s2 - 1) (int t - 1)"
  by simp

lemma add_copy_cell:
  assumes "t + n \<le> length a" "s1 = t \<or> s1 + n \<le> t" "s2 + n \<le> length b"
  shows "\<exists>a1. add_copy n a b (int (s1 + n) - 1) (int (s2 + n) - 1) (int (t + n) - 1) = Inr a1 \<and>
      length a1 = length a \<and> (\<forall>i<n. a1 ! (t + i) = a ! (s1 + i) + b ! (s2 + i)) \<and>
      (\<forall>i<length a. i < t \<or> t + n \<le> i \<longrightarrow> a1 ! i = a ! i)"
  using assms
proof (induction n arbitrary: a)
  case 0
  then show ?case by simp
next
  case (Suc n)
  let ?a2 = "a[t + n := a ! (s1 + n) + b ! (s2 + n)]"
  have src: "int (s1 + Suc n) - 1 = int (s1 + n)" "int (s2 + Suc n) - 1 = int (s2 + n)"
    and dst: "int (t + Suc n) - 1 = int (t + n)"
    by simp_all
  have sl: "s1 + n < length a" and s2l: "s2 + n < length b" and tl: "t + n < length a"
    using Suc.prems by auto
  have un: "add_copy (Suc n) a b (int (s1 + n)) (int (s2 + n)) (int (t + n)) =
      add_copy n ?a2 b (int (s1 + n) - 1) (int (s2 + n) - 1) (int (t + n) - 1)"
    using sl s2l tl by (rule add_copy_Suc)
  have "\<exists>a1. add_copy n ?a2 b (int (s1 + n) - 1) (int (s2 + n) - 1) (int (t + n) - 1) = Inr a1 \<and>
      length a1 = length ?a2 \<and> (\<forall>i<n. a1 ! (t + i) = ?a2 ! (s1 + i) + b ! (s2 + i)) \<and>
      (\<forall>i<length ?a2. i < t \<or> t + n \<le> i \<longrightarrow> a1 ! i = ?a2 ! i)"
    using Suc.prems by (intro Suc.IH) auto
  then obtain a1 where h:
      "add_copy n ?a2 b (int (s1 + n) - 1) (int (s2 + n) - 1) (int (t + n) - 1) = Inr a1 \<and>
      length a1 = length ?a2 \<and> (\<forall>i<n. a1 ! (t + i) = ?a2 ! (s1 + i) + b ! (s2 + i)) \<and>
      (\<forall>i<length ?a2. i < t \<or> t + n \<le> i \<longrightarrow> a1 ! i = ?a2 ! i)"
    by blast
  from h have a1: "add_copy n ?a2 b (int (s1 + n) - 1) (int (s2 + n) - 1) (int (t + n) - 1) = Inr a1"
    "length a1 = length a" "\<And>i. i < n \<Longrightarrow> a1 ! (t + i) = ?a2 ! (s1 + i) + b ! (s2 + i)"
    by simp_all
  from h have "\<forall>i<length ?a2. i < t \<or> t + n \<le> i \<longrightarrow> a1 ! i = ?a2 ! i"
    by blast
  then have a1': "\<And>i. i < length a \<Longrightarrow> i < t \<or> t + n \<le> i \<Longrightarrow> a1 ! i = ?a2 ! i"
    by (metis length_list_update)
  have rd: "?a2 ! (s1 + i) = a ! (s1 + i)" if "i < n" for i
  proof -
    from that Suc.prems(2) have "s1 + i \<noteq> t + n" by auto
    then show ?thesis by simp
  qed
  have "a1 ! (t + i) = a ! (s1 + i) + b ! (s2 + i)" if "i < Suc n" for i
  proof (cases "i = n")
    case True
    have "a1 ! (t + n) = ?a2 ! (t + n)" using tl by (intro a1') simp_all
    also have "\<dots> = a ! (s1 + n) + b ! (s2 + n)" using tl by simp
    finally show ?thesis by (simp add: True)
  next
    case False
    with that have "i < n" by simp
    then show ?thesis using a1(3) [of i] rd [of i] by simp
  qed
  moreover have "a1 ! i = a ! i" if "i < length a" "i < t \<or> t + Suc n \<le> i" for i
  proof -
    have "a1 ! i = ?a2 ! i" using that by (intro a1') auto
    also have "\<dots> = a ! i" using that by auto
    finally show ?thesis .
  qed
  ultimately show ?case
    unfolding src dst un using a1(1,2) by blast
qed

lemma add_loop_cells:
  assumes len: "length dims1 = length dims2"
    and ok1: "list_all cuts_ok dims1" and ok2: "list_all cuts_ok dims2" and v: "0 < v"
    and lb: "v * prod_list (map (\<lambda>d. cDivisions d + 1) dims2) \<le> length b"
    and small1: "v * prod_list (map (\<lambda>d. cDivisions d + 1) dims1) < 2 ^ 64"
    and small2: "v * prod_list (map (\<lambda>d. cDivisions d + 1) dims2) < 2 ^ 64"
  shows "grid_point (add_radices dims1 dims2) p \<Longrightarrow>
    v * (mixed_radix (add_radices dims1 dims2) p + 1) \<le> length a \<Longrightarrow>
    \<exists>a'. add_loop v dims1 dims2 (add_stack_of dims1 dims2 p) a b
            (int (v * (cell_at dims1 (add_bounds dims1 dims2 p) + 1)) - 1)
            (int (v * (cell_at dims2 (add_bounds dims1 dims2 p) + 1)) - 1)
            (int (v * (mixed_radix (add_radices dims1 dims2) p + 1)) - 1)
          = Inr (a', int v - 1, int v - 1) \<and>
      length a' = length a \<and>
      (\<forall>q. grid_point (add_radices dims1 dims2) q \<and>
           mixed_radix (add_radices dims1 dims2) q \<le> mixed_radix (add_radices dims1 dims2) p \<longrightarrow>
         (\<forall>k<v. a' ! (v * mixed_radix (add_radices dims1 dims2) q + k) =
            a ! (v * cell_at dims1 (add_bounds dims1 dims2 q) + k) +
            b ! (v * cell_at dims2 (add_bounds dims1 dims2 q) + k))) \<and>
      (\<forall>i<length a. v * (mixed_radix (add_radices dims1 dims2) p + 1) \<le> i \<longrightarrow> a' ! i = a ! i)"
proof (induction j \<equiv> "mixed_radix (add_radices dims1 dims2) p" arbitrary: p a)
  case 0
  let ?rs = "add_radices dims1 dims2"
  let ?j = "mixed_radix ?rs p"
  let ?o1 = "cell_at dims1 (add_bounds dims1 dims2 p)"
  let ?o2 = "cell_at dims2 (add_bounds dims1 dims2 p)"
  have jz: "?j = 0" using "0.hyps" by simp
  have cz: "?o1 = 0" "?o2 = 0"
    using cell_at_bounds_le [OF len ok1 ok2 "0.prems"(1)] jz by simp_all
  have "1 \<le> prod_list (map (\<lambda>d. cDivisions d + 1) dims2)"
    using cell_at_less [OF ok2, of "[]"] by simp
  then have "v * 1 \<le> v * prod_list (map (\<lambda>d. cDivisions d + 1) dims2)"
    by (rule mult_le_mono2)
  with lb have vb: "v \<le> length b" by linarith
  have va: "v \<le> length a" using "0.prems"(2) jz by simp
  have "\<exists>a1. add_copy v a b (int (0 + v) - 1) (int (0 + v) - 1) (int (0 + v) - 1) = Inr a1 \<and>
      length a1 = length a \<and> (\<forall>i<v. a1 ! (0 + i) = a ! (0 + i) + b ! (0 + i)) \<and>
      (\<forall>i<length a. i < 0 \<or> 0 + v \<le> i \<longrightarrow> a1 ! i = a ! i)"
    using va vb by (intro add_copy_cell) simp_all
  then obtain a1 where a1: "add_copy v a b (int v - 1) (int v - 1) (int v - 1) = Inr a1"
    "length a1 = length a" "\<And>i. i < v \<Longrightarrow> a1 ! i = a ! i + b ! i"
    "\<And>i. i < length a \<Longrightarrow> v \<le> i \<Longrightarrow> a1 ! i = a ! i"
    by auto
  have run: "add_loop v dims1 dims2 (add_stack_of dims1 dims2 p) a b
      (int v - 1) (int v - 1) (int v - 1) = Inr (a1, int v - 1, int v - 1)"
    using v by (subst add_loop.simps) (simp add: a1(1))
  have "a1 ! (v * mixed_radix ?rs q + k) =
      a ! (v * cell_at dims1 (add_bounds dims1 dims2 q) + k) +
      b ! (v * cell_at dims2 (add_bounds dims1 dims2 q) + k)"
    if "grid_point ?rs q" "mixed_radix ?rs q \<le> ?j" "k < v" for q k
  proof -
    from that(2) jz have z: "mixed_radix ?rs q = 0" by simp
    with cell_at_bounds_le [OF len ok1 ok2 that(1)]
    have "cell_at dims1 (add_bounds dims1 dims2 q) = 0" "cell_at dims2 (add_bounds dims1 dims2 q) = 0"
      by simp_all
    with z a1(3) [OF that(3)] show ?thesis by simp
  qed
  with run a1(2,4) show ?case
    using jz cz by simp
next
  case (Suc j)
  let ?rs = "add_radices dims1 dims2"
  let ?j = "mixed_radix ?rs p"
  let ?o1 = "cell_at dims1 (add_bounds dims1 dims2 p)"
  let ?o2 = "cell_at dims2 (add_bounds dims1 dims2 p)"
  let ?p' = "grid_pred ?rs p"
  let ?o1' = "cell_at dims1 (add_bounds dims1 dims2 ?p')"
  let ?o2' = "cell_at dims2 (add_bounds dims1 dims2 ?p')"
  have jj: "?j = Suc j" using Suc.hyps(2) by simp
  have pos: "0 < ?j" using jj by simp
  have ole: "?o1 \<le> ?j" using cell_at_bounds_le [OF len ok1 ok2 Suc.prems(1)] by simp
  have gp': "grid_point ?rs ?p'" using Suc.prems(1) by (rule grid_pred_point)
  have j': "mixed_radix ?rs ?p' = j"
    using mixed_radix_pred [OF Suc.prems(1) pos] jj by simp
  have disj: "v * ?o1 = v * ?j \<or> v * ?o1 + v \<le> v * ?j"
  proof (cases "?o1 = ?j")
    case True then show ?thesis by simp
  next
    case False
    with ole have "?o1 + 1 \<le> ?j" by simp
    then have "v * (?o1 + 1) \<le> v * ?j" by (rule mult_le_mono2)
    then show ?thesis by simp
  qed
  have "?o2 + 1 \<le> prod_list (map (\<lambda>d. cDivisions d + 1) dims2)"
    using cell_at_less [OF ok2, of "add_bounds dims1 dims2 p"] by simp
  then have "v * (?o2 + 1) \<le> v * prod_list (map (\<lambda>d. cDivisions d + 1) dims2)"
    by (rule mult_le_mono2)
  with lb have o2b: "v * ?o2 + v \<le> length b" by simp
  have "\<exists>a1. add_copy v a b (int (v * ?o1 + v) - 1) (int (v * ?o2 + v) - 1) (int (v * ?j + v) - 1)
        = Inr a1 \<and>
      length a1 = length a \<and>
      (\<forall>i<v. a1 ! (v * ?j + i) = a ! (v * ?o1 + i) + b ! (v * ?o2 + i)) \<and>
      (\<forall>i<length a. i < v * ?j \<or> v * ?j + v \<le> i \<longrightarrow> a1 ! i = a ! i)"
    using Suc.prems(2) disj o2b by (intro add_copy_cell) simp_all
  then obtain a1 where a1:
    "add_copy v a b (int (v * ?o1 + v) - 1) (int (v * ?o2 + v) - 1) (int (v * ?j + v) - 1) = Inr a1"
    "length a1 = length a"
    "\<And>i. i < v \<Longrightarrow> a1 ! (v * ?j + i) = a ! (v * ?o1 + i) + b ! (v * ?o2 + i)"
    "\<And>i. i < length a \<Longrightarrow> i < v * ?j \<or> v * ?j + v \<le> i \<Longrightarrow> a1 ! i = a ! i"
    by auto
  have step: "add_step dims1 dims2 (add_stack_of dims1 dims2 p)
        (int (v * ?o1 + v) - 1) (int (v * ?o2 + v) - 1) v v =
     Inr (add_stack_of dims1 dims2 ?p',
          int (v * ?o1 + v) - 1 + int v * (int ?o1' - int ?o1),
          int (v * ?o2 + v) - 1 + int v * (int ?o2' - int ?o2))"
    using len ok1 ok2 Suc.prems(1) pos small1 small2 by (rule add_step_pred)
  have pv': "int (v * ?o1 + v) - 1 + int v * (int ?o1' - int ?o1) = int (v * (?o1' + 1)) - 1"
    "int (v * ?o2 + v) - 1 + int v * (int ?o2' - int ?o2) = int (v * (?o2' + 1)) - 1"
    by (simp_all add: algebra_simps)
  have top': "int (v * ?j + v) - 1 - int v = int (v * (mixed_radix ?rs ?p' + 1)) - 1"
    by (simp add: j' jj algebra_simps)
  have nz: "int (v * ?j + v) - 1 - int v \<noteq> - 1"
    using pos v by (simp add: algebra_simps)
  have "0 < v * ?j + v" using v by simp
  then have "0 < int (v * ?j + v)" by (simp only: of_nat_0_less_iff)
  then have nn: "\<not> int (v * ?j + v) - 1 < 0" by linarith
  have len': "v * (mixed_radix ?rs ?p' + 1) \<le> length a1"
    using Suc.prems(2) by (simp add: j' jj a1(2))
  from Suc.hyps(1) [OF j' [symmetric] gp' len']
  obtain a' where a': "add_loop v dims1 dims2 (add_stack_of dims1 dims2 ?p') a1 b
            (int (v * (?o1' + 1)) - 1) (int (v * (?o2' + 1)) - 1)
            (int (v * (mixed_radix ?rs ?p' + 1)) - 1)
          = Inr (a', int v - 1, int v - 1)"
      "length a' = length a1"
      "\<And>q k. grid_point ?rs q \<Longrightarrow> mixed_radix ?rs q \<le> mixed_radix ?rs ?p' \<Longrightarrow> k < v \<Longrightarrow>
         a' ! (v * mixed_radix ?rs q + k) =
           a1 ! (v * cell_at dims1 (add_bounds dims1 dims2 q) + k) +
           b ! (v * cell_at dims2 (add_bounds dims1 dims2 q) + k)"
      "\<And>i. i < length a1 \<Longrightarrow> v * (mixed_radix ?rs ?p' + 1) \<le> i \<Longrightarrow> a' ! i = a1 ! i"
    by blast
  have run: "add_loop v dims1 dims2 (add_stack_of dims1 dims2 p) a b
            (int (v * ?o1 + v) - 1) (int (v * ?o2 + v) - 1) (int (v * ?j + v) - 1)
        = Inr (a', int v - 1, int v - 1)"
    using v nz nn
    apply (subst add_loop.simps)
    apply (simp only: a1(1) step pv' top' a'(1) if_False sum.case prod.case)
    apply simp
    done
  have cells: "a' ! (v * mixed_radix ?rs q + k) =
      a ! (v * cell_at dims1 (add_bounds dims1 dims2 q) + k) +
      b ! (v * cell_at dims2 (add_bounds dims1 dims2 q) + k)"
    if q: "grid_point ?rs q" "mixed_radix ?rs q \<le> ?j" "k < v" for q k
  proof (cases "mixed_radix ?rs q = ?j")
    case True
    with mixed_radix_inj [OF q(1) Suc.prems(1)] have qp: "q = p" by simp
    have "v * ?j + k < length a1" using Suc.prems(2) q(3) a1(2) by simp
    moreover have "v * (mixed_radix ?rs ?p' + 1) \<le> v * ?j + k" by (simp add: j' jj)
    ultimately have "a' ! (v * ?j + k) = a1 ! (v * ?j + k)" by (rule a'(4))
    with a1(3) [OF q(3)] show ?thesis by (simp add: qp)
  next
    case False
    let ?c = "cell_at dims1 (add_bounds dims1 dims2 q)"
    from False q(2) jj j' have le: "mixed_radix ?rs q \<le> mixed_radix ?rs ?p'" by simp
    have "?c \<le> mixed_radix ?rs q" using cell_at_bounds_le [OF len ok1 ok2 q(1)] by simp
    with le j' have "?c + 1 \<le> ?j" by (simp add: jj)
    then have "v * (?c + 1) \<le> v * ?j" by (rule mult_le_mono2)
    with q(3) have lt: "v * ?c + k < v * ?j" by simp
    with Suc.prems(2) have "v * ?c + k < length a" by simp
    with lt have "a1 ! (v * ?c + k) = a ! (v * ?c + k)"
      by (intro a1(4)) simp_all
    with a'(3) [OF q(1) le q(3)] show ?thesis by simp
  qed
  have frame: "a' ! i = a ! i" if "i < length a" "v * (?j + 1) \<le> i" for i
  proof -
    have "a' ! i = a1 ! i" using that by (intro a'(4)) (simp_all add: a1(2) j' jj)
    also have "\<dots> = a ! i" using that by (intro a1(4)) simp_all
    finally show ?thesis .
  qed
  have e1: "int (v * (?o1 + 1)) - 1 = int (v * ?o1 + v) - 1"
    and e3: "int (v * (?o2 + 1)) - 1 = int (v * ?o2 + v) - 1"
    and e2: "int (v * (?j + 1)) - 1 = int (v * ?j + v) - 1"
    by simp_all
  show ?case
    unfolding e1 e2 e3 using run a'(2) a1(2) cells frame by auto
qed

subsection \<open>The cuts of the sum\<close>

lemma merge_cuts_Nil2: "merge_cuts xs [] = xs"
  by (cases xs) simp_all

lemma merge_cuts_length:
  "length xs \<le> length (merge_cuts xs ys) \<and> length ys \<le> length (merge_cuts xs ys)"
  by (induction xs ys rule: merge_cuts.induct) auto

lemma merge_cuts_same_length:
  assumes "sorted_wrt (<) xs" "sorted_wrt (<) ys"
  shows "length (merge_cuts xs ys) = length xs \<Longrightarrow> merge_cuts xs ys = xs"
    "length (merge_cuts xs ys) = length ys \<Longrightarrow> merge_cuts xs ys = ys"
proof -
  let ?m = "merge_cuts xs ys"
  have sm: "sorted_wrt (<) ?m" using assms by (rule merge_cuts_sorted)
  note dm = sorted_distinct [OF sm] and dx = sorted_distinct [OF assms(1)]
    and dy = sorted_distinct [OF assms(2)]
  {
    assume l: "length ?m = length xs"
    have "card (set xs) = card (set ?m)"
      using distinct_card [OF dm] distinct_card [OF dx] l by simp
    moreover have "set xs \<subseteq> set ?m" by (simp add: merge_cuts_set)
    ultimately have "set xs = set ?m" by (intro card_subset_eq) simp_all
    then have "set ?m = set xs" by simp
    with assms(1) sm show "?m = xs" by (rule strict_sorted_equal)
  }
  {
    assume l: "length ?m = length ys"
    have "card (set ys) = card (set ?m)"
      using distinct_card [OF dm] distinct_card [OF dy] l by simp
    moreover have "set ys \<subseteq> set ?m" by (simp add: merge_cuts_set)
    ultimately have "set ys = set ?m" by (intro card_subset_eq) simp_all
    then have "set ?m = set ys" by simp
    with assms(2) sm show "?m = ys" by (rule strict_sorted_equal)
  }
qed

lemma merge_cuts_snoc:
  assumes "sorted_wrt (<) (xs @ [x])" "sorted_wrt (<) (ys @ [y])"
  shows "merge_cuts (xs @ [x]) (ys @ [y]) =
     merge_cuts (if y \<le> x then xs else xs @ [x]) (if x \<le> y then ys else ys @ [y])
       @ [if x \<le> y then y else x]"
proof -
  let ?xs' = "if y \<le> x then xs else xs @ [x]" and ?ys' = "if x \<le> y then ys else ys @ [y]"
  let ?d = "if x \<le> y then y else x"
  have sx: "sorted_wrt (<) ?xs'" and sy: "sorted_wrt (<) ?ys'"
    using assms by (simp_all add: sorted_wrt_append)
  have s1: "sorted_wrt (<) (merge_cuts (xs @ [x]) (ys @ [y]))"
    using assms by (rule merge_cuts_sorted)
  have below: "\<forall>c \<in> set (merge_cuts ?xs' ?ys'). c < ?d"
    using assms by (auto simp: merge_cuts_set sorted_wrt_append split: if_splits)
  have s2: "sorted_wrt (<) (merge_cuts ?xs' ?ys' @ [?d])"
    using merge_cuts_sorted [OF sx sy] below by (simp add: sorted_wrt_append)
  have "set (merge_cuts (xs @ [x]) (ys @ [y])) = set (merge_cuts ?xs' ?ys' @ [?d])"
    by (auto simp: merge_cuts_set split: if_splits)
  with s2 s1 show ?thesis by (rule strict_sorted_equal)
qed

lemma add_cuts_merge:
  "sorted_wrt (<) (take i1 a1) \<Longrightarrow> sorted_wrt (<) (take i2 a2) \<Longrightarrow>
   i1 \<le> length a1 \<Longrightarrow> i2 \<le> length a2 \<Longrightarrow>
   n = length (merge_cuts (take i1 a1) (take i2 a2)) \<Longrightarrow> n \<le> length a1 \<Longrightarrow>
   \<exists>a'. add_cuts a1 a2 (int i1 - 1) (int i2 - 1) (int n - 1) = Inr a' \<and>
     length a' = length a1 \<and>
     take n a' = merge_cuts (take i1 a1) (take i2 a2) \<and> drop n a' = drop n a1"
proof (induction n arbitrary: i1 i2 a1)
  case 0
  have "i1 \<le> 0"
    using merge_cuts_length [of "take i1 a1" "take i2 a2"] "0.prems"(3) "0.prems"(5) [symmetric]
    by simp
  then have i1: "i1 = 0" by simp
  have "i2 \<le> 0"
    using merge_cuts_length [of "take i1 a1" "take i2 a2"] "0.prems"(4) "0.prems"(5) [symmetric]
    by simp
  then have i2: "i2 = 0" by simp
  have "add_cuts a1 a2 (int i1 - 1) (int i2 - 1) (int 0 - 1) = Inr a1"
    by (subst add_cuts.simps) (simp add: i1 i2)
  moreover have "take 0 a1 = merge_cuts (take i1 a1) (take i2 a2)"
    using "0.prems"(5) by simp
  ultimately show ?case by blast
next
  case (Suc m)
  let ?X = "take i1 a1" and ?Y = "take i2 a2"
  let ?M = "merge_cuts ?X ?Y"
  note lM = Suc.prems(5) [symmetric]
  have lX: "length ?X = i1" and lY: "length ?Y = i2"
    using Suc.prems(3,4) by simp_all
  have le: "i1 \<le> Suc m" "i2 \<le> Suc m"
    using merge_cuts_length [of ?X ?Y] lX lY lM by simp_all
  show ?case
  proof (cases "Suc m = i1")
    case True
    have "length ?M = length ?X" using lM lX True by simp
    with Suc.prems(1,2) have "?M = ?X" by (rule merge_cuts_same_length(1))
    then have "take (Suc m) a1 = ?M" using True by simp
    moreover have "add_cuts a1 a2 (int i1 - 1) (int i2 - 1) (int (Suc m) - 1) = Inr a1"
      using le(2) by (subst add_cuts.simps) (simp add: True [symmetric])
    ultimately show ?thesis by blast
  next
    case ne1: False
    show ?thesis
    proof (cases "Suc m = i2")
      case True
      have "length ?M = length ?Y" using lM lY True by simp
      with Suc.prems(1,2) have "?M = ?Y" by (rule merge_cuts_same_length(2))
      then have M: "?M = take (Suc m) a2" using True by simp
      let ?r = "take (Suc m) a2 @ drop (Suc m) a1"
      have l2: "Suc m \<le> length a2" using Suc.prems(4) True by simp
      have nm: "nat (int m + 1) = Suc m" by simp
      have "add_cuts a1 a2 (int i1 - 1) (int i2 - 1) (int (Suc m) - 1) = Inr ?r"
        using le(1) ne1 l2 Suc.prems(6)
        by (subst add_cuts.simps) (simp add: True [symmetric] nm)
      moreover have "length ?r = length a1" using l2 Suc.prems(6) by simp
      moreover have "take (Suc m) ?r = ?M" using l2 by (simp add: M)
      moreover have "drop (Suc m) ?r = drop (Suc m) a1" using l2 by simp
      ultimately show ?thesis by blast
    next
      case ne2: False
      have lt: "i1 < Suc m" "i2 < Suc m" using le ne1 ne2 by simp_all
      have "i1 \<noteq> 0"
      proof
        assume "i1 = 0"
        then have "?M = ?Y" by simp
        with lM lY ne2 show False by simp
      qed
      then obtain j1 where j1: "i1 = Suc j1" by (cases i1) simp_all
      have "i2 \<noteq> 0"
      proof
        assume "i2 = 0"
        then have "?M = ?X" by (simp add: merge_cuts_Nil2)
        with lM lX ne1 show False by simp
      qed
      then obtain j2 where j2: "i2 = Suc j2" by (cases i2) simp_all
      let ?d1 = "a1 ! j1" and ?d2 = "a2 ! j2"
      let ?d = "if ?d1 \<le> ?d2 then ?d2 else ?d1"
      let ?i1' = "if ?d2 \<le> ?d1 then j1 else Suc j1"
      let ?i2' = "if ?d1 \<le> ?d2 then j2 else Suc j2"
      let ?a = "a1[m := ?d]"
      have jl: "j1 < length a1" "j2 < length a2" using Suc.prems(3,4) j1 j2 by simp_all
      have ml: "m < length a1" using Suc.prems(6) by simp
      have X: "?X = take j1 a1 @ [?d1]" and Y: "?Y = take j2 a2 @ [?d2]"
        using jl by (simp_all add: j1 j2 take_Suc_conv_app_nth)
      have sn: "?M = merge_cuts (if ?d2 \<le> ?d1 then take j1 a1 else take j1 a1 @ [?d1])
            (if ?d1 \<le> ?d2 then take j2 a2 else take j2 a2 @ [?d2]) @ [?d]"
        unfolding X Y using Suc.prems(1,2) [unfolded X Y] by (rule merge_cuts_snoc)
      have X': "(if ?d2 \<le> ?d1 then take j1 a1 else take j1 a1 @ [?d1]) = take ?i1' a1"
        using jl by (simp add: take_Suc_conv_app_nth)
      have Y': "(if ?d1 \<le> ?d2 then take j2 a2 else take j2 a2 @ [?d2]) = take ?i2' a2"
        using jl by (simp add: take_Suc_conv_app_nth)
      have i1m: "?i1' \<le> m" using lt(1) j1 by simp
      have ta: "take ?i1' ?a = take ?i1' a1" using i1m by simp
      have sn': "?M = merge_cuts (take ?i1' ?a) (take ?i2' a2) @ [?d]"
        using sn unfolding X' Y' ta .
      have p1: "sorted_wrt (<) (take ?i1' ?a)"
        unfolding ta using Suc.prems(1) [unfolded X] by (simp add: X' [symmetric] sorted_wrt_append)
      have p2: "sorted_wrt (<) (take ?i2' a2)"
        using Suc.prems(2) [unfolded Y] by (simp add: Y' [symmetric] sorted_wrt_append)
      have p3: "?i1' \<le> length ?a" using jl by simp
      have p4: "?i2' \<le> length a2" using jl by simp
      have p5: "m = length (merge_cuts (take ?i1' ?a) (take ?i2' a2))"
        using lM sn' by (metis length_append_singleton nat.inject)
      have p6: "m \<le> length ?a" using ml by simp
      from Suc.IH [OF p1 p2 p3 p4 p5 p6]
      obtain a' where a': "add_cuts ?a a2 (int ?i1' - 1) (int ?i2' - 1) (int m - 1) = Inr a'"
        "length a' = length ?a" "take m a' = merge_cuts (take ?i1' ?a) (take ?i2' a2)"
        "drop m a' = drop m ?a"
        by blast
      have la: "length a' = length a1" using a'(2) by simp
      have "a' ! m = drop m a' ! 0" using ml la by simp
      also have "\<dots> = ?d" unfolding a'(4) using ml by simp
      finally have am: "a' ! m = ?d" .
      have "take (Suc m) a' = take m a' @ [a' ! m]"
        using ml la by (simp add: take_Suc_conv_app_nth)
      then have r1: "take (Suc m) a' = ?M" unfolding a'(3) am sn' .
      have "drop (Suc m) a' = drop 1 (drop m a')" by simp
      also have "\<dots> = drop 1 (drop m ?a)" unfolding a'(4) ..
      also have "\<dots> = drop (Suc m) a1" by simp
      finally have r2: "drop (Suc m) a' = drop (Suc m) a1" .
      have pe: "(if ?d2 \<le> ?d1 then int (Suc j1) - 1 - 1 else int (Suc j1) - 1) = int ?i1' - 1"
        "(if ?d1 \<le> ?d2 then int (Suc j2) - 1 - 1 else int (Suc j2) - 1) = int ?i2' - 1"
        "int (Suc m) - 1 - 1 = int m - 1"
        by simp_all
      have g1: "int (Suc m) - 1 \<noteq> int (Suc j1) - 1" "int (Suc m) - 1 \<noteq> int (Suc j2) - 1"
        using ne1 ne2 j1 j2 by simp_all
      have g2: "- 1 \<le> int (Suc m) - 1 \<and> - 1 \<le> int (Suc j1) - 1 \<and> - 1 \<le> int (Suc j2) - 1 \<and>
          int (Suc j1) - 1 \<le> int (Suc m) - 1 \<and> int (Suc j2) - 1 \<le> int (Suc m) - 1"
        using le j1 j2 by simp
      have g3: "0 \<le> int (Suc j1) - 1 \<and> nat (int (Suc j1) - 1) < length a1 \<and>
          0 \<le> int (Suc j2) - 1 \<and> nat (int (Suc j2) - 1) < length a2 \<and>
          nat (int (Suc m) - 1) < length a1"
        using jl ml by simp
      have nn: "nat (int (Suc j1) - 1) = j1" "nat (int (Suc j2) - 1) = j2"
        "nat (int (Suc m) - 1) = m"
        by simp_all
      have run: "add_cuts a1 a2 (int (Suc j1) - 1) (int (Suc j2) - 1) (int (Suc m) - 1) = Inr a'"
        apply (subst add_cuts.simps)
        apply (simp only: g1 g2 g3 nn Let_def pe a'(1) if_False not_True_eq_False not_not)
        apply (simp add: jl ml)
        done
      show ?thesis
        unfolding j1 j2 using run la r1 [unfolded j1 j2] r2 by blast
    qed
  qed
qed

subsection \<open>The whole of Add\<close>

lemma SetCountDivisions_success:
  assumes "SetCountDivisions ok junk i n t = Inr (False, t1)" and small: "n < 2 ^ 60"
  shows "\<exists>a. t1 = t\<lparr>m_aDimensions := (m_aDimensions t)[i := \<lparr>cDivisions = n, aDivisions = a\<rparr>]\<rparr> \<and>
      n \<le> length a \<and>
      take (length (aDivisions (m_aDimensions t ! i))) a = aDivisions (m_aDimensions t ! i)"
proof (cases "length (aDivisions (m_aDimensions t ! i)) < n")
  case True
  let ?a = "realloc_list junk (n + n div 2) (aDivisions (m_aDimensions t ! i))"
  have "t1 = t\<lparr>m_aDimensions := (m_aDimensions t)[i := \<lparr>cDivisions = n, aDivisions = ?a\<rparr>]\<rparr>"
    using assms(1) True
    by (simp add: SetCountDivisions_def Let_def sizeof_TDivisions_def realloc_cells [OF small]
        split: if_splits)
  moreover have "n \<le> length ?a" using True by (simp add: realloc_list_def)
  moreover have "take (length (aDivisions (m_aDimensions t ! i))) ?a = aDivisions (m_aDimensions t ! i)"
    using True by (simp add: realloc_list_def)
  ultimately show ?thesis by blast
next
  case False
  let ?a = "aDivisions (m_aDimensions t ! i)"
  have eq: "(m_aDimensions t ! i)\<lparr>cDivisions := n\<rparr> = \<lparr>cDivisions = n, aDivisions = ?a\<rparr>"
    by simp
  have "t1 = t\<lparr>m_aDimensions := (m_aDimensions t)[i := (m_aDimensions t ! i)\<lparr>cDivisions := n\<rparr>]\<rparr>"
    using assms(1) False by (simp add: SetCountDivisions_def Let_def split: if_splits)
  then have "t1 = t\<lparr>m_aDimensions := (m_aDimensions t)[i := \<lparr>cDivisions = n, aDivisions = ?a\<rparr>]\<rparr>"
    unfolding eq .
  moreover have "n \<le> length ?a" using False by simp
  ultimately show ?thesis by auto
qed

lemma EnsureValueCapacity_success:
  assumes "EnsureValueCapacity ok junk n t = Inr (False, t1)" and small: "n < 2 ^ 60"
  shows "\<exists>a. t1 = t\<lparr>m_aValues := a\<rparr> \<and> n \<le> length a \<and> length (m_aValues t) \<le> length a \<and>
     (\<forall>i<length (m_aValues t). a ! i = m_aValues t ! i)"
proof (cases "length (m_aValues t) < n")
  case True
  let ?a = "realloc_list junk (n + n div 2) (m_aValues t)"
  have "t1 = t\<lparr>m_aValues := ?a\<rparr>"
    using assms(1) True
    by (simp add: EnsureValueCapacity_def Let_def sizeof_TValues_def realloc_cells [OF small]
        split: if_splits)
  moreover have "n \<le> length ?a" "length (m_aValues t) \<le> length ?a"
    using True by (simp_all add: realloc_list_def)
  moreover have "\<forall>i<length (m_aValues t). ?a ! i = m_aValues t ! i"
    using True by (simp add: realloc_list_def nth_append)
  ultimately show ?thesis by blast
next
  case False
  have "t1 = t\<lparr>m_aValues := m_aValues t\<rparr>"
    using assms(1) False by (simp add: EnsureValueCapacity_def)
  moreover have "n \<le> length (m_aValues t)" using False by simp
  ultimately show ?thesis by blast
qed

lemma add_divisions_result:
  "add_divisions ok junk N k st dims2 t = Inr (False, t') \<Longrightarrow> k \<le> N \<Longrightarrow>
   N \<le> length (m_aDimensions t) \<Longrightarrow> length st = k \<Longrightarrow> length dims2 = k \<Longrightarrow>
   (\<forall>j<k. cuts_ok (m_aDimensions t ! (N - k + j)) \<and> cuts_ok (dims2 ! j) \<and>
       cNewDivisions (st ! j) = length (merged (m_aDimensions t ! (N - k + j)) (dims2 ! j))) \<Longrightarrow>
   (\<forall>j<k. cNewDivisions (st ! j) < 2 ^ 60) \<Longrightarrow>
   m_aValues t' = m_aValues t \<and> m_cVectorLength t' = m_cVectorLength t \<and>
   m_cDimensions t' = m_cDimensions t \<and> length (m_aDimensions t') = length (m_aDimensions t) \<and>
   (\<forall>j<N - k. m_aDimensions t' ! j = m_aDimensions t ! j) \<and>
   (\<forall>j<k. cDivisions (m_aDimensions t' ! (N - k + j))
            = length (merged (m_aDimensions t ! (N - k + j)) (dims2 ! j)) \<and>
          cDivisions (m_aDimensions t' ! (N - k + j))
            \<le> length (aDivisions (m_aDimensions t' ! (N - k + j))) \<and>
          cuts_of (m_aDimensions t' ! (N - k + j))
            = merged (m_aDimensions t ! (N - k + j)) (dims2 ! j))"
proof (induction k arbitrary: st dims2 t)
  case 0
  then show ?case by simp
next
  case (Suc k)
  from Suc.prems(4) obtain s st' where st: "st = s # st'" and lst: "length st' = k"
    by (auto simp: length_Suc_conv)
  from Suc.prems(5) obtain d2 dims2' where d2: "dims2 = d2 # dims2'" and ld2: "length dims2' = k"
    by (auto simp: length_Suc_conv)
  let ?i = "N - Suc k"
  let ?d1 = "m_aDimensions t ! ?i"
  let ?n = "cNewDivisions s"
  have kN: "Suc k \<le> N" by (rule Suc.prems(2))
  have il: "?i < length (m_aDimensions t)" using Suc.prems(2,3) by simp
  have ix: "N - k + j = N - Suc k + Suc j" "N - k + j \<noteq> ?i" for j
    using kN by simp_all
  have h0: "cuts_ok ?d1" "cuts_ok d2" "?n = length (merged ?d1 d2)"
    using Suc.prems(6) [rule_format, of 0] st d2 by simp_all
  have hS: "cuts_ok (m_aDimensions t ! (N - k + j)) \<and> cuts_ok (dims2' ! j) \<and>
       cNewDivisions (st' ! j) = length (merged (m_aDimensions t ! (N - k + j)) (dims2' ! j))"
    if "j < k" for j
    using Suc.prems(6) [rule_format, of "Suc j"] that unfolding ix st d2 by simp
  have sm0: "?n < 2 ^ 60"
    using Suc.prems(7) [rule_format, of 0] st by simp
  have q7: "\<forall>j<k. cNewDivisions (st' ! j) < 2 ^ 60"
  proof (intro allI impI)
    fix j assume "j < k"
    then show "cNewDivisions (st' ! j) < 2 ^ 60"
      using Suc.prems(7) [rule_format, of "Suc j"] st by simp
  qed
  note c1 = cuts_ok_cuts [OF h0(1)] and c2 = cuts_ok_cuts [OF h0(2)]
  from Suc.prems(1) have run:
    "(case SetCountDivisions ok junk ?i ?n t of
        Inl e \<Rightarrow> Inl e
      | Inr (True, t1) \<Rightarrow> Inr (True, t1)
      | Inr (False, t1) \<Rightarrow>
          (case add_cuts (aDivisions (m_aDimensions t1 ! ?i)) (aDivisions d2)
                  (int (cDivisions ?d1) - 1) (int (cDivisions d2) - 1) (int ?n - 1) of
             Inl e \<Rightarrow> Inl e
           | Inr a \<Rightarrow>
               add_divisions ok junk N k st' dims2'
                 (t1\<lparr>m_aDimensions := (m_aDimensions t1)[?i :=
                       (m_aDimensions t1 ! ?i)\<lparr>aDivisions := a\<rparr>]\<rparr>))) = Inr (False, t')"
    unfolding st d2 using il by (simp add: Let_def)
  then obtain t1 where t1: "SetCountDivisions ok junk ?i ?n t = Inr (False, t1)"
    by (auto split: sum.splits prod.splits bool.splits if_splits)
  from SetCountDivisions_success [OF t1 sm0] obtain a where
    a: "t1 = t\<lparr>m_aDimensions := (m_aDimensions t)[?i := \<lparr>cDivisions = ?n, aDivisions = a\<rparr>]\<rparr>"
      "?n \<le> length a" "take (length (aDivisions ?d1)) a = aDivisions ?d1"
    by blast
  have a1: "aDivisions (m_aDimensions t1 ! ?i) = a" using il by (simp add: a(1))
  have "take (cDivisions ?d1) (take (length (aDivisions ?d1)) a) = take (cDivisions ?d1) a"
    using c1(3) by (simp add: min_def)
  then have tk: "take (cDivisions ?d1) a = cuts_of ?d1"
    unfolding a(3) by (simp add: cuts_of_def)
  have la: "cDivisions ?d1 \<le> length a"
    using merged_length(1) [OF h0(1,2)] h0(3) a(2) by simp
  have mg: "merge_cuts (take (cDivisions ?d1) a) (take (cDivisions d2) (aDivisions d2)) = merged ?d1 d2"
    unfolding tk merged_def by (simp add: cuts_of_def)
  have "\<exists>a'. add_cuts a (aDivisions d2) (int (cDivisions ?d1) - 1) (int (cDivisions d2) - 1)
          (int ?n - 1) = Inr a' \<and> length a' = length a \<and>
     take ?n a' = merge_cuts (take (cDivisions ?d1) a) (take (cDivisions d2) (aDivisions d2)) \<and>
     drop ?n a' = drop ?n a"
  proof (rule add_cuts_merge)
    show "sorted_wrt (<) (take (cDivisions ?d1) a)" unfolding tk by (rule c1(2))
    show "sorted_wrt (<) (take (cDivisions d2) (aDivisions d2))"
      using c2(2) by (simp add: cuts_of_def)
    show "cDivisions ?d1 \<le> length a" by (rule la)
    show "cDivisions d2 \<le> length (aDivisions d2)" by (rule c2(3))
    show "?n = length (merge_cuts (take (cDivisions ?d1) a) (take (cDivisions d2) (aDivisions d2)))"
      unfolding mg by (rule h0(3))
    show "?n \<le> length a" by (rule a(2))
  qed
  then obtain a' where a': "add_cuts a (aDivisions d2) (int (cDivisions ?d1) - 1)
        (int (cDivisions d2) - 1) (int ?n - 1) = Inr a'"
      "length a' = length a" "take ?n a' = merged ?d1 d2"
    unfolding mg by blast
  let ?t2 = "t\<lparr>m_aDimensions := (m_aDimensions t)[?i := \<lparr>cDivisions = ?n, aDivisions = a'\<rparr>]\<rparr>"
  have t2: "t1\<lparr>m_aDimensions := (m_aDimensions t1)[?i :=
      (m_aDimensions t1 ! ?i)\<lparr>aDivisions := a'\<rparr>]\<rparr> = ?t2"
    using il by (simp add: a(1))
  have run2: "(case add_cuts (aDivisions (m_aDimensions t1 ! ?i)) (aDivisions d2)
                  (int (cDivisions ?d1) - 1) (int (cDivisions d2) - 1) (int ?n - 1) of
             Inl e \<Rightarrow> Inl e
           | Inr a \<Rightarrow>
               add_divisions ok junk N k st' dims2'
                 (t1\<lparr>m_aDimensions := (m_aDimensions t1)[?i :=
                       (m_aDimensions t1 ! ?i)\<lparr>aDivisions := a\<rparr>]\<rparr>)) = Inr (False, t')"
    using run unfolding t1 by simp
  have run3: "add_divisions ok junk N k st' dims2'
                 (t1\<lparr>m_aDimensions := (m_aDimensions t1)[?i :=
                       (m_aDimensions t1 ! ?i)\<lparr>aDivisions := a'\<rparr>]\<rparr>) = Inr (False, t')"
    using run2 unfolding a1 a'(1) by simp
  have rec: "add_divisions ok junk N k st' dims2' ?t2 = Inr (False, t')"
    using run3 unfolding t2 .
  have q2: "k \<le> N" using kN by simp
  have q3: "N \<le> length (m_aDimensions ?t2)" using Suc.prems(3) by simp
  have same: "m_aDimensions ?t2 ! (N - k + j) = m_aDimensions t ! (N - k + j)" for j
    using ix(2) [of j] by simp
  have q6: "\<forall>j<k. cuts_ok (m_aDimensions ?t2 ! (N - k + j)) \<and> cuts_ok (dims2' ! j) \<and>
       cNewDivisions (st' ! j) = length (merged (m_aDimensions ?t2 ! (N - k + j)) (dims2' ! j))"
    unfolding same using hS by blast
  note ih = Suc.IH [OF rec q2 q3 lst ld2 q6 q7, unfolded same]
  have i_lt: "?i < N - k" using kN by simp
  have at_i: "m_aDimensions t' ! ?i = \<lparr>cDivisions = ?n, aDivisions = a'\<rparr>"
  proof -
    from ih i_lt have "m_aDimensions t' ! ?i = m_aDimensions ?t2 ! ?i" by blast
    then show ?thesis using il by simp
  qed
  have below: "m_aDimensions t' ! j = m_aDimensions t ! j" if "j < N - Suc k" for j
  proof -
    from that have "j < N - k" by simp
    with ih have "m_aDimensions t' ! j = m_aDimensions ?t2 ! j" by blast
    with that show ?thesis by simp
  qed
  have main: "cDivisions (m_aDimensions t' ! (N - Suc k + j))
            = length (merged (m_aDimensions t ! (N - Suc k + j)) (dims2 ! j)) \<and>
          cDivisions (m_aDimensions t' ! (N - Suc k + j))
            \<le> length (aDivisions (m_aDimensions t' ! (N - Suc k + j))) \<and>
          cuts_of (m_aDimensions t' ! (N - Suc k + j))
            = merged (m_aDimensions t ! (N - Suc k + j)) (dims2 ! j)"
    if "j < Suc k" for j
  proof (cases j)
    case 0
    show ?thesis
      unfolding 0 using at_i h0(3) a'(2,3) a(2) by (simp add: d2 cuts_of_def)
  next
    case (Suc j')
    with that have jk: "j' < k" by simp
    have q: "cDivisions (m_aDimensions t' ! (N - k + j'))
            = length (merged (m_aDimensions t ! (N - k + j')) (dims2' ! j')) \<and>
          cDivisions (m_aDimensions t' ! (N - k + j'))
            \<le> length (aDivisions (m_aDimensions t' ! (N - k + j'))) \<and>
          cuts_of (m_aDimensions t' ! (N - k + j'))
            = merged (m_aDimensions t ! (N - k + j')) (dims2' ! j')"
      using ih jk by blast
    have e2: "dims2 ! Suc j' = dims2' ! j'" by (simp add: d2)
    show ?thesis unfolding Suc ix(1) [symmetric] e2 by (rule q)
  qed
  from ih have "m_aValues t' = m_aValues t" "m_cVectorLength t' = m_cVectorLength t"
    "m_cDimensions t' = m_cDimensions t" "length (m_aDimensions t') = length (m_aDimensions t)"
    by simp_all
  with below main show ?case by blast
qed

lemma add_divisions_run:
  "\<forall>n. ok n \<Longrightarrow> \<not> m_bExpanded t \<Longrightarrow> k \<le> N \<Longrightarrow> N \<le> m_cDimensions t \<Longrightarrow>
   N \<le> length (m_aDimensions t) \<Longrightarrow> length st = k \<Longrightarrow> length dims2 = k \<Longrightarrow>
   (\<forall>j<k. cuts_ok (m_aDimensions t ! (N - k + j)) \<and> cuts_ok (dims2 ! j) \<and>
       cNewDivisions (st ! j) = length (merged (m_aDimensions t ! (N - k + j)) (dims2 ! j))) \<Longrightarrow>
   (\<forall>j<k. cNewDivisions (st ! j) < 2 ^ 60) \<Longrightarrow>
   \<exists>t'. add_divisions ok junk N k st dims2 t = Inr (False, t')"
proof (induction k arbitrary: st dims2 t)
  case 0
  then show ?case by simp
next
  case (Suc k)
  from Suc.prems(6) obtain s st' where st: "st = s # st'" and lst: "length st' = k"
    by (auto simp: length_Suc_conv)
  from Suc.prems(7) obtain d2 dims2' where d2: "dims2 = d2 # dims2'" and ld2: "length dims2' = k"
    by (auto simp: length_Suc_conv)
  let ?i = "N - Suc k"
  let ?d1 = "m_aDimensions t ! ?i"
  let ?n = "cNewDivisions s"
  have kN: "Suc k \<le> N" by (rule Suc.prems(3))
  have il: "?i < length (m_aDimensions t)" using Suc.prems(3,5) by simp
  have im: "?i < m_cDimensions t" using Suc.prems(3,4) by simp
  have ix: "N - k + j = N - Suc k + Suc j" "N - k + j \<noteq> ?i" for j
    using kN by simp_all
  have h0: "cuts_ok ?d1" "cuts_ok d2" "?n = length (merged ?d1 d2)"
    using Suc.prems(8) [rule_format, of 0] st d2 by simp_all
  have hS: "cuts_ok (m_aDimensions t ! (N - k + j)) \<and> cuts_ok (dims2' ! j) \<and>
       cNewDivisions (st' ! j) = length (merged (m_aDimensions t ! (N - k + j)) (dims2' ! j))"
    if "j < k" for j
    using Suc.prems(8) [rule_format, of "Suc j"] that unfolding ix st d2 by simp
  have sm0: "?n < 2 ^ 60"
    using Suc.prems(9) [rule_format, of 0] st by simp
  have q7: "\<forall>j<k. cNewDivisions (st' ! j) < 2 ^ 60"
  proof (intro allI impI)
    fix j assume "j < k"
    then show "cNewDivisions (st' ! j) < 2 ^ 60"
      using Suc.prems(9) [rule_format, of "Suc j"] st by simp
  qed
  note c1 = cuts_ok_cuts [OF h0(1)] and c2 = cuts_ok_cuts [OF h0(2)]
  from SetCountDivisions_grow [OF Suc.prems(1,2) im il sm0, of junk]
  obtain t1 where t1: "SetCountDivisions ok junk ?i ?n t = Inr (False, t1)"
    by blast
  from SetCountDivisions_success [OF t1 sm0] obtain a where
    a: "t1 = t\<lparr>m_aDimensions := (m_aDimensions t)[?i := \<lparr>cDivisions = ?n, aDivisions = a\<rparr>]\<rparr>"
      "?n \<le> length a" "take (length (aDivisions ?d1)) a = aDivisions ?d1"
    by blast
  have a1: "aDivisions (m_aDimensions t1 ! ?i) = a" using il by (simp add: a(1))
  have "take (cDivisions ?d1) (take (length (aDivisions ?d1)) a) = take (cDivisions ?d1) a"
    using c1(3) by (simp add: min_def)
  then have tk: "take (cDivisions ?d1) a = cuts_of ?d1"
    unfolding a(3) by (simp add: cuts_of_def)
  have la: "cDivisions ?d1 \<le> length a"
    using merged_length(1) [OF h0(1,2)] h0(3) a(2) by simp
  have mg: "merge_cuts (take (cDivisions ?d1) a) (take (cDivisions d2) (aDivisions d2)) = merged ?d1 d2"
    unfolding tk merged_def by (simp add: cuts_of_def)
  have "\<exists>a'. add_cuts a (aDivisions d2) (int (cDivisions ?d1) - 1) (int (cDivisions d2) - 1)
          (int ?n - 1) = Inr a' \<and> length a' = length a \<and>
     take ?n a' = merge_cuts (take (cDivisions ?d1) a) (take (cDivisions d2) (aDivisions d2)) \<and>
     drop ?n a' = drop ?n a"
  proof (rule add_cuts_merge)
    show "sorted_wrt (<) (take (cDivisions ?d1) a)" unfolding tk by (rule c1(2))
    show "sorted_wrt (<) (take (cDivisions d2) (aDivisions d2))"
      using c2(2) by (simp add: cuts_of_def)
    show "cDivisions ?d1 \<le> length a" by (rule la)
    show "cDivisions d2 \<le> length (aDivisions d2)" by (rule c2(3))
    show "?n = length (merge_cuts (take (cDivisions ?d1) a) (take (cDivisions d2) (aDivisions d2)))"
      unfolding mg by (rule h0(3))
    show "?n \<le> length a" by (rule a(2))
  qed
  then obtain a' where a': "add_cuts a (aDivisions d2) (int (cDivisions ?d1) - 1)
        (int (cDivisions d2) - 1) (int ?n - 1) = Inr a'"
    by blast
  let ?t2 = "t\<lparr>m_aDimensions := (m_aDimensions t)[?i := \<lparr>cDivisions = ?n, aDivisions = a'\<rparr>]\<rparr>"
  have t2: "t1\<lparr>m_aDimensions := (m_aDimensions t1)[?i :=
      (m_aDimensions t1 ! ?i)\<lparr>aDivisions := a'\<rparr>]\<rparr> = ?t2"
    using il by (simp add: a(1))
  have e1: "add_divisions ok junk N (Suc k) st dims2 t =
    (case SetCountDivisions ok junk ?i ?n t of
        Inl e \<Rightarrow> Inl e
      | Inr (True, t1) \<Rightarrow> Inr (True, t1)
      | Inr (False, t1) \<Rightarrow>
          (case add_cuts (aDivisions (m_aDimensions t1 ! ?i)) (aDivisions d2)
                  (int (cDivisions ?d1) - 1) (int (cDivisions d2) - 1) (int ?n - 1) of
             Inl e \<Rightarrow> Inl e
           | Inr a \<Rightarrow>
               add_divisions ok junk N k st' dims2'
                 (t1\<lparr>m_aDimensions := (m_aDimensions t1)[?i :=
                       (m_aDimensions t1 ! ?i)\<lparr>aDivisions := a\<rparr>]\<rparr>)))"
    unfolding st d2 using il by (simp add: Let_def)
  have e2: "add_divisions ok junk N (Suc k) st dims2 t =
     (case add_cuts (aDivisions (m_aDimensions t1 ! ?i)) (aDivisions d2)
                  (int (cDivisions ?d1) - 1) (int (cDivisions d2) - 1) (int ?n - 1) of
             Inl e \<Rightarrow> Inl e
           | Inr a \<Rightarrow>
               add_divisions ok junk N k st' dims2'
                 (t1\<lparr>m_aDimensions := (m_aDimensions t1)[?i :=
                       (m_aDimensions t1 ! ?i)\<lparr>aDivisions := a\<rparr>]\<rparr>))"
    unfolding e1 t1 by simp
  have e3: "add_divisions ok junk N (Suc k) st dims2 t =
      add_divisions ok junk N k st' dims2'
                 (t1\<lparr>m_aDimensions := (m_aDimensions t1)[?i :=
                       (m_aDimensions t1 ! ?i)\<lparr>aDivisions := a'\<rparr>]\<rparr>)"
    unfolding e2 a1 a' by simp
  have step: "add_divisions ok junk N (Suc k) st dims2 t = add_divisions ok junk N k st' dims2' ?t2"
    using e3 unfolding t2 .
  have q2: "k \<le> N" using kN by simp
  have q3: "N \<le> length (m_aDimensions ?t2)" using Suc.prems(5) by simp
  have q4: "N \<le> m_cDimensions ?t2" using Suc.prems(4) by simp
  have ne2: "\<not> m_bExpanded ?t2" using Suc.prems(2) by simp
  have same: "m_aDimensions ?t2 ! (N - k + j) = m_aDimensions t ! (N - k + j)" for j
    using ix(2) [of j] by simp
  have q6: "\<forall>j<k. cuts_ok (m_aDimensions ?t2 ! (N - k + j)) \<and> cuts_ok (dims2' ! j) \<and>
       cNewDivisions (st' ! j) = length (merged (m_aDimensions ?t2 ! (N - k + j)) (dims2' ! j))"
    unfolding same using hS by blast
  from Suc.IH [OF Suc.prems(1) ne2 q2 q4 q3 lst ld2 q6 q7]
  obtain t' where "add_divisions ok junk N k st' dims2' ?t2 = Inr (False, t')" by blast
  with step show ?case by simp
qed

lemma add_stack_entry_top:
  assumes "cuts_ok d1" "cuts_ok d2"
  shows "add_stack_entry d1 d2 = add_stack_at d1 d2 (length (merged d1 d2))"
proof -
  note c1 = cuts_ok_cuts [OF assms(1)] and c2 = cuts_ok_cuts [OF assms(2)]
  note mp = merged_props [OF assms]
  let ?U = "merged d1 d2"
  have t1: "region_of (cuts_of d1) (cut_bound ?U (length ?U)) = cDivisions d1"
    using region_of_bound_top [OF mp(1,2)] c1(1) by simp
  have t2: "region_of (cuts_of d2) (cut_bound ?U (length ?U)) = cDivisions d2"
    using region_of_bound_top [OF mp(1,3)] c2(1) by simp
  show ?thesis
    unfolding add_stack_at_eq [OF t1 t2] add_stack_entry_def add_count_merge
    by (simp add: merged_def cuts_of_def)
qed

lemma add_top_point:
  assumes "length dims1 = length dims2" "list_all cuts_ok dims1" "list_all cuts_ok dims2"
  shows "map2 add_stack_entry dims1 dims2 =
       add_stack_of dims1 dims2 (map (\<lambda>r. r - 1) (add_radices dims1 dims2)) \<and>
     map (\<lambda>s. cNewDivisions s + 1) (map2 add_stack_entry dims1 dims2) = add_radices dims1 dims2 \<and>
     grid_point (add_radices dims1 dims2) (map (\<lambda>r. r - 1) (add_radices dims1 dims2)) \<and>
     mixed_radix (add_radices dims1 dims2) (map (\<lambda>r. r - 1) (add_radices dims1 dims2)) + 1
       = prod_list (add_radices dims1 dims2) \<and>
     cell_at dims1 (add_bounds dims1 dims2 (map (\<lambda>r. r - 1) (add_radices dims1 dims2))) + 1
       = prod_list (map (\<lambda>d. cDivisions d + 1) dims1) \<and>
     cell_at dims2 (add_bounds dims1 dims2 (map (\<lambda>r. r - 1) (add_radices dims1 dims2))) + 1
       = prod_list (map (\<lambda>d. cDivisions d + 1) dims2)"
  using assms
proof (induction dims1 dims2 rule: list_induct2)
  case Nil
  then show ?case by (simp add: add_radices_def cell_at_Nil)
next
  case (Cons d1 dims1 d2 dims2)
  let ?U = "merged d1 d2"
  let ?rs' = "add_radices dims1 dims2"
  let ?top' = "map (\<lambda>r. r - 1) ?rs'"
  note rs = add_radices_Cons [of d1 dims1 d2 dims2]
  from Cons.prems have ok1: "cuts_ok d1" and ok2: "cuts_ok d2"
    and oks1: "list_all cuts_ok dims1" and oks2: "list_all cuts_ok dims2"
    by simp_all
  note c1 = cuts_ok_cuts [OF ok1] and c2 = cuts_ok_cuts [OF ok2]
  note mp = merged_props [OF ok1 ok2]
  note ih = Cons.IH [OF oks1 oks2]
  have t1: "region_of (cuts_of d1) (cut_bound ?U (length ?U)) = cDivisions d1"
    using region_of_bound_top [OF mp(1,2)] c1(1) by simp
  have t2: "region_of (cuts_of d2) (cut_bound ?U (length ?U)) = cDivisions d2"
    using region_of_bound_top [OF mp(1,3)] c2(1) by simp
  have top: "map (\<lambda>r. r - 1) ((length ?U + 1) # ?rs') = length ?U # ?top'" by simp
  have e: "add_stack_entry d1 d2 = add_stack_at d1 d2 (length ?U)"
    using ok1 ok2 by (rule add_stack_entry_top)
  have 1: "map2 add_stack_entry (d1 # dims1) (d2 # dims2) =
      add_stack_of (d1 # dims1) (d2 # dims2) (length ?U # ?top')"
    using ih by (simp add: e)
  from ih have ih2: "map (\<lambda>s. cNewDivisions s + 1) (map2 add_stack_entry dims1 dims2) = ?rs'"
    by blast
  have 2: "map (\<lambda>s. cNewDivisions s + 1) (map2 add_stack_entry (d1 # dims1) (d2 # dims2))
      = (length ?U + 1) # ?rs'"
    using ih2 by (simp add: e add_stack_at_def)
  have 3: "grid_point ((length ?U + 1) # ?rs') (length ?U # ?top')"
    using ih by simp
  have 4: "mixed_radix ((length ?U + 1) # ?rs') (length ?U # ?top') + 1
      = prod_list ((length ?U + 1) # ?rs')"
  proof -
    from ih have "mixed_radix ?rs' ?top' + 1 = prod_list ?rs'" by blast
    then have "(length ?U + 1) * (mixed_radix ?rs' ?top' + 1) = (length ?U + 1) * prod_list ?rs'"
      by simp
    then show ?thesis by simp
  qed
  have 5: "cell_at (d1 # dims1) (add_bounds (d1 # dims1) (d2 # dims2) (length ?U # ?top')) + 1
      = prod_list (map (\<lambda>d. cDivisions d + 1) (d1 # dims1))"
  proof -
    from ih have "cell_at dims1 (add_bounds dims1 dims2 ?top') + 1
        = prod_list (map (\<lambda>d. cDivisions d + 1) dims1)" by blast
    then have "(cDivisions d1 + 1) * (cell_at dims1 (add_bounds dims1 dims2 ?top') + 1)
        = (cDivisions d1 + 1) * prod_list (map (\<lambda>d. cDivisions d + 1) dims1)"
      by simp
    then show ?thesis by (simp add: cell_at_Cons t1)
  qed
  have 6: "cell_at (d2 # dims2) (add_bounds (d1 # dims1) (d2 # dims2) (length ?U # ?top')) + 1
      = prod_list (map (\<lambda>d. cDivisions d + 1) (d2 # dims2))"
  proof -
    from ih have "cell_at dims2 (add_bounds dims1 dims2 ?top') + 1
        = prod_list (map (\<lambda>d. cDivisions d + 1) dims2)" by blast
    then have "(cDivisions d2 + 1) * (cell_at dims2 (add_bounds dims1 dims2 ?top') + 1)
        = (cDivisions d2 + 1) * prod_list (map (\<lambda>d. cDivisions d + 1) dims2)"
      by simp
    then show ?thesis by (simp add: cell_at_Cons t2)
  qed
  show ?case unfolding rs top by (intro conjI 1 2 3 4 5 6)
qed

lemma region_of_refine_le:
  assumes sub: "set ds \<subseteq> set us" and eq: "region_of us c = region_of us c'" and le: "c \<le> c'"
  shows "region_of ds c = region_of ds c'"
proof -
  let ?Q = "\<lambda>u. u < c'" and ?P = "\<lambda>u. u < c"
  have "filter ?P (filter ?Q us) = filter ?P us"
    using le by (auto intro: filter_cong)
  then have "length (filter ?P (filter ?Q us)) = length (filter ?Q us)"
    using eq by (simp add: region_of_def)
  with sum_length_filter_compl [of ?P "filter ?Q us"]
  have "filter (\<lambda>u. \<not> ?P u) (filter ?Q us) = []" by simp
  then have "\<forall>u \<in> set us. ?Q u \<longrightarrow> ?P u"
    by (auto simp: filter_empty_conv)
  with sub le have "\<forall>d \<in> set ds. ?P d = ?Q d" by auto
  then have "filter ?P ds = filter ?Q ds" by (intro filter_cong) simp_all
  then show ?thesis by (simp add: region_of_def)
qed

lemma region_of_refine:
  assumes "set ds \<subseteq> set us" "region_of us c = region_of us c'"
  shows "region_of ds c = region_of ds c'"
proof (cases "c \<le> c'")
  case True
  with assms show ?thesis by (rule region_of_refine_le)
next
  case False
  then have "c' \<le> c" by simp
  with assms(1) assms(2) [symmetric] have "region_of ds c' = region_of ds c"
    by (rule region_of_refine_le)
  then show ?thesis by simp
qed

lemma region_of_bound_region:
  assumes "sorted_wrt (<) us" "set ds \<subseteq> set us"
  shows "region_of ds (cut_bound us (region_of us c)) = region_of ds c"
proof -
  have "region_of us (cut_bound us (region_of us c)) = region_of us c"
    using assms(1) region_of_le_length by (rule region_of_cut_bound)
  with assms(2) show ?thesis by (rule region_of_refine)
qed

lemma add_bounds_regions:
  assumes "length dims1 = length dims2" "length dims2 = length x"
    "list_all cuts_ok dims1" "list_all cuts_ok dims2"
  shows "grid_point (add_radices dims1 dims2) (map2 region_of (map2 merged dims1 dims2) x) \<and>
     cell_at dims1 (add_bounds dims1 dims2 (map2 region_of (map2 merged dims1 dims2) x))
       = cell_at dims1 x \<and>
     cell_at dims2 (add_bounds dims1 dims2 (map2 region_of (map2 merged dims1 dims2) x))
       = cell_at dims2 x"
  using assms
proof (induction dims1 dims2 x rule: list_induct3)
  case Nil
  then show ?case by (simp add: add_radices_def cell_at_Nil)
next
  case (Cons d1 dims1 d2 dims2 c x)
  let ?U = "merged d1 d2"
  from Cons.prems have ok1: "cuts_ok d1" and ok2: "cuts_ok d2"
    and oks1: "list_all cuts_ok dims1" and oks2: "list_all cuts_ok dims2"
    by simp_all
  note mp = merged_props [OF ok1 ok2]
  note ih = Cons.IH [OF oks1 oks2]
  have r: "region_of ?U c < length ?U + 1"
    using region_of_le_length [of ?U c] by simp
  have b1: "region_of (cuts_of d1) (cut_bound ?U (region_of ?U c)) = region_of (cuts_of d1) c"
    using mp(1,2) by (rule region_of_bound_region)
  have b2: "region_of (cuts_of d2) (cut_bound ?U (region_of ?U c)) = region_of (cuts_of d2) c"
    using mp(1,3) by (rule region_of_bound_region)
  show ?case
    using ih r by (simp add: add_radices_Cons cell_at_Cons b1 b2)
qed

lemma cell_at_merged:
  assumes "length dims' = length dims1" "length dims1 = length dims2"
  shows "(\<forall>j<length dims'. cDivisions (dims' ! j) = length (merged (dims1 ! j) (dims2 ! j)) \<and>
        cuts_of (dims' ! j) = merged (dims1 ! j) (dims2 ! j)) \<Longrightarrow>
     cell_at dims' x =
       mixed_radix (add_radices dims1 dims2) (map2 region_of (map2 merged dims1 dims2) x)"
  using assms
proof (induction dims' dims1 dims2 arbitrary: x rule: list_induct3)
  case Nil
  then show ?case by (simp add: cell_at_Nil)
next
  case (Cons d' dims' d1 dims1 d2 dims2)
  have h0: "cDivisions d' = length (merged d1 d2)" "cuts_of d' = merged d1 d2"
    using Cons.prems [rule_format, of 0] by simp_all
  have hS: "\<forall>j<length dims'. cDivisions (dims' ! j) = length (merged (dims1 ! j) (dims2 ! j)) \<and>
        cuts_of (dims' ! j) = merged (dims1 ! j) (dims2 ! j)"
    using Cons.prems [rule_format, of "Suc j" for j] by simp
  note ih = Cons.IH [OF hS]
  show ?case
  proof (cases x)
    case Nil
    then show ?thesis by (simp add: cell_at_Nil)
  next
    case (Cons c x')
    show ?thesis
      unfolding Cons by (simp add: cell_at_Cons add_radices_Cons h0 ih)
  qed
qed

lemma prod_list_mono_nat:
  "list_all2 (\<le>) xs ys \<Longrightarrow> prod_list xs \<le> prod_list (ys::nat list)"
  by (induction rule: list_all2_induct) (simp_all add: mult_le_mono)

lemma add_size_bounds:
  assumes len: "length dims1 = length dims2"
    and ok1: "list_all cuts_ok dims1" and ok2: "list_all cuts_ok dims2"
    and v: "0 < V"
    and size: "V * prod_list (add_radices dims1 dims2) < 2 ^ 60"
  shows "size_t_of (prod_list (map (\<lambda>d. cDivisions d + 1) dims1))
      = prod_list (map (\<lambda>d. cDivisions d + 1) dims1)"
    "size_t_of (prod_list (map (\<lambda>d. cDivisions d + 1) dims2))
      = prod_list (map (\<lambda>d. cDivisions d + 1) dims2)"
    "size_t_of (prod_list (add_radices dims1 dims2)) = prod_list (add_radices dims1 dims2)"
    "size_t_of (prod_list (add_radices dims1 dims2) * V) = prod_list (add_radices dims1 dims2) * V"
    "size_t_of (V * prod_list (map (\<lambda>d. cDivisions d + 1) dims1))
      = V * prod_list (map (\<lambda>d. cDivisions d + 1) dims1)"
    "size_t_of (V * prod_list (map (\<lambda>d. cDivisions d + 1) dims2))
      = V * prod_list (map (\<lambda>d. cDivisions d + 1) dims2)"
    "prod_list (add_radices dims1 dims2) * V < 2 ^ 60"
    "\<forall>r\<in>set (add_radices dims1 dims2). r < 2 ^ 60"
    "size_t_of (V * prod_list (add_radices dims1 dims2)) = V * prod_list (add_radices dims1 dims2)"
    "V * prod_list (map (\<lambda>d. cDivisions d + 1) dims1) < 2 ^ 64"
    "V * prod_list (map (\<lambda>d. cDivisions d + 1) dims2) < 2 ^ 64"
proof -
  let ?rs = "add_radices dims1 dims2"
  let ?P1 = "prod_list (map (\<lambda>d. cDivisions d + 1) dims1)"
  let ?P2 = "prod_list (map (\<lambda>d. cDivisions d + 1) dims2)"
  have lt64: "n < 2 ^ 60 \<Longrightarrow> n < 2 ^ 64" for n :: nat
  proof -
    assume "n < 2 ^ 60"
    moreover have "(2::nat) ^ 60 \<le> 2 ^ 64" by simp
    ultimately show ?thesis by (rule less_le_trans)
  qed
  have k: "cuts_ok (dims1 ! j) \<and> cuts_ok (dims2 ! j)" if "j < length dims1" for j
    using ok1 ok2 len that by (simp add: list_all_length)
  have "list_all2 (\<le>) (map (\<lambda>d. cDivisions d + 1) dims1) ?rs"
    using len k merged_length(1) by (simp add: list_all2_conv_all_nth add_radices_def)
  then have p1: "?P1 \<le> prod_list ?rs" by (rule prod_list_mono_nat)
  have "list_all2 (\<le>) (map (\<lambda>d. cDivisions d + 1) dims2) ?rs"
    using len k merged_length(2) by (simp add: list_all2_conv_all_nth add_radices_def)
  then have p2: "?P2 \<le> prod_list ?rs" by (rule prod_list_mono_nat)
  have "prod_list ?rs * 1 \<le> prod_list ?rs * V" using v by (intro mult_le_mono2) simp
  then have "prod_list ?rs \<le> prod_list ?rs * V" by simp
  also have "\<dots> = V * prod_list ?rs" by (rule mult.commute)
  finally have le: "prod_list ?rs \<le> V * prod_list ?rs" .
  from le size have pr: "prod_list ?rs < 2 ^ 60" by (rule le_less_trans)
  have "V * ?P1 \<le> V * prod_list ?rs" using p1 by (rule mult_le_mono2)
  from this size have v1: "V * ?P1 < 2 ^ 60" by (rule le_less_trans)
  have "V * ?P2 \<le> V * prod_list ?rs" using p2 by (rule mult_le_mono2)
  from this size have v2: "V * ?P2 < 2 ^ 60" by (rule le_less_trans)
  from p1 pr have q1: "?P1 < 2 ^ 60" by (rule le_less_trans)
  from p2 pr have q2: "?P2 < 2 ^ 60" by (rule le_less_trans)
  show "size_t_of ?P1 = ?P1" using q1 by (intro size_t_of_id lt64)
  show "size_t_of ?P2 = ?P2" using q2 by (intro size_t_of_id lt64)
  show "size_t_of (prod_list ?rs) = prod_list ?rs" using pr by (intro size_t_of_id lt64)
  show sz: "prod_list ?rs * V < 2 ^ 60" using size by (simp add: mult.commute)
  show "size_t_of (prod_list ?rs * V) = prod_list ?rs * V" using sz by (intro size_t_of_id lt64)
  show "size_t_of (V * ?P1) = V * ?P1" using v1 by (intro size_t_of_id lt64)
  show "size_t_of (V * ?P2) = V * ?P2" using v2 by (intro size_t_of_id lt64)
  show "V * ?P1 < 2 ^ 64" using v1 by (rule lt64)
  show "V * ?P2 < 2 ^ 64" using v2 by (rule lt64)
  show "size_t_of (V * prod_list ?rs) = V * prod_list ?rs" using size by (intro size_t_of_id lt64)
  have r1: "list_all (\<lambda>r. 1 \<le> r) ?rs"
    by (simp add: list_all_length add_radices_def)
  show "\<forall>r\<in>set ?rs. r < 2 ^ 60"
  proof
    fix r assume "r \<in> set ?rs"
    with r1 have "r \<le> prod_list ?rs" by (rule prod_list_member_le)
    from this pr show "r < 2 ^ 60" by (rule le_less_trans)
  qed
qed

lemma add_ok_parts:
  assumes "add_ok t"
  shows "0 < m_cDimensions t" "0 < m_cVectorLength t"
    "m_cDimensions t \<le> length (m_aDimensions t)"
    "list_all cuts_ok (take (m_cDimensions t) (m_aDimensions t))"
    "m_cVectorLength t * prod_list (map (\<lambda>d. cDivisions d + 1)
          (take (m_cDimensions t) (m_aDimensions t))) \<le> length (m_aValues t)"
  using assms by (simp_all add: add_ok_def)

lemma Add_success:
  fixes t rhs :: "'v::plus SegmentedRegionCore"
  assumes run: "Add ok junkv junkd rhs t = Inr (False, t')"
    and okt: "add_ok t" and okr: "add_ok rhs"
    and vl: "m_cVectorLength rhs = m_cVectorLength t"
    and size: "m_cVectorLength t * prod_list (add_radices (take (m_cDimensions t) (m_aDimensions t))
        (take (m_cDimensions t) (m_aDimensions rhs))) < 2 ^ 60"
  shows "m_cDimensions rhs = m_cDimensions t \<and>
    m_cDimensions t' = m_cDimensions t \<and> m_cVectorLength t' = m_cVectorLength t \<and>
    length (m_aDimensions t') = length (m_aDimensions t) \<and>
    m_cVectorLength t * prod_list (add_radices (take (m_cDimensions t) (m_aDimensions t))
        (take (m_cDimensions t) (m_aDimensions rhs))) \<le> length (m_aValues t') \<and>
    (\<forall>j<m_cDimensions t.
        cDivisions (m_aDimensions t' ! j)
          = length (merged (m_aDimensions t ! j) (m_aDimensions rhs ! j)) \<and>
        cDivisions (m_aDimensions t' ! j) \<le> length (aDivisions (m_aDimensions t' ! j)) \<and>
        cuts_of (m_aDimensions t' ! j) = merged (m_aDimensions t ! j) (m_aDimensions rhs ! j)) \<and>
    (\<forall>q. grid_point (add_radices (take (m_cDimensions t) (m_aDimensions t))
              (take (m_cDimensions t) (m_aDimensions rhs))) q \<longrightarrow>
       (\<forall>k<m_cVectorLength t.
          m_aValues t' ! (m_cVectorLength t *
              mixed_radix (add_radices (take (m_cDimensions t) (m_aDimensions t))
                (take (m_cDimensions t) (m_aDimensions rhs))) q + k) =
          m_aValues t ! (m_cVectorLength t *
              cell_at (take (m_cDimensions t) (m_aDimensions t))
                (add_bounds (take (m_cDimensions t) (m_aDimensions t))
                   (take (m_cDimensions t) (m_aDimensions rhs)) q) + k) +
          m_aValues rhs ! (m_cVectorLength t *
              cell_at (take (m_cDimensions t) (m_aDimensions rhs))
                (add_bounds (take (m_cDimensions t) (m_aDimensions t))
                   (take (m_cDimensions t) (m_aDimensions rhs)) q) + k)))"
proof -
  let ?N = "m_cDimensions t" and ?V = "m_cVectorLength t"
  let ?dims1 = "take ?N (m_aDimensions t)" and ?dims2 = "take ?N (m_aDimensions rhs)"
  let ?st = "map2 add_stack_entry ?dims1 ?dims2"
  let ?rs = "add_radices ?dims1 ?dims2"
  let ?top = "map (\<lambda>r. r - 1) ?rs"
  let ?P1 = "prod_list (map (\<lambda>d. cDivisions d + 1) ?dims1)"
  let ?P2 = "prod_list (map (\<lambda>d. cDivisions d + 1) ?dims2)"
  let ?b = "m_aValues rhs"
  note pt = add_ok_parts [OF okt] and pr = add_ok_parts [OF okr]
  have nd: "m_cDimensions rhs = ?N"
    using run by (simp add: Add_def split: if_splits)
  have l1: "length ?dims1 = ?N" using pt(3) by simp
  have l2: "length ?dims2 = ?N" using pr(3) nd by simp
  have len: "length ?dims1 = length ?dims2" using l1 l2 by simp
  have ok1: "list_all cuts_ok ?dims1" by (rule pt(4))
  have ok2: "list_all cuts_ok ?dims2" using pr(4) nd by simp
  note tp = add_top_point [OF len ok1 ok2]
  from tp have st: "?st = add_stack_of ?dims1 ?dims2 ?top" by blast
  from tp have cn: "map (\<lambda>s. cNewDivisions s + 1) ?st = ?rs" by blast
  from tp have gt: "grid_point ?rs ?top" by blast
  from tp have mt: "mixed_radix ?rs ?top + 1 = prod_list ?rs" by blast
  from tp have c1: "cell_at ?dims1 (add_bounds ?dims1 ?dims2 ?top) + 1 = ?P1" by blast
  from tp have c2: "cell_at ?dims2 (add_bounds ?dims1 ?dims2 ?top) + 1 = ?P2" by blast
  have g: "\<not> (m_cDimensions t \<noteq> m_cDimensions rhs \<or> \<not> 0 < m_cDimensions t)"
    "\<not> (length (m_aDimensions t) < m_cDimensions t \<or> length (m_aDimensions rhs) < m_cDimensions t)"
    using nd pt(1,3) pr(3) by simp_all
  note sb = add_size_bounds [OF len ok1 ok2 pt(2) size]
  have run1: "(case EnsureValueCapacity ok junkv (prod_list ?rs * ?V) t of
            Inl e \<Rightarrow> Inl e
          | Inr (True, t1) \<Rightarrow> Inr (True, t1)
          | Inr (False, t1) \<Rightarrow>
              (case add_loop ?V ?dims1 ?dims2 ?st (m_aValues t1) ?b
                      (int (?V * ?P1) - 1) (int (?V * ?P2) - 1) (int (?V * prod_list ?rs) - 1) of
                 Inl e \<Rightarrow> Inl e
               | Inr (a, pValue1, pValue2) \<Rightarrow>
                   if pValue1 \<noteq> int ?V - 1 \<or> pValue2 \<noteq> int ?V - 1 then Inl AssertFailed
                   else add_divisions ok junkd ?N ?N ?st ?dims2 (t1\<lparr>m_aValues := a\<rparr>)))
      = Inr (False, t')"
    using run unfolding Add_def Let_def if_not_P [OF g(1)] if_not_P [OF g(2)] cn sb(1-6) sb(9) .
  then obtain t1 where t1: "EnsureValueCapacity ok junkv (prod_list ?rs * ?V) t = Inr (False, t1)"
    by (auto split: sum.splits prod.splits bool.splits if_splits)
  from EnsureValueCapacity_success [OF t1 sb(7)] obtain a0 where
    a0: "t1 = t\<lparr>m_aValues := a0\<rparr>" "prod_list ?rs * ?V \<le> length a0"
      "length (m_aValues t) \<le> length a0" "\<And>i. i < length (m_aValues t) \<Longrightarrow> a0 ! i = m_aValues t ! i"
    by blast
  have va: "m_aValues t1 = a0" by (simp add: a0(1))
  have lb: "?V * ?P2 \<le> length ?b" using pr(5) nd vl by simp
  have la: "?V * (mixed_radix ?rs ?top + 1) \<le> length a0"
    unfolding mt using a0(2) by (simp add: mult.commute)
  from add_loop_cells [OF len ok1 ok2 pt(2) lb sb(10,11) gt la]
  obtain a' where a': "add_loop ?V ?dims1 ?dims2 (add_stack_of ?dims1 ?dims2 ?top) a0 ?b
            (int (?V * (cell_at ?dims1 (add_bounds ?dims1 ?dims2 ?top) + 1)) - 1)
            (int (?V * (cell_at ?dims2 (add_bounds ?dims1 ?dims2 ?top) + 1)) - 1)
            (int (?V * (mixed_radix ?rs ?top + 1)) - 1)
          = Inr (a', int ?V - 1, int ?V - 1)"
      "length a' = length a0"
      "\<And>q k. grid_point ?rs q \<Longrightarrow> mixed_radix ?rs q \<le> mixed_radix ?rs ?top \<Longrightarrow> k < ?V \<Longrightarrow>
         a' ! (?V * mixed_radix ?rs q + k) =
            a0 ! (?V * cell_at ?dims1 (add_bounds ?dims1 ?dims2 q) + k) +
            ?b ! (?V * cell_at ?dims2 (add_bounds ?dims1 ?dims2 q) + k)"
    by blast
  have lp: "add_loop ?V ?dims1 ?dims2 ?st a0 ?b
       (int (?V * ?P1) - 1) (int (?V * ?P2) - 1) (int (?V * prod_list ?rs) - 1)
     = Inr (a', int ?V - 1, int ?V - 1)"
    using a'(1) unfolding c1 c2 mt st [symmetric] .
  have run2: "(case add_loop ?V ?dims1 ?dims2 ?st (m_aValues t1) ?b
                      (int (?V * ?P1) - 1) (int (?V * ?P2) - 1) (int (?V * prod_list ?rs) - 1) of
                 Inl e \<Rightarrow> Inl e
               | Inr (a, pValue1, pValue2) \<Rightarrow>
                   if pValue1 \<noteq> int ?V - 1 \<or> pValue2 \<noteq> int ?V - 1 then Inl AssertFailed
                   else add_divisions ok junkd ?N ?N ?st ?dims2 (t1\<lparr>m_aValues := a\<rparr>))
      = Inr (False, t')"
    using run1 unfolding t1 by simp
  let ?T = "t\<lparr>m_aValues := a'\<rparr>"
  have T: "t1\<lparr>m_aValues := a'\<rparr> = ?T" by (simp add: a0(1))
  have run3: "add_divisions ok junkd ?N ?N ?st ?dims2 (t1\<lparr>m_aValues := a'\<rparr>) = Inr (False, t')"
    using run2 unfolding va lp by simp
  then have run4: "add_divisions ok junkd ?N ?N ?st ?dims2 ?T = Inr (False, t')"
    unfolding T .
  have lst: "length ?st = ?N" using l1 l2 by simp
  have q3: "?N \<le> length (m_aDimensions ?T)" using pt(3) by simp
  have q6: "\<forall>j<?N. cuts_ok (m_aDimensions ?T ! (?N - ?N + j)) \<and> cuts_ok (?dims2 ! j) \<and>
       cNewDivisions (?st ! j) = length (merged (m_aDimensions ?T ! (?N - ?N + j)) (?dims2 ! j))"
  proof (intro allI impI)
    fix j assume j: "j < ?N"
    have d1: "?dims1 ! j = m_aDimensions t ! j" using j by simp
    have k1: "cuts_ok (m_aDimensions t ! j)"
      using ok1 j l1 unfolding d1 [symmetric] by (simp add: list_all_length)
    have k2: "cuts_ok (?dims2 ! j)"
      using ok2 j l2 by (simp add: list_all_length)
    have "?st ! j = add_stack_entry (?dims1 ! j) (?dims2 ! j)"
      using j l1 l2 by simp
    also have "\<dots> = add_stack_at (m_aDimensions t ! j) (?dims2 ! j)
        (length (merged (m_aDimensions t ! j) (?dims2 ! j)))"
      unfolding d1 using k1 k2 by (rule add_stack_entry_top)
    finally have "cNewDivisions (?st ! j) = length (merged (m_aDimensions t ! j) (?dims2 ! j))"
      by (simp add: add_stack_at_def)
    with k1 k2 show "cuts_ok (m_aDimensions ?T ! (?N - ?N + j)) \<and> cuts_ok (?dims2 ! j) \<and>
       cNewDivisions (?st ! j) = length (merged (m_aDimensions ?T ! (?N - ?N + j)) (?dims2 ! j))"
      by simp
  qed
  have q7: "\<forall>j<?N. cNewDivisions (?st ! j) < 2 ^ 60"
  proof (intro allI impI)
    fix j assume j: "j < ?N"
    have "cNewDivisions (?st ! j) + 1 = map (\<lambda>s. cNewDivisions s + 1) ?st ! j"
      using j lst by simp
    also have "\<dots> = ?rs ! j" unfolding cn ..
    finally have "cNewDivisions (?st ! j) < ?rs ! j" by simp
    moreover have "?rs ! j < 2 ^ 60"
    proof -
      have "length ?rs = ?N" using l1 l2 by (simp add: add_radices_def)
      with j have "j < length ?rs" by simp
      then have "?rs ! j \<in> set ?rs" by (rule nth_mem)
      with sb(8) show ?thesis by (rule bspec)
    qed
    ultimately show "cNewDivisions (?st ! j) < 2 ^ 60" by (rule less_trans)
  qed
  note res = add_divisions_result [OF run4 le_refl q3 lst l2 q6 q7]
  have r1: "m_aValues t' = a'" "m_cVectorLength t' = ?V" "m_cDimensions t' = ?N"
    "length (m_aDimensions t') = length (m_aDimensions t)"
    using res by simp_all
  have r2: "cDivisions (m_aDimensions t' ! j)
          = length (merged (m_aDimensions t ! j) (m_aDimensions rhs ! j)) \<and>
        cDivisions (m_aDimensions t' ! j) \<le> length (aDivisions (m_aDimensions t' ! j)) \<and>
        cuts_of (m_aDimensions t' ! j) = merged (m_aDimensions t ! j) (m_aDimensions rhs ! j)"
    if j: "j < ?N" for j
  proof -
    have d2: "?dims2 ! j = m_aDimensions rhs ! j" using j by simp
    from res j have "cDivisions (m_aDimensions t' ! (?N - ?N + j))
            = length (merged (m_aDimensions ?T ! (?N - ?N + j)) (?dims2 ! j)) \<and>
          cDivisions (m_aDimensions t' ! (?N - ?N + j))
            \<le> length (aDivisions (m_aDimensions t' ! (?N - ?N + j))) \<and>
          cuts_of (m_aDimensions t' ! (?N - ?N + j))
            = merged (m_aDimensions ?T ! (?N - ?N + j)) (?dims2 ! j)"
      by blast
    then show ?thesis unfolding d2 by simp
  qed
  have r3: "m_aValues t' ! (?V * mixed_radix ?rs q + k) =
          m_aValues t ! (?V * cell_at ?dims1 (add_bounds ?dims1 ?dims2 q) + k) +
          ?b ! (?V * cell_at ?dims2 (add_bounds ?dims1 ?dims2 q) + k)"
    if q: "grid_point ?rs q" and k: "k < ?V" for q k
  proof -
    let ?c = "cell_at ?dims1 (add_bounds ?dims1 ?dims2 q)"
    have "mixed_radix ?rs q < prod_list ?rs" using q by (rule mixed_radix_less)
    then have le: "mixed_radix ?rs q \<le> mixed_radix ?rs ?top" using mt by simp
    have "?c + 1 \<le> ?P1" using cell_at_less [OF ok1, of "add_bounds ?dims1 ?dims2 q"] by simp
    then have "?V * (?c + 1) \<le> ?V * ?P1" by (rule mult_le_mono2)
    with k pt(5) have "?V * ?c + k < length (m_aValues t)" by simp
    then have "a0 ! (?V * ?c + k) = m_aValues t ! (?V * ?c + k)" by (rule a0(4))
    with a'(3) [OF q le k] show ?thesis unfolding r1(1) by simp
  qed
  have r4: "?V * prod_list ?rs \<le> length (m_aValues t')"
    unfolding r1(1) a'(2) using a0(2) by (simp add: mult.commute)
  from nd r1(2,3,4) r4 r2 r3 show ?thesis by blast
qed

lemma Add_runs:
  fixes t rhs :: "'v::plus SegmentedRegionCore"
  assumes okt: "add_ok t" and okr: "add_ok rhs"
    and vl: "m_cVectorLength rhs = m_cVectorLength t"
    and nd: "m_cDimensions rhs = m_cDimensions t"
    and size: "m_cVectorLength t * prod_list (add_radices (take (m_cDimensions t) (m_aDimensions t))
        (take (m_cDimensions t) (m_aDimensions rhs))) < 2 ^ 60"
    and ne: "\<not> m_bExpanded t" and ok: "\<forall>n. ok n"
  shows "\<exists>t'. Add ok junkv junkd rhs t = Inr (False, t')"
proof -
  let ?N = "m_cDimensions t" and ?V = "m_cVectorLength t"
  let ?dims1 = "take ?N (m_aDimensions t)" and ?dims2 = "take ?N (m_aDimensions rhs)"
  let ?st = "map2 add_stack_entry ?dims1 ?dims2"
  let ?rs = "add_radices ?dims1 ?dims2"
  let ?top = "map (\<lambda>r. r - 1) ?rs"
  let ?P1 = "prod_list (map (\<lambda>d. cDivisions d + 1) ?dims1)"
  let ?P2 = "prod_list (map (\<lambda>d. cDivisions d + 1) ?dims2)"
  let ?b = "m_aValues rhs"
  note pt = add_ok_parts [OF okt] and pr = add_ok_parts [OF okr]
  have l1: "length ?dims1 = ?N" using pt(3) by simp
  have l2: "length ?dims2 = ?N" using pr(3) nd by simp
  have len: "length ?dims1 = length ?dims2" using l1 l2 by simp
  have ok1: "list_all cuts_ok ?dims1" by (rule pt(4))
  have ok2: "list_all cuts_ok ?dims2" using pr(4) nd by simp
  note tp = add_top_point [OF len ok1 ok2]
  from tp have st: "?st = add_stack_of ?dims1 ?dims2 ?top" by blast
  from tp have cn: "map (\<lambda>s. cNewDivisions s + 1) ?st = ?rs" by blast
  from tp have gt: "grid_point ?rs ?top" by blast
  from tp have mt: "mixed_radix ?rs ?top + 1 = prod_list ?rs" by blast
  from tp have c1: "cell_at ?dims1 (add_bounds ?dims1 ?dims2 ?top) + 1 = ?P1" by blast
  from tp have c2: "cell_at ?dims2 (add_bounds ?dims1 ?dims2 ?top) + 1 = ?P2" by blast
  have g: "\<not> (m_cDimensions t \<noteq> m_cDimensions rhs \<or> \<not> 0 < m_cDimensions t)"
    "\<not> (length (m_aDimensions t) < m_cDimensions t \<or> length (m_aDimensions rhs) < m_cDimensions t)"
    using nd pt(1,3) pr(3) by simp_all
  note sb = add_size_bounds [OF len ok1 ok2 pt(2) size]
  from EnsureValueCapacity_grow [OF ok ne sb(7), of junkv]
  obtain t1 where t1: "EnsureValueCapacity ok junkv (prod_list ?rs * ?V) t = Inr (False, t1)"
    by blast
  from EnsureValueCapacity_success [OF t1 sb(7)] obtain a0 where
    a0: "t1 = t\<lparr>m_aValues := a0\<rparr>" "prod_list ?rs * ?V \<le> length a0"
    by blast
  have va: "m_aValues t1 = a0" by (simp add: a0(1))
  have lb: "?V * ?P2 \<le> length ?b" using pr(5) nd vl by simp
  have la: "?V * (mixed_radix ?rs ?top + 1) \<le> length a0"
    unfolding mt using a0(2) by (simp add: mult.commute)
  from add_loop_cells [OF len ok1 ok2 pt(2) lb sb(10,11) gt la]
  obtain a' where a': "add_loop ?V ?dims1 ?dims2 (add_stack_of ?dims1 ?dims2 ?top) a0 ?b
            (int (?V * (cell_at ?dims1 (add_bounds ?dims1 ?dims2 ?top) + 1)) - 1)
            (int (?V * (cell_at ?dims2 (add_bounds ?dims1 ?dims2 ?top) + 1)) - 1)
            (int (?V * (mixed_radix ?rs ?top + 1)) - 1)
          = Inr (a', int ?V - 1, int ?V - 1)"
    by blast
  have lp: "add_loop ?V ?dims1 ?dims2 ?st a0 ?b
       (int (?V * ?P1) - 1) (int (?V * ?P2) - 1) (int (?V * prod_list ?rs) - 1)
     = Inr (a', int ?V - 1, int ?V - 1)"
    using a' unfolding c1 c2 mt st [symmetric] .
  have A1: "Add ok junkv junkd rhs t =
      (case EnsureValueCapacity ok junkv (prod_list ?rs * ?V) t of
            Inl e \<Rightarrow> Inl e
          | Inr (True, t1) \<Rightarrow> Inr (True, t1)
          | Inr (False, t1) \<Rightarrow>
              (case add_loop ?V ?dims1 ?dims2 ?st (m_aValues t1) ?b
                      (int (?V * ?P1) - 1) (int (?V * ?P2) - 1) (int (?V * prod_list ?rs) - 1) of
                 Inl e \<Rightarrow> Inl e
               | Inr (a, pValue1, pValue2) \<Rightarrow>
                   if pValue1 \<noteq> int ?V - 1 \<or> pValue2 \<noteq> int ?V - 1 then Inl AssertFailed
                   else add_divisions ok junkd ?N ?N ?st ?dims2 (t1\<lparr>m_aValues := a\<rparr>)))"
    unfolding Add_def Let_def if_not_P [OF g(1)] if_not_P [OF g(2)] cn sb(1-6) sb(9) ..
  have A2: "Add ok junkv junkd rhs t =
     (case add_loop ?V ?dims1 ?dims2 ?st (m_aValues t1) ?b
                      (int (?V * ?P1) - 1) (int (?V * ?P2) - 1) (int (?V * prod_list ?rs) - 1) of
                 Inl e \<Rightarrow> Inl e
               | Inr (a, pValue1, pValue2) \<Rightarrow>
                   if pValue1 \<noteq> int ?V - 1 \<or> pValue2 \<noteq> int ?V - 1 then Inl AssertFailed
                   else add_divisions ok junkd ?N ?N ?st ?dims2 (t1\<lparr>m_aValues := a\<rparr>))"
    unfolding A1 t1 by simp
  let ?T = "t\<lparr>m_aValues := a'\<rparr>"
  have T: "t1\<lparr>m_aValues := a'\<rparr> = ?T" by (simp add: a0(1))
  have A3: "Add ok junkv junkd rhs t =
      add_divisions ok junkd ?N ?N ?st ?dims2 (t1\<lparr>m_aValues := a'\<rparr>)"
    unfolding A2 va lp by simp
  have A4: "Add ok junkv junkd rhs t = add_divisions ok junkd ?N ?N ?st ?dims2 ?T"
    using A3 unfolding T .
  have lst: "length ?st = ?N" using l1 l2 by simp
  have q3: "?N \<le> length (m_aDimensions ?T)" using pt(3) by simp
  have q4: "?N \<le> m_cDimensions ?T" by simp
  have neT: "\<not> m_bExpanded ?T" using ne by simp
  have q6: "\<forall>j<?N. cuts_ok (m_aDimensions ?T ! (?N - ?N + j)) \<and> cuts_ok (?dims2 ! j) \<and>
       cNewDivisions (?st ! j) = length (merged (m_aDimensions ?T ! (?N - ?N + j)) (?dims2 ! j))"
  proof (intro allI impI)
    fix j assume j: "j < ?N"
    have d1: "?dims1 ! j = m_aDimensions t ! j" using j by simp
    have k1: "cuts_ok (m_aDimensions t ! j)"
      using ok1 j l1 unfolding d1 [symmetric] by (simp add: list_all_length)
    have k2: "cuts_ok (?dims2 ! j)"
      using ok2 j l2 by (simp add: list_all_length)
    have "?st ! j = add_stack_entry (?dims1 ! j) (?dims2 ! j)"
      using j l1 l2 by simp
    also have "\<dots> = add_stack_at (m_aDimensions t ! j) (?dims2 ! j)
        (length (merged (m_aDimensions t ! j) (?dims2 ! j)))"
      unfolding d1 using k1 k2 by (rule add_stack_entry_top)
    finally have "cNewDivisions (?st ! j) = length (merged (m_aDimensions t ! j) (?dims2 ! j))"
      by (simp add: add_stack_at_def)
    with k1 k2 show "cuts_ok (m_aDimensions ?T ! (?N - ?N + j)) \<and> cuts_ok (?dims2 ! j) \<and>
       cNewDivisions (?st ! j) = length (merged (m_aDimensions ?T ! (?N - ?N + j)) (?dims2 ! j))"
      by simp
  qed
  have q7: "\<forall>j<?N. cNewDivisions (?st ! j) < 2 ^ 60"
  proof (intro allI impI)
    fix j assume j: "j < ?N"
    have "cNewDivisions (?st ! j) + 1 = map (\<lambda>s. cNewDivisions s + 1) ?st ! j"
      using j lst by simp
    also have "\<dots> = ?rs ! j" unfolding cn ..
    finally have "cNewDivisions (?st ! j) < ?rs ! j" by simp
    moreover have "?rs ! j < 2 ^ 60"
    proof -
      have "length ?rs = ?N" using l1 l2 by (simp add: add_radices_def)
      with j have "j < length ?rs" by simp
      then have "?rs ! j \<in> set ?rs" by (rule nth_mem)
      with sb(8) show ?thesis by (rule bspec)
    qed
    ultimately show "cNewDivisions (?st ! j) < 2 ^ 60" by (rule less_trans)
  qed
  from add_divisions_run [OF ok neT le_refl q4 q3 lst l2 q6 q7, of junkd]
  obtain t' where "add_divisions ok junkd ?N ?N ?st ?dims2 ?T = Inr (False, t')" by blast
  with A4 show ?thesis by simp
qed

lemma Add_tensorA_tensorB: "Add always 0 0 tensorB tensorA = Inr (False, tensorA_plus_B)"
  by code_simp

lemma Add_tensorA_tensorZero: "Add always 0 0 tensorZero tensorA = Inr (False, tensorA_plus_Zero)"
  by code_simp

lemma tensor_examples_ok: "add_ok tensorA" "add_ok tensorB" "add_ok tensorZero"
  by (simp_all add: add_ok_def cuts_ok_def cuts_of_def tensorA_def tensorB_def tensorZero_def)

lemma Add_sum_of_run:
  fixes t rhs :: "'v::monoid_add SegmentedRegionCore"
  assumes run: "Add ok junkv junkd rhs t = Inr (False, t')"
    and okt: "add_ok t" and okr: "add_ok rhs"
    and vl: "m_cVectorLength rhs = m_cVectorLength t"
    and size: "m_cVectorLength t * prod_list (add_radices (take (m_cDimensions t) (m_aDimensions t))
        (take (m_cDimensions t) (m_aDimensions rhs))) < 2 ^ 60"
  shows "add_ok t' \<and> m_cDimensions t' = m_cDimensions t \<and>
    m_cVectorLength t' = m_cVectorLength t \<and>
    (\<forall>i<m_cDimensions t.
        sorted_wrt (<) (cuts_of (m_aDimensions t' ! i)) \<and>
        set (cuts_of (m_aDimensions t' ! i)) =
          set (cuts_of (m_aDimensions t ! i)) \<union> set (cuts_of (m_aDimensions rhs ! i))) \<and>
    (\<forall>x k. length x = m_cDimensions t \<and> k < m_cVectorLength t \<longrightarrow>
        tensor_at t' x k = tensor_at t x k + tensor_at rhs x k) \<and>
    ((\<forall>i<length (m_aValues rhs). m_aValues rhs ! i = 0) \<longrightarrow>
       (\<forall>x k. length x = m_cDimensions t \<and> k < m_cVectorLength t \<longrightarrow>
          tensor_at t' x k = tensor_at t x k))"
proof -
  let ?N = "m_cDimensions t" and ?V = "m_cVectorLength t"
  let ?dims1 = "take ?N (m_aDimensions t)" and ?dims2 = "take ?N (m_aDimensions rhs)"
  let ?dims' = "take ?N (m_aDimensions t')"
  let ?rs = "add_radices ?dims1 ?dims2"
  note pt = add_ok_parts [OF okt] and pr = add_ok_parts [OF okr]
  note s = Add_success [OF run okt okr vl size]
  from s have nd: "m_cDimensions rhs = ?N" and n': "m_cDimensions t' = ?N"
    and v': "m_cVectorLength t' = ?V"
    and ld: "length (m_aDimensions t') = length (m_aDimensions t)"
    and cap: "?V * prod_list ?rs \<le> length (m_aValues t')"
    by simp_all
  from s have ax: "\<And>j. j < ?N \<Longrightarrow>
        cDivisions (m_aDimensions t' ! j)
          = length (merged (m_aDimensions t ! j) (m_aDimensions rhs ! j)) \<and>
        cDivisions (m_aDimensions t' ! j) \<le> length (aDivisions (m_aDimensions t' ! j)) \<and>
        cuts_of (m_aDimensions t' ! j) = merged (m_aDimensions t ! j) (m_aDimensions rhs ! j)"
    by blast
  from s have cells: "\<And>q k. grid_point ?rs q \<Longrightarrow> k < ?V \<Longrightarrow>
          m_aValues t' ! (?V * mixed_radix ?rs q + k) =
          m_aValues t ! (?V * cell_at ?dims1 (add_bounds ?dims1 ?dims2 q) + k) +
          m_aValues rhs ! (?V * cell_at ?dims2 (add_bounds ?dims1 ?dims2 q) + k)"
    by blast
  have l1: "length ?dims1 = ?N" using pt(3) by simp
  have l2: "length ?dims2 = ?N" using pr(3) nd by simp
  have l': "length ?dims' = ?N" using pt(3) ld by simp
  have ok1: "list_all cuts_ok ?dims1" by (rule pt(4))
  have ok2: "list_all cuts_ok ?dims2" using pr(4) nd by simp
  have k1: "cuts_ok (m_aDimensions t ! j)" if "j < ?N" for j
    using ok1 that l1 by (simp add: list_all_length)
  have k2: "cuts_ok (m_aDimensions rhs ! j)" if "j < ?N" for j
    using ok2 that l2 by (simp add: list_all_length)
  have axis: "sorted_wrt (<) (cuts_of (m_aDimensions t' ! j)) \<and>
        set (cuts_of (m_aDimensions t' ! j)) =
          set (cuts_of (m_aDimensions t ! j)) \<union> set (cuts_of (m_aDimensions rhs ! j))"
    if j: "j < ?N" for j
    using merged_props(1,4) [OF k1 [OF j] k2 [OF j]] ax [OF j] by simp
  have ck: "cuts_ok (m_aDimensions t' ! j)" if j: "j < ?N" for j
    using axis [OF j] ax [OF j] by (simp add: cuts_ok_def)
  have oks': "list_all cuts_ok ?dims'"
    using ck l' by (simp add: list_all_length)
  have rad: "map (\<lambda>d. cDivisions d + 1) ?dims' = ?rs"
  proof (rule nth_equalityI)
    show "length (map (\<lambda>d. cDivisions d + 1) ?dims') = length ?rs"
      using l' l1 l2 by (simp add: add_radices_def)
    fix j assume "j < length (map (\<lambda>d. cDivisions d + 1) ?dims')"
    then have j: "j < ?N" using l' by simp
    then show "map (\<lambda>d. cDivisions d + 1) ?dims' ! j = ?rs ! j"
      using ax [OF j] l' l1 l2 by (simp add: add_radices_def)
  qed
  have wf: "add_ok t'"
    unfolding add_ok_def n' v' rad using pt(1,2,3) ld oks' cap by simp
  have mg: "\<forall>j<length ?dims'. cDivisions (?dims' ! j) = length (merged (?dims1 ! j) (?dims2 ! j)) \<and>
        cuts_of (?dims' ! j) = merged (?dims1 ! j) (?dims2 ! j)"
    using ax l' by simp
  have sum: "tensor_at t' x k = tensor_at t x k + tensor_at rhs x k"
    if x: "length x = ?N" and k: "k < ?V" for x k
  proof -
    let ?q = "map2 region_of (map2 merged ?dims1 ?dims2) x"
    have lx: "length ?dims2 = length x" using l2 x by simp
    have ll: "length ?dims1 = length ?dims2" using l1 l2 by simp
    have l'1: "length ?dims' = length ?dims1" using l' l1 by simp
    note br = add_bounds_regions [OF ll lx ok1 ok2]
    from br have gq: "grid_point ?rs ?q" by blast
    from br have b1: "cell_at ?dims1 (add_bounds ?dims1 ?dims2 ?q) = cell_at ?dims1 x" by blast
    from br have b2: "cell_at ?dims2 (add_bounds ?dims1 ?dims2 ?q) = cell_at ?dims2 x" by blast
    have c': "cell_at ?dims' x = mixed_radix ?rs ?q"
      using l'1 ll mg by (rule cell_at_merged)
    show ?thesis
      unfolding tensor_at_def n' v' nd vl c' using cells [OF gq k] unfolding b1 b2 .
  qed
  have zero: "tensor_at t' x k = tensor_at t x k"
    if z: "\<forall>i<length (m_aValues rhs). m_aValues rhs ! i = 0"
      and x: "length x = ?N" and k: "k < ?V" for x k
  proof -
    let ?c = "cell_at ?dims2 x"
    have "?c + 1 \<le> prod_list (map (\<lambda>d. cDivisions d + 1) ?dims2)"
      using cell_at_less [OF ok2, of x] by simp
    then have "?V * (?c + 1) \<le> ?V * prod_list (map (\<lambda>d. cDivisions d + 1) ?dims2)"
      by (rule mult_le_mono2)
    with k pr(5) have "?V * ?c + k < length (m_aValues rhs)" by (simp add: nd vl)
    with z have "tensor_at rhs x k = 0" by (simp add: tensor_at_def nd vl)
    with sum [OF x k] show ?thesis by simp
  qed
  from wf n' v' axis sum zero show ?thesis by blast
qed

text \<open>
  C4: Add of \<open>rhs\<close> into \<open>t\<close>, for two well-formed tensors of the same vector length whose
  result has fewer than \<open>2 ^ 60\<close> values (the vector length times, over the axes, one plus
  the number of distinct cuts of the two operands), so that no size computed in \<open>size_t\<close>
  wraps around. When \<open>t\<close> is not expanded, the operands have the same number of
  dimensions and the allocations succeed, Add returns without an error. Whenever Add
  returns without an error, the result is well formed, every axis carries the strictly
  ascending union of the cuts of the two operands, and the result read as a
  piecewise-constant function is at every point the sum of the two operands at that
  point; adding a tensor whose values are all zero leaves the function unchanged.
\<close>

theorem Add_pointwise_sum:
  fixes t rhs :: "'v::monoid_add SegmentedRegionCore"
  assumes okt: "add_ok t" and okr: "add_ok rhs"
    and vl: "m_cVectorLength rhs = m_cVectorLength t"
    and size: "m_cVectorLength t * prod_list (add_radices (take (m_cDimensions t) (m_aDimensions t))
        (take (m_cDimensions t) (m_aDimensions rhs))) < 2 ^ 60"
  shows "(m_cDimensions rhs = m_cDimensions t \<and> \<not> m_bExpanded t \<and> (\<forall>n. ok n) \<longrightarrow>
      (\<exists>t'. Add ok junkv junkd rhs t = Inr (False, t'))) \<and>
    (\<forall>t'. Add ok junkv junkd rhs t = Inr (False, t') \<longrightarrow>
      add_ok t' \<and> m_cDimensions t' = m_cDimensions t \<and>
      m_cVectorLength t' = m_cVectorLength t \<and>
      (\<forall>i<m_cDimensions t.
          sorted_wrt (<) (cuts_of (m_aDimensions t' ! i)) \<and>
          set (cuts_of (m_aDimensions t' ! i)) =
            set (cuts_of (m_aDimensions t ! i)) \<union> set (cuts_of (m_aDimensions rhs ! i))) \<and>
      (\<forall>x k. length x = m_cDimensions t \<and> k < m_cVectorLength t \<longrightarrow>
          tensor_at t' x k = tensor_at t x k + tensor_at rhs x k) \<and>
      ((\<forall>i<length (m_aValues rhs). m_aValues rhs ! i = 0) \<longrightarrow>
         (\<forall>x k. length x = m_cDimensions t \<and> k < m_cVectorLength t \<longrightarrow>
            tensor_at t' x k = tensor_at t x k)))"
proof -
  have ex: "\<exists>t'. Add ok junkv junkd rhs t = Inr (False, t')"
    if h: "m_cDimensions rhs = m_cDimensions t \<and> \<not> m_bExpanded t \<and> (\<forall>n. ok n)"
  proof -
    from h have nd: "m_cDimensions rhs = m_cDimensions t" and ne: "\<not> m_bExpanded t"
      and ok: "\<forall>n. ok n" by simp_all
    from okt okr vl nd size ne ok show ?thesis by (rule Add_runs)
  qed
  note pr = Add_sum_of_run [OF _ okt okr vl size]
  show ?thesis
    apply (rule conjI)
     apply (rule impI)
     apply (rule ex)
     apply assumption
    apply (rule allI)
    apply (rule impI)
    apply (rule pr)
    apply assumption
    done
qed

theorem Add_pointwise_sum_witness:
  "add_ok tensorA \<and> add_ok tensorB \<and> add_ok tensorZero \<and>
   m_cVectorLength tensorB = m_cVectorLength tensorA \<and>
   m_cDimensions tensorB = m_cDimensions tensorA \<and> \<not> m_bExpanded tensorA \<and> always 7 \<and>
   m_cVectorLength tensorA * prod_list (add_radices
       (take (m_cDimensions tensorA) (m_aDimensions tensorA))
       (take (m_cDimensions tensorA) (m_aDimensions tensorB))) < 2 ^ 60 \<and>
   (\<exists>t'. Add always 0 0 tensorB tensorA = Inr (False, t')) \<and>
   Add always 0 0 tensorB tensorA = Inr (False, tensorA_plus_B) \<and>
   Add always 0 0 tensorZero tensorA = Inr (False, tensorA_plus_Zero) \<and>
   cuts_of (m_aDimensions tensorA_plus_B ! 0) = [2, 3] \<and>
   take 3 (m_aValues tensorA_plus_B) = [11, 21, 22] \<and>
   tensor_at tensorA_plus_B [3] 0 = tensor_at tensorA [3] 0 + tensor_at tensorB [3] 0 \<and>
   tensor_at tensorA_plus_B [3] 0 = 21 \<and>
   tensor_at tensorA_plus_Zero [3] 0 = tensor_at tensorA [3] 0 \<and>
   tensor_at tensorA_plus_Zero [3] 0 = 20"
proof -
  have vb: "m_cVectorLength tensorB = m_cVectorLength tensorA"
    and vz: "m_cVectorLength tensorZero = m_cVectorLength tensorA"
    and nb: "m_cDimensions tensorB = m_cDimensions tensorA"
    and ne: "\<not> m_bExpanded tensorA"
    by (simp_all add: tensorA_def tensorB_def tensorZero_def)
  have al: "\<forall>n. always n" by (simp add: always_def)
  have sb: "m_cVectorLength tensorA * prod_list (add_radices
       (take (m_cDimensions tensorA) (m_aDimensions tensorA))
       (take (m_cDimensions tensorA) (m_aDimensions tensorB))) < 2 ^ 60"
    by (simp add: tensorA_def tensorB_def add_radices_def merged_def cuts_of_def)
  have sz: "m_cVectorLength tensorA * prod_list (add_radices
       (take (m_cDimensions tensorA) (m_aDimensions tensorA))
       (take (m_cDimensions tensorA) (m_aDimensions tensorZero))) < 2 ^ 60"
    by (simp add: tensorA_def tensorZero_def add_radices_def merged_def cuts_of_def)
  note ab = Add_pointwise_sum [OF tensor_examples_ok(1,2) vb sb, of always 0 0]
  note az = Add_pointwise_sum [OF tensor_examples_ok(1,3) vz sz, of always 0 0]
  from ab nb ne al have ex: "\<exists>t'. Add always 0 0 tensorB tensorA = Inr (False, t')"
    by blast
  have x: "length [3::int] = m_cDimensions tensorA \<and> 0 < m_cVectorLength tensorA"
    by (simp add: tensorA_def)
  from ab Add_tensorA_tensorB x
  have 1: "tensor_at tensorA_plus_B [3] 0 = tensor_at tensorA [3] 0 + tensor_at tensorB [3] 0"
    by blast
  have z: "\<forall>i<length (m_aValues tensorZero). m_aValues tensorZero ! i = 0"
    by (simp add: tensorZero_def less_Suc_eq)
  from az Add_tensorA_tensorZero z x
  have 2: "tensor_at tensorA_plus_Zero [3] 0 = tensor_at tensorA [3] 0"
    by blast
  have 3: "cuts_of (m_aDimensions tensorA_plus_B ! 0) = [2, 3]"
    by (simp add: tensorA_plus_B_def cuts_of_def)
  have 4: "take 3 (m_aValues tensorA_plus_B) = [11, 21, 22]"
    by (simp add: tensorA_plus_B_def)
  have 5: "tensor_at tensorA_plus_B [3] 0 = 21" "tensor_at tensorA_plus_Zero [3] 0 = 20"
    by code_simp+
  have a7: "always 7" by (simp add: always_def)
  from Add_tensorA_tensorB Add_tensorA_tensorZero tensor_examples_ok vb nb ne a7 sb ex 1 2 3 4 5
  show ?thesis by blast
qed

section \<open>Lemmas on the bit-packed input store\<close>

lemma dimension_info_take:
  "n \<le> length entries \<Longrightarrow>
   dimension_info entries cCases n =
     Inr (map (\<lambda>e. \<lparr>m_pInputData = m_iAttributeData (m_pAttribute e) * cCases,
                      m_cStates_info = m_cStates (m_pAttribute e)\<rparr>) (take n entries))"
proof (induction entries cCases n rule: dimension_info.induct)
  case (1 entries cCases)
  then show ?case by simp
next
  case (2 cCases n)
  then show ?case by simp
next
  case (3 e entries cCases n)
  then show ?case by simp
qed

lemma tensor_index_result:
  "list_all (\<lambda>d. m_pInputData d < length aIn \<and> 0 \<le> aIn ! m_pInputData d \<and>
        nat (aIn ! m_pInputData d) < m_cStates_info d) dims \<Longrightarrow>
   tensor_index aIn dims tm ti =
     Inr (ti + tm * word_of_nat (mixed_radix (map m_cStates_info dims)
                      (map (\<lambda>d. nat (aIn ! m_pInputData d)) dims)),
          map (\<lambda>d. d\<lparr>m_pInputData := m_pInputData d + 1\<rparr>) dims)"
proof (induction dims arbitrary: tm ti)
  case Nil
  then show ?case by simp
next
  case (Cons d dims)
  then have ok: "m_pInputData d < length aIn" "0 \<le> aIn ! m_pInputData d"
    "nat (aIn ! m_pInputData d) < m_cStates_info d"
    and oks: "list_all (\<lambda>d. m_pInputData d < length aIn \<and> 0 \<le> aIn ! m_pInputData d \<and>
        nat (aIn ! m_pInputData d) < m_cStates_info d) dims"
    by simp_all
  have wi: "(word_of_int (aIn ! m_pInputData d) :: 64 word) = word_of_nat (nat (aIn ! m_pInputData d))"
    using ok(2) by simp
  show ?case
    using ok by (simp add: Cons.IH [OF oks] wi algebra_simps del: of_nat_nat)
qed

lemma tensor_index_case:
  assumes "combination_ok c cCases aIn" "i < cCases"
  shows "tensor_index aIn (dims_at c cCases i) 1 0 =
     Inr (word_of_nat (mixed_radix (case_states c) (case_tuple c cCases aIn i)),
          dims_at c cCases (i + 1))"
proof -
  let ?es = "take (m_cAttributes c) (m_AttributeCombinationEntry c)"
  have "list_all (\<lambda>e.
          m_iAttributeData (m_pAttribute e) * cCases + i < length aIn \<and>
          0 \<le> aIn ! (m_iAttributeData (m_pAttribute e) * cCases + i) \<and>
          nat (aIn ! (m_iAttributeData (m_pAttribute e) * cCases + i))
            < m_cStates (m_pAttribute e)) ?es"
    using assms by (simp add: combination_ok_def list_all_iff)
  then have "list_all (\<lambda>d. m_pInputData d < length aIn \<and> 0 \<le> aIn ! m_pInputData d \<and>
        nat (aIn ! m_pInputData d) < m_cStates_info d) (dims_at c cCases i)"
    by (simp add: dims_at_def list_all_iff)
  from tensor_index_result [OF this, of 1 0] show ?thesis
    by (simp add: dims_at_def case_states_def case_tuple_def comp_def)
qed

lemma case_index_bound:
  assumes "combination_ok c cCases aIn" "i < cCases"
  shows "mixed_radix (case_states c) (case_tuple c cCases aIn i)
     < 2 ^ GetCountBits (m_cItemsPerBitPackDataUnit c)"
proof -
  let ?es = "take (m_cAttributes c) (m_AttributeCombinationEntry c)"
  have "list_all (\<lambda>e. nat (aIn ! (m_iAttributeData (m_pAttribute e) * cCases + i))
            < m_cStates (m_pAttribute e)) ?es"
    using assms by (simp add: combination_ok_def list_all_iff)
  then have "grid_point (case_states c) (case_tuple c cCases aIn i)"
    unfolding grid_point_def case_states_def case_tuple_def
    by (induction ?es) (simp_all add: list_all2_map1 list_all2_map2 list_all2_same list_all_iff)
  then have "mixed_radix (case_states c) (case_tuple c cCases aIn i) < prod_list (case_states c)"
    by (rule mixed_radix_less)
  with assms(1) show ?thesis by (simp add: combination_ok_def)
qed

lemma pack_items_run:
  assumes step: "\<And>i. i < cCases \<Longrightarrow> tensor_index aIn (D i) 1 0 = Inr (T i, D (i + 1))"
    and b: "0 < b" and k: "b * k \<le> 64"
  shows "j < k \<Longrightarrow> i0 + k \<le> cCases \<Longrightarrow>
    pack_items aIn b (b * k) (D (i0 + j)) (pack_spec b (\<lambda>m. T (i0 + m)) j) (b * j)
      = Some (Inr (pack_spec b (\<lambda>m. T (i0 + m)) k, D (i0 + k)))"
proof (induction d \<equiv> "k - j" arbitrary: j)
  case 0
  then show ?case by simp
next
  case (Suc d)
  have jc: "i0 + j < cCases" using Suc.prems by simp
  have "b * Suc j \<le> b * k" using Suc.prems(1) by (intro mult_le_mono2) simp
  then have sh: "\<not> 64 \<le> b * j" using b k by simp
  have ti: "tensor_index aIn (D (i0 + j)) 1 0 = Inr (T (i0 + j), D (i0 + j + 1))"
    using jc by (rule step)
  have "(b * k = b * Suc j) = (k = Suc j)"
    using b unfolding mult_cancel1 by simp
  then have ne2: "(b * k \<noteq> b * Suc j) = (k \<noteq> Suc j)"
    by (rule arg_cong)
  have e0: "b * j + b = b * Suc j" by simp
  have ne: "(b * k \<noteq> b * j + b) = (k \<noteq> Suc j)"
    unfolding e0 by (rule ne2)
  show ?case
  proof (cases "k = Suc j")
    case True
    show ?thesis
      apply (subst pack_items.simps)
      apply (simp only: ti sum.case prod.case sh if_False Let_def ne)
      apply (simp add: True)
      done
  next
    case False
    with Suc.prems(1) have lt: "Suc j < k" by simp
    have d: "d = k - Suc j" using Suc.hyps(2) by simp
    note ih = Suc.hyps(1) [OF d lt Suc.prems(2)]
    have e: "pack_spec b (\<lambda>m. T (i0 + m)) j OR push_bit (b * j) (T (i0 + j))
        = pack_spec b (\<lambda>m. T (i0 + m)) (Suc j)"
      by simp
    have e2: "b * j + b = b * Suc j" "i0 + j + 1 = i0 + Suc j" by simp_all
    show ?thesis
      apply (subst pack_items.simps)
      apply (simp only: ti sum.case prod.case sh if_False Let_def ne ne2 False not_False_eq_True if_True e e2 ih)
      done
  qed
qed

lemma pack_words_run:
  assumes step: "\<And>i. i < cCases \<Longrightarrow> tensor_index aIn (D i) 1 0 = Inr (T i, D (i + 1))"
    and b: "0 < b" and k: "b * items \<le> 64" and l: "0 < lst" "lst \<le> items"
  shows "i0 + n * items + lst \<le> cCases \<Longrightarrow>
    pack_words aIn b (b * items) (b * lst) n (D i0) =
      Some (Inr (map (\<lambda>q. pack_spec b (\<lambda>m. T (i0 + q * items + m)) items) [0..<n]
                 @ [pack_spec b (\<lambda>m. T (i0 + n * items + m)) lst]))"
proof (induction n arbitrary: i0)
  case 0
  have "b * lst \<le> b * items" using l(2) by (rule mult_le_mono2)
  then have kl: "b * lst \<le> 64" using k by (rule le_trans)
  have "pack_items aIn b (b * lst) (D (i0 + 0)) (pack_spec b (\<lambda>m. T (i0 + m)) 0) (b * 0)
      = Some (Inr (pack_spec b (\<lambda>m. T (i0 + m)) lst, D (i0 + lst)))"
    using step b kl l(1) 0 by (intro pack_items_run [where cCases = cCases]) simp_all
  then show ?case by simp
next
  case (Suc n)
  have it: "0 < items" using l by simp
  have "pack_items aIn b (b * items) (D (i0 + 0)) (pack_spec b (\<lambda>m. T (i0 + m)) 0) (b * 0)
      = Some (Inr (pack_spec b (\<lambda>m. T (i0 + m)) items, D (i0 + items)))"
    using step b k it Suc.prems by (intro pack_items_run [where cCases = cCases]) simp_all
  then have first: "pack_items aIn b (b * items) (D i0) 0 0
      = Some (Inr (pack_spec b (\<lambda>m. T (i0 + m)) items, D (i0 + items)))"
    by simp
  have "i0 + items + n * items + lst \<le> cCases" using Suc.prems by simp
  note ih = Suc.IH [OF this]
  have sh: "(\<lambda>q. pack_spec b (\<lambda>m. T (i0 + items + q * items + m)) items)
      = (\<lambda>q. pack_spec b (\<lambda>m. T (i0 + q * items + m)) items) \<circ> Suc"
    by (simp add: fun_eq_iff add.assoc add.left_commute)
  have up: "[0..<Suc n] = 0 # map Suc [0..<n]"
    by (simp add: upt_conv_Cons map_Suc_upt del: upt_Suc)
  have la: "(\<lambda>m. T (i0 + items + n * items + m)) = (\<lambda>m. T (i0 + Suc n * items + m))"
    by (simp add: fun_eq_iff add.assoc add.left_commute)
  have rhs: "map (\<lambda>q. pack_spec b (\<lambda>m. T (i0 + q * items + m)) items) [0..<Suc n]
        @ [pack_spec b (\<lambda>m. T (i0 + Suc n * items + m)) lst]
      = pack_spec b (\<lambda>m. T (i0 + m)) items #
        (map (\<lambda>q. pack_spec b (\<lambda>m. T (i0 + items + q * items + m)) items) [0..<n]
          @ [pack_spec b (\<lambda>m. T (i0 + items + n * items + m)) lst])"
    unfolding sh la up by simp
  show ?case
    unfolding rhs by (simp add: first ih)
qed

lemma bit_pack_spec:
  "bit (pack_spec b T n) p \<longleftrightarrow> (\<exists>m<n. b * m \<le> p \<and> p < 64 \<and> bit (T m) (p - b * m))"
proof (induction n)
  case 0
  then show ?case by simp
next
  case (Suc n)
  show ?case
    by (auto simp: bit_or_iff bit_push_bit_iff Suc less_Suc_eq)
qed

lemma slot_bits:
  fixes x :: "64 word"
  assumes "take_bit b x = x" "bit x q"
  shows "q < b"
proof -
  from assms(2) have "bit (take_bit b x) q" unfolding assms(1) .
  then show ?thesis by (simp add: bit_take_bit_iff)
qed

lemma mult_slot_less: "m < n \<Longrightarrow> b * m + b \<le> b * (n::nat)"
  using mult_le_mono2 [of "Suc m" n b] by simp

lemma pack_spec_slot:
  assumes T: "\<And>m. m < n \<Longrightarrow> take_bit b (T m) = T m" and m0: "m0 < n" and k: "b * n \<le> 64"
  shows "take_bit b (drop_bit (b * m0) (pack_spec b T n)) = T m0"
proof (rule bit_word_eqI)
  fix p assume "p < LENGTH(64)"
  show "bit (take_bit b (drop_bit (b * m0) (pack_spec b T n))) p = bit (T m0) p"
  proof
    assume "bit (take_bit b (drop_bit (b * m0) (pack_spec b T n))) p"
    then have pb: "p < b" and "bit (pack_spec b T n) (b * m0 + p)"
      by (simp_all add: bit_take_bit_iff bit_drop_bit_eq)
    then obtain m where m: "m < n" "b * m \<le> b * m0 + p" "bit (T m) (b * m0 + p - b * m)"
      unfolding bit_pack_spec by blast
    from slot_bits [OF T [OF m(1)] m(3)] have u: "b * m0 + p - b * m < b" .
    have "m = m0"
    proof (rule ccontr)
      assume "m \<noteq> m0"
      then consider "m < m0" | "m0 < m" by linarith
      then show False
      proof cases
        case 1
        from mult_slot_less [OF 1, of b] u show False by simp
      next
        case 2
        from mult_slot_less [OF 2, of b] m(2) pb show False by simp
      qed
    qed
    with m(3) show "bit (T m0) p" by simp
  next
    assume t: "bit (T m0) p"
    from slot_bits [OF T [OF m0] t] have pb: "p < b" .
    from mult_slot_less [OF m0, of b] pb k have "b * m0 + p < 64" by simp
    with t m0 have "bit (pack_spec b T n) (b * m0 + p)"
      unfolding bit_pack_spec by (intro exI [of _ m0]) simp
    with pb show "bit (take_bit b (drop_bit (b * m0) (pack_spec b T n))) p"
      by (simp add: bit_take_bit_iff bit_drop_bit_eq)
  qed
qed

lemma pack_spec_top:
  assumes T: "\<And>m. m < n \<Longrightarrow> take_bit b (T m) = T m"
  shows "drop_bit (b * n) (pack_spec b T n) = 0"
proof (rule bit_word_eqI)
  fix p assume "p < LENGTH(64)"
  have "\<not> bit (pack_spec b T n) (b * n + p)"
  proof
    assume "bit (pack_spec b T n) (b * n + p)"
    then obtain m where m: "m < n" "bit (T m) (b * n + p - b * m)"
      unfolding bit_pack_spec by blast
    from slot_bits [OF T [OF m(1)] m(2)] mult_slot_less [OF m(1), of b]
    show False by simp
  qed
  then show "bit (drop_bit (b * n) (pack_spec b T n)) p = bit (0 :: 64 word) p"
    by (simp add: bit_drop_bit_eq)
qed

lemma combination_ok_parts:
  assumes "combination_ok c cCases aIn"
  shows "0 < m_cItemsPerBitPackDataUnit c" "m_cItemsPerBitPackDataUnit c \<le> 64"
    "0 < m_cAttributes c" "m_cAttributes c \<le> 63"
    "m_cAttributes c \<le> length (m_AttributeCombinationEntry c)"
    "0 < GetCountBits (m_cItemsPerBitPackDataUnit c)"
    "GetCountBits (m_cItemsPerBitPackDataUnit c) * m_cItemsPerBitPackDataUnit c \<le> 64"
proof -
  show i: "0 < m_cItemsPerBitPackDataUnit c" "m_cItemsPerBitPackDataUnit c \<le> 64"
    "0 < m_cAttributes c" "m_cAttributes c \<le> 63"
    "m_cAttributes c \<le> length (m_AttributeCombinationEntry c)"
    using assms by (simp_all add: combination_ok_def)
  show "0 < GetCountBits (m_cItemsPerBitPackDataUnit c)"
    using i(1,2) by (simp add: GetCountBits_def k_cBitsForStorageType_def div_greater_zero_iff)
  show "GetCountBits (m_cItemsPerBitPackDataUnit c) * m_cItemsPerBitPackDataUnit c \<le> 64"
    by (simp add: GetCountBits_def k_cBitsForStorageType_def)
qed

lemma case_word_fits:
  assumes "combination_ok c cCases aIn" "i < cCases"
  shows "take_bit (GetCountBits (m_cItemsPerBitPackDataUnit c)) (case_word c cCases aIn i)
       = case_word c cCases aIn i"
    "unat (case_word c cCases aIn i) = mixed_radix (case_states c) (case_tuple c cCases aIn i)"
proof -
  let ?b = "GetCountBits (m_cItemsPerBitPackDataUnit c)"
  let ?n = "mixed_radix (case_states c) (case_tuple c cCases aIn i)"
  note p = combination_ok_parts [OF assms(1)]
  have lt: "?n < 2 ^ ?b" using assms by (rule case_index_bound)
  have "?b \<le> 64" using p(1) by (simp add: GetCountBits_def k_cBitsForStorageType_def)
  then have "(2::nat) ^ ?b \<le> 2 ^ 64" by (intro power_increasing) simp_all
  with lt have lt64: "?n < 2 ^ 64" by simp
  have "take_bit ?b ?n = ?n" using lt by (simp add: take_bit_nat_eq_self)
  then show "take_bit ?b (case_word c cCases aIn i) = case_word c cCases aIn i"
    unfolding case_word_def by (metis take_bit_of_nat)
  show "unat (case_word c cCases aIn i) = ?n"
    unfolding case_word_def using lt64 by (simp add: unat_of_nat take_bit_nat_eq_self)
qed

lemma construct_one_result:
  assumes ok: "combination_ok c cCases aIn" and m: "\<forall>n. malloc_ok n"
    and c0: "0 < cCases" and cb: "int cCases < 2 ^ 61"
  shows "construct_one malloc_ok c cCases aIn = Some (Inr (Some (packed_block c cCases aIn)))"
proof -
  let ?items = "m_cItemsPerBitPackDataUnit c"
  let ?b = "GetCountBits ?items"
  let ?n = "(cCases - 1) div ?items"
  let ?l = "(cCases - 1) mod ?items + 1"
  let ?T = "case_word c cCases aIn"
  note p = combination_ok_parts [OF ok]
  have step: "tensor_index aIn (dims_at c cCases i) 1 0 = Inr (?T i, dims_at c cCases (i + 1))"
    if "i < cCases" for i
    unfolding case_word_def using ok that by (rule tensor_index_case)
  have l: "0 < ?l" "?l \<le> ?items"
    using mod_less_divisor [OF p(1), of "cCases - 1"] by linarith+
  have tot: "0 + ?n * ?items + ?l \<le> cCases" using c0 by simp
  have pw: "pack_words aIn ?b (?b * ?items) (?b * ?l) ?n (dims_at c cCases 0) =
      Some (Inr (map (\<lambda>q. pack_spec ?b (\<lambda>m. ?T (0 + q * ?items + m)) ?items) [0..<?n]
                 @ [pack_spec ?b (\<lambda>m. ?T (0 + ?n * ?items + m)) ?l]))"
    using step p(6) p(7) l tot by (rule pack_words_run)
  have blk: "map (\<lambda>q. pack_spec ?b (\<lambda>m. ?T (0 + q * ?items + m)) ?items) [0..<?n]
                 @ [pack_spec ?b (\<lambda>m. ?T (0 + ?n * ?items + m)) ?l] = packed_block c cCases aIn"
    unfolding packed_block_def by simp
  have di: "dimension_info (m_AttributeCombinationEntry c) cCases (m_cAttributes c)
      = Inr (dims_at c cCases 0)"
    using dimension_info_take [OF p(5), of cCases] by (simp add: dims_at_def)
  have "(cCases - 1) div ?items + 1 \<le> cCases"
    using c0 div_le_dividend [of "cCases - 1" ?items] by linarith
  then have "int ((cCases - 1) div ?items + 1) < 2 ^ 61" using cb by linarith
  then have me: "\<not> IsMultiplyError 8 (int ((cCases - 1) div ?items + 1))"
    by (simp add: IsMultiplyError_def)
  have g: "?items \<noteq> 0" "\<not> (m_cAttributes c = 0 \<or> k_cDimensionsMax < m_cAttributes c)"
    using p(1,3,4) by (simp_all add: k_cDimensionsMax_def)
  have n1: "(cCases - 1) div ?items + 1 - 1 = ?n" by simp
  show ?thesis
    unfolding construct_one_def Let_def if_not_P [OF g(1)] if_not_P [OF me] if_not_P [OF g(2)]
      di n1 pw blk sum.case option.case
    using m by simp
qed

lemma construct_all_result:
  assumes m: "\<forall>n. malloc_ok n" and c0: "0 < cCases" and cb: "int cCases < 2 ^ 61"
  shows "list_all (\<lambda>c. combination_ok c cCases aIn) cs \<Longrightarrow>
    construct_all malloc_ok cs cCases aIn = Some (Inr (Some (map (\<lambda>c. packed_block c cCases aIn) cs)))"
proof (induction cs)
  case Nil
  then show ?case by simp
next
  case (Cons c cs)
  then have ok: "combination_ok c cCases aIn" and oks: "list_all (\<lambda>c. combination_ok c cCases aIn) cs"
    by simp_all
  show ?case
    by (simp add: construct_one_result [OF ok m c0 cb] Cons.IH [OF oks])
qed

lemma packed_block_length:
  "length (packed_block c cCases aIn) = (cCases - 1) div m_cItemsPerBitPackDataUnit c + 1"
  by (simp add: packed_block_def)

lemma packed_block_slot:
  assumes ok: "combination_ok c cCases aIn" and i: "i < cCases"
  shows "take_bit (GetCountBits (m_cItemsPerBitPackDataUnit c))
      (drop_bit (i mod m_cItemsPerBitPackDataUnit c * GetCountBits (m_cItemsPerBitPackDataUnit c))
         (packed_block c cCases aIn ! (i div m_cItemsPerBitPackDataUnit c)))
     = case_word c cCases aIn i"
proof -
  let ?items = "m_cItemsPerBitPackDataUnit c"
  let ?b = "GetCountBits ?items"
  let ?n = "(cCases - 1) div ?items"
  let ?q = "i div ?items" and ?m0 = "i mod ?items"
  let ?cnt = "if ?q < ?n then ?items else (cCases - 1) mod ?items + 1"
  let ?T = "\<lambda>m. case_word c cCases aIn (?q * ?items + m)"
  note p = combination_ok_parts [OF ok]
  have qn: "?q \<le> ?n" using i by (intro div_le_mono) simp
  then have ql: "?q < ?n + 1" by simp
  have w: "packed_block c cCases aIn ! ?q = pack_spec ?b ?T ?cnt"
    unfolding packed_block_def using ql by (simp del: upt_Suc)
  have cl: "?cnt \<le> ?items"
    using mod_less_divisor [OF p(1), of "cCases - 1"] by (cases "?q < ?n") simp_all
  have m0: "?m0 < ?cnt"
  proof (cases "?q < ?n")
    case True
    then show ?thesis using p(1) by simp
  next
    case False
    with qn have e: "?q = ?n" by simp
    have "i \<le> cCases - 1" using i by simp
    moreover have "?q * ?items + ?m0 = i" by simp
    moreover have "?n * ?items + (cCases - 1) mod ?items = cCases - 1" by simp
    ultimately have "?n * ?items + ?m0 \<le> ?n * ?items + (cCases - 1) mod ?items"
      unfolding e [symmetric] by linarith
    then have "?m0 \<le> (cCases - 1) mod ?items" by (rule add_le_imp_le_left)
    with False show ?thesis by simp
  qed
  have inr: "?q * ?items + m < cCases" if "m < ?cnt" for m
  proof (cases "?q < ?n")
    case True
    then have "Suc ?q \<le> ?n" by simp
    then have "Suc ?q * ?items \<le> ?n * ?items" by (rule mult_le_mono1)
    also have "\<dots> \<le> cCases - 1" by simp
    finally have "?q * ?items + ?items \<le> cCases - 1" by simp
    with that True i show ?thesis by simp
  next
    case False
    with qn have e: "?q = ?n" by simp
    have eq: "?n * ?items + (cCases - 1) mod ?items = cCases - 1" by simp
    from that False have "m < (cCases - 1) mod ?items + 1" by simp
    with eq i show ?thesis unfolding e by linarith
  qed
  have fit: "take_bit ?b (?T m) = ?T m" if "m < ?cnt" for m
    using ok inr [OF that] by (rule case_word_fits(1))
  have "?b * ?cnt \<le> ?b * ?items" using cl by (rule mult_le_mono2)
  then have k: "?b * ?cnt \<le> 64" using p(7) by (rule le_trans)
  have "take_bit ?b (drop_bit (?b * ?m0) (pack_spec ?b ?T ?cnt)) = ?T ?m0"
    using fit m0 k by (rule pack_spec_slot)
  then show ?thesis unfolding w by (simp add: mult.commute)
qed

lemma packed_block_top:
  assumes ok: "combination_ok c cCases aIn" and c0: "0 < cCases"
  shows "drop_bit (((cCases - 1) mod m_cItemsPerBitPackDataUnit c + 1)
            * GetCountBits (m_cItemsPerBitPackDataUnit c))
      (last (packed_block c cCases aIn)) = 0"
proof -
  let ?items = "m_cItemsPerBitPackDataUnit c"
  let ?b = "GetCountBits ?items"
  let ?n = "(cCases - 1) div ?items"
  let ?l = "(cCases - 1) mod ?items + 1"
  let ?T = "\<lambda>m. case_word c cCases aIn (?n * ?items + m)"
  have w: "last (packed_block c cCases aIn) = pack_spec ?b ?T ?l"
    unfolding packed_block_def by (simp add: last_map)
  have fit: "take_bit ?b (?T m) = ?T m" if "m < ?l" for m
  proof -
    have "?n * ?items + (cCases - 1) mod ?items = cCases - 1" by simp
    with that c0 have "?n * ?items + m < cCases" by linarith
    with ok show ?thesis by (rule case_word_fits(1))
  qed
  have "drop_bit (?b * ?l) (pack_spec ?b ?T ?l) = 0"
    using fit by (rule pack_spec_top)
  then show ?thesis unfolding w by (simp add: mult.commute)
qed

lemma ConstructInputData_demo:
  "ConstructInputData malloc_always 1 [demo_combination] 3 demo_input
     = Some (Inr (Some [[8589934597, 1]]))"
proof -
  have d: "(64::nat) div Suc (Suc 0) = 32" unfolding numeral_2_eq_2 [symmetric] by simp
  have o: "(5 :: 64 word) OR push_bit 32 2 = 8589934597" by (simp add: push_bit_eq_mult)
  show ?thesis
    by (simp add: ConstructInputData_def construct_one_def demo_combination_def demo_input_def
      malloc_always_def GetCountBits_def k_cBitsForStorageType_def k_cDimensionsMax_def
      IsMultiplyError_def pack_items.simps Let_def numeral_2_eq_2 d o)
qed

lemma demo_combination_ok: "combination_ok demo_combination 3 demo_input"
proof -
  have u: "[0..<3] = [0, 1, 2::nat]" by (simp add: numeral_3_eq_3)
  show ?thesis
    unfolding combination_ok_def u
    by (simp add: demo_combination_def demo_input_def case_states_def
        GetCountBits_def k_cBitsForStorageType_def)
qed

text \<open>
  C8: for well-formed attribute combinations (and allocations that succeed),
  ConstructInputData returns one block of words per combination; the block has a word
  for every \<open>m_cItemsPerBitPackDataUnit\<close> cases; the slot of case \<open>i\<close>, which is the item
  number \<open>i mod m_cItemsPerBitPackDataUnit\<close> of the word number
  \<open>i div m_cItemsPerBitPackDataUnit\<close>, counted from the lowest bits in items of
  \<open>GetCountBits m_cItemsPerBitPackDataUnit\<close> bits, holds the mixed-radix index of the
  tuple of bin indices of the case; and the last word is zero above its last item. The
  width of a slot is the number of bits of a word divided by the number of items per
  word, rounded down, which can be more than the number of bits an item needs.
\<close>

theorem ConstructInputData_slots:
  assumes m: "\<forall>n. malloc_ok n" and c0: "0 < cCases" and cb: "int cCases < 2 ^ 61"
    and ne: "combos \<noteq> []"
    and ok: "list_all (\<lambda>c. combination_ok c cCases aInputDataFrom) combos"
  shows "\<exists>blocks.
    ConstructInputData malloc_ok (length combos) combos cCases aInputDataFrom
      = Some (Inr (Some blocks)) \<and>
    length blocks = length combos \<and>
    (\<forall>k<length combos.
       length (blocks ! k) = (cCases - 1) div m_cItemsPerBitPackDataUnit (combos ! k) + 1 \<and>
       (\<forall>i<cCases.
          unat (take_bit (GetCountBits (m_cItemsPerBitPackDataUnit (combos ! k)))
                 (drop_bit (i mod m_cItemsPerBitPackDataUnit (combos ! k)
                              * GetCountBits (m_cItemsPerBitPackDataUnit (combos ! k)))
                    (blocks ! k ! (i div m_cItemsPerBitPackDataUnit (combos ! k)))))
            = mixed_radix (case_states (combos ! k))
                (case_tuple (combos ! k) cCases aInputDataFrom i)) \<and>
       drop_bit (((cCases - 1) mod m_cItemsPerBitPackDataUnit (combos ! k) + 1)
                   * GetCountBits (m_cItemsPerBitPackDataUnit (combos ! k)))
         (last (blocks ! k)) = 0)"
proof -
  let ?blocks = "map (\<lambda>c. packed_block c cCases aInputDataFrom) combos"
  have run: "ConstructInputData malloc_ok (length combos) combos cCases aInputDataFrom
      = Some (Inr (Some ?blocks))"
    using c0 ne
    by (simp add: ConstructInputData_def m [rule_format] construct_all_result [OF m c0 cb ok])
  have each: "length (?blocks ! k) = (cCases - 1) div m_cItemsPerBitPackDataUnit (combos ! k) + 1 \<and>
       (\<forall>i<cCases.
          unat (take_bit (GetCountBits (m_cItemsPerBitPackDataUnit (combos ! k)))
                 (drop_bit (i mod m_cItemsPerBitPackDataUnit (combos ! k)
                              * GetCountBits (m_cItemsPerBitPackDataUnit (combos ! k)))
                    (?blocks ! k ! (i div m_cItemsPerBitPackDataUnit (combos ! k)))))
            = mixed_radix (case_states (combos ! k))
                (case_tuple (combos ! k) cCases aInputDataFrom i)) \<and>
       drop_bit (((cCases - 1) mod m_cItemsPerBitPackDataUnit (combos ! k) + 1)
                   * GetCountBits (m_cItemsPerBitPackDataUnit (combos ! k)))
         (last (?blocks ! k)) = 0"
    if k: "k < length combos" for k
  proof -
    let ?c = "combos ! k"
    have okc: "combination_ok ?c cCases aInputDataFrom"
      using ok k by (simp add: list_all_length)
    have bk: "?blocks ! k = packed_block ?c cCases aInputDataFrom" using k by simp
    have slot: "unat (take_bit (GetCountBits (m_cItemsPerBitPackDataUnit ?c))
                 (drop_bit (i mod m_cItemsPerBitPackDataUnit ?c
                              * GetCountBits (m_cItemsPerBitPackDataUnit ?c))
                    (packed_block ?c cCases aInputDataFrom ! (i div m_cItemsPerBitPackDataUnit ?c))))
            = mixed_radix (case_states ?c) (case_tuple ?c cCases aInputDataFrom i)"
      if i: "i < cCases" for i
      unfolding packed_block_slot [OF okc i] using okc i by (rule case_word_fits(2))
    show ?thesis
      unfolding bk using packed_block_length [of ?c cCases aInputDataFrom] slot
        packed_block_top [OF okc c0] by blast
  qed
  show ?thesis
    using run each by (intro exI [of _ ?blocks]) simp
qed

theorem ConstructInputData_slots_witness:
  "malloc_always 24 \<and> list_all (\<lambda>c. combination_ok c 3 demo_input) [demo_combination] \<and>
   ConstructInputData malloc_always 1 [demo_combination] 3 demo_input
     = Some (Inr (Some [[8589934597, 1]])) \<and>
   unat (take_bit 32 (drop_bit 32 (8589934597 :: 64 word)))
     = mixed_radix (case_states demo_combination) (case_tuple demo_combination 3 demo_input 1) \<and>
   mixed_radix (case_states demo_combination) (case_tuple demo_combination 3 demo_input 1) = 2 \<and>
   mixed_radix (case_states demo_combination) (case_tuple demo_combination 3 demo_input 0) = 5 \<and>
   drop_bit 32 (1 :: 64 word) = 0"
proof -
  have m: "\<forall>n. malloc_always n" by (simp add: malloc_always_def)
  have ok: "list_all (\<lambda>c. combination_ok c 3 demo_input) [demo_combination]"
    using demo_combination_ok by simp
  have "\<exists>blocks.
    ConstructInputData malloc_always (length [demo_combination]) [demo_combination] 3 demo_input
      = Some (Inr (Some blocks)) \<and>
    length blocks = length [demo_combination] \<and>
    (\<forall>k<length [demo_combination].
       length (blocks ! k) = (3 - 1) div m_cItemsPerBitPackDataUnit ([demo_combination] ! k) + 1 \<and>
       (\<forall>i<3.
          unat (take_bit (GetCountBits (m_cItemsPerBitPackDataUnit ([demo_combination] ! k)))
                 (drop_bit (i mod m_cItemsPerBitPackDataUnit ([demo_combination] ! k)
                              * GetCountBits (m_cItemsPerBitPackDataUnit ([demo_combination] ! k)))
                    (blocks ! k ! (i div m_cItemsPerBitPackDataUnit ([demo_combination] ! k)))))
            = mixed_radix (case_states ([demo_combination] ! k))
                (case_tuple ([demo_combination] ! k) 3 demo_input i)) \<and>
       drop_bit (((3 - 1) mod m_cItemsPerBitPackDataUnit ([demo_combination] ! k) + 1)
                   * GetCountBits (m_cItemsPerBitPackDataUnit ([demo_combination] ! k)))
         (last (blocks ! k)) = 0)"
    by (rule ConstructInputData_slots [OF m _ _ _ ok]) simp_all
  then obtain blocks where run: "ConstructInputData malloc_always 1 [demo_combination] 3 demo_input
      = Some (Inr (Some blocks))"
    and slot: "\<And>i. i < 3 \<Longrightarrow>
          unat (take_bit (GetCountBits (m_cItemsPerBitPackDataUnit demo_combination))
                 (drop_bit (i mod m_cItemsPerBitPackDataUnit demo_combination
                              * GetCountBits (m_cItemsPerBitPackDataUnit demo_combination))
                    (blocks ! 0 ! (i div m_cItemsPerBitPackDataUnit demo_combination))))
            = mixed_radix (case_states demo_combination) (case_tuple demo_combination 3 demo_input i)"
    and top: "drop_bit (((3 - 1) mod m_cItemsPerBitPackDataUnit demo_combination + 1)
                   * GetCountBits (m_cItemsPerBitPackDataUnit demo_combination))
         (last (blocks ! 0)) = 0"
    by auto
  from run ConstructInputData_demo have b: "blocks = [[8589934597, 1]]" by simp
  have items: "m_cItemsPerBitPackDataUnit demo_combination = 2" "GetCountBits 2 = 32"
    by (simp_all add: demo_combination_def GetCountBits_def k_cBitsForStorageType_def)
  have 1: "unat (take_bit 32 (drop_bit 32 (8589934597 :: 64 word)))
     = mixed_radix (case_states demo_combination) (case_tuple demo_combination 3 demo_input 1)"
    using slot [of 1] unfolding b items by simp
  have 2: "mixed_radix (case_states demo_combination) (case_tuple demo_combination 3 demo_input 1) = 2"
    "mixed_radix (case_states demo_combination) (case_tuple demo_combination 3 demo_input 0) = 5"
    by (simp_all add: case_states_def case_tuple_def demo_combination_def demo_input_def)
  have 3: "drop_bit 32 (1 :: 64 word) = 0"
    using top unfolding b items by simp
  from ok ConstructInputData_demo 1 2 3 show ?thesis
    by (simp add: malloc_always_def)
qed

text \<open>
  With 2048 states an item needs 11 bits and five items go into a word, but
  ConstructInputData makes the slots 12 bits wide: the index 1 of case 1 is in the bits
  from 12 to 23 of the word, and the bits from 11 to 21 read 2.
\<close>

lemma wide_combination_ok: "combination_ok wide_combination 2 wide_input"
proof -
  have u: "[0..<2] = [0, 1::nat]" by (simp add: numeral_2_eq_2)
  show ?thesis
    unfolding combination_ok_def u
    by (simp add: wide_combination_def wide_input_def case_states_def
        GetCountBits_def k_cBitsForStorageType_def)
qed

lemma ConstructInputData_wide:
  "ConstructInputData malloc_always 1 [wide_combination] 2 wide_input
     = Some (Inr (Some [[4096]]))"
proof -
  have o: "(0 :: 64 word) OR push_bit 12 1 = 4096" by (simp add: push_bit_eq_mult)
  show ?thesis
    by (simp add: ConstructInputData_def construct_one_def wide_combination_def wide_input_def
      malloc_always_def GetCountBits_def k_cBitsForStorageType_def k_cDimensionsMax_def
      IsMultiplyError_def pack_items.simps Let_def numeral_2_eq_2 o)
qed

theorem ConstructInputData_slot_width_counterexample:
  "combination_ok wide_combination 2 wide_input \<and>
   bits_per_item (prod_list (case_states wide_combination)) = 11 \<and>
   (2::nat) ^ 10 < prod_list (case_states wide_combination) \<and>
   prod_list (case_states wide_combination) \<le> 2 ^ 11 \<and>
   m_cItemsPerBitPackDataUnit wide_combination
     = itemsPerWord (prod_list (case_states wide_combination)) \<and>
   GetCountBits (m_cItemsPerBitPackDataUnit wide_combination) = 12 \<and>
   ConstructInputData malloc_always 1 [wide_combination] 2 wide_input
     = Some (Inr (Some [[4096]])) \<and>
   mixed_radix (case_states wide_combination) (case_tuple wide_combination 2 wide_input 1) = 1 \<and>
   unat (take_bit 11 (drop_bit (1 mod 5 * 11) (4096 :: 64 word))) = 2 \<and>
   unat (take_bit 12 (drop_bit (1 mod 5 * 12) (4096 :: 64 word))) = 1"
proof -
  have p: "prod_list (case_states wide_combination) = 2048"
    by (simp add: case_states_def wide_combination_def)
  have i: "m_cItemsPerBitPackDataUnit wide_combination = 5"
    by (simp add: wide_combination_def)
  have b: "bits_per_item 2048 = 11" by code_simp
  have w: "itemsPerWord 2048 = 5" by code_simp
  have g: "GetCountBits 5 = 12" by code_simp
  have x: "mixed_radix (case_states wide_combination)
      (case_tuple wide_combination 2 wide_input 1) = 1"
    by (simp add: case_states_def case_tuple_def wide_combination_def wide_input_def)
  have s11: "unat (take_bit 11 (drop_bit (1 mod 5 * 11) (4096 :: 64 word))) = 2"
    by (simp add: drop_bit_eq_div take_bit_eq_mod)
  have s12: "unat (take_bit 12 (drop_bit (1 mod 5 * 12) (4096 :: 64 word))) = 1"
    by (simp add: drop_bit_eq_div take_bit_eq_mod)
  show ?thesis
    unfolding p i b w g
    using wide_combination_ok ConstructInputData_wide x s11 s12 by simp
qed

end
